(* ===== verification/Prelude.thy ===== *)
theory Prelude
  imports
    Main
    "HOL-Library.AList"
    "HOL-Library.Sublist"
    "HOL-Library.List_Lexorder"
    "HOL-Library.Char_ord"
    "HOL-Library.Word"
begin

text \<open>
  Shared ground of the fvs2d development: the error values of the daemon, the wrap-around
  of Go's \<open>int64\<close>, dictionaries as association lists, and the two small interfaces that
  several components use (dictionaries and invariants of transition systems).

  Go strings and byte slices are both \<open>char list\<close>: an Isabelle character is one byte, and
  \<open>len\<close> counts bytes in Go.
\<close>

unbundle bit_operations_syntax

named_theorems str_simps \<open>facts about the string and path functions of the Go library\<close>
named_theorems os_simps \<open>facts about the calls of the operating system model\<close>

type_synonym bytes = string
type_synonym u32 = "32 word"

section \<open>Errors as values\<close>

text \<open>
  System call errors. \<open>EOther\<close> stands for the numbers the daemon never inspects. There is no
  value for zero: success is the right side of a sum, so an \<open>errno\<close> is always an error.
\<close>

datatype errno =
    ENOENT | EEXIST | ENOTDIR | EISDIR | ENOTEMPTY | EINVAL | EROFS | EXDEV
  | EIO | EBADF | ELOOP | EBUSY | EACCES | ENOSPC | EOther nat

text \<open>The gRPC status codes that occur in the daemon.\<close>

datatype code =
    InvalidArgument | PermissionDenied | CanceledCode | DeadlineExceededCode | NotFound
  | Aborted | FailedPrecondition | Internal | Unauthenticated

text \<open>
  Go error values. \<open>Errno\<close> also covers the \<open>os.PathError\<close> around a system call error. The
  sentinel errors of the packages that are not part of the repository are constructors of
  their own, \<open>Wrap\<close> is \<open>fmt.Errorf\<close> with \<open>%w\<close>, and \<open>Panic\<close> is a run-time panic.
\<close>

datatype gerror =
    Errno errno
  | PathEscape
  | Canceled
  | DeadlineExceeded
  | StateNotFound
  | LockTimeout
  | FormatUnsupported
  | BlockNotFound
  | UnexpectedEOF
  | ShortWrite
  | Msg string
  | Wrap string gerror
  | StatusErr code string
  | Panic string

section \<open>Go's int64\<close>

definition i64 :: "int \<Rightarrow> int" where
  "i64 x = (x + 2 ^ 63) mod 2 ^ 64 - 2 ^ 63"

lemma i64_id [simp]: "- (2 ^ 63) \<le> x \<Longrightarrow> x < 2 ^ 63 \<Longrightarrow> i64 x = x"
  by (simp add: i64_def)

lemma i64_range: "- (2 ^ 63) \<le> i64 x \<and> i64 x < 2 ^ 63"
  by (simp add: i64_def)

lemma i64_nat_id: "0 \<le> x \<Longrightarrow> x < 2 ^ 63 \<Longrightarrow> i64 x = x"
  by simp

section \<open>Dictionaries\<close>

text \<open>
  A Go map is an association list with distinct keys: \<open>map_of\<close> reads it, \<open>AList.update\<close> writes
  it, \<open>AList.delete\<close> is \<open>delete\<close>, and its length is \<open>len\<close>. The interface below is what the
  components use of it.
\<close>

locale dictionary =
  fixes lookup :: "'d \<Rightarrow> 'k \<Rightarrow> 'v option"
    and insert :: "'k \<Rightarrow> 'v \<Rightarrow> 'd \<Rightarrow> 'd"
    and remove :: "'k \<Rightarrow> 'd \<Rightarrow> 'd"
    and entries :: "'d \<Rightarrow> nat"
    and ok :: "'d \<Rightarrow> bool"
  assumes lookup_insert: "lookup (insert k v d) = (lookup d)(k \<mapsto> v)"
    and lookup_remove: "lookup (remove k d) = (lookup d)(k := None)"
    and ok_insert: "ok d \<Longrightarrow> ok (insert k v d)"
    and ok_remove: "ok d \<Longrightarrow> ok (remove k d)"
    and entries_dom: "ok d \<Longrightarrow> entries d = card (dom (lookup d))"
    and finite_dom: "finite (dom (lookup d))"
begin

lemma lookup_inserts:
  "lookup (fold (\<lambda>(k, v). insert k v) kvs d) = lookup d ++ map_of (rev kvs)"
proof (induction kvs arbitrary: d)
  case Nil
  show ?case by simp
next
  case (Cons kv kvs)
  obtain k v where kv: "kv = (k, v)" by force
  show ?case
    using Cons [of "insert k v d"]
    by (auto simp: kv lookup_insert map_add_def fun_eq_iff split: option.splits)
qed

lemma ok_inserts: "ok d \<Longrightarrow> ok (fold (\<lambda>(k, v). insert k v) kvs d)"
  by (induction kvs arbitrary: d) (auto simp: ok_insert split: prod.splits)

lemma insert_fresh_entries:
  "ok d \<Longrightarrow> lookup d k = None \<Longrightarrow> entries (insert k v d) = Suc (entries d)"
  by (simp add: entries_dom ok_insert lookup_insert domIff finite_dom)

lemma insert_old_entries:
  "ok d \<Longrightarrow> lookup d k \<noteq> None \<Longrightarrow> entries (insert k v d) = entries d"
  by (simp add: entries_dom ok_insert lookup_insert insert_absorb domIff)

end

lemma alist_length: "distinct (map fst al) \<Longrightarrow> length al = card (dom (map_of al))"
  by (metis distinct_card dom_map_of_conv_image_fst length_map set_map)

interpretation alist: dictionary map_of AList.update AList.delete length
    "\<lambda>d. distinct (map fst d)"
  by unfold_locales
    (auto simp: update_conv' delete_conv' distinct_update distinct_delete alist_length
      finite_dom_map_of)

section \<open>Transition systems\<close>

text \<open>States reachable by labelled steps, and the invariants every step keeps.\<close>

inductive reachable :: "('s \<Rightarrow> bool) \<Rightarrow> ('s \<Rightarrow> 'e \<Rightarrow> 's \<Rightarrow> bool) \<Rightarrow> 's \<Rightarrow> bool"
  for start :: "'s \<Rightarrow> bool" and step :: "'s \<Rightarrow> 'e \<Rightarrow> 's \<Rightarrow> bool" where
  reach_start: "start s \<Longrightarrow> reachable start step s"
| reach_step: "reachable start step s \<Longrightarrow> step s e t \<Longrightarrow> reachable start step t"

locale invariant_system =
  fixes start :: "'s \<Rightarrow> bool"
    and step :: "'s \<Rightarrow> 'e \<Rightarrow> 's \<Rightarrow> bool"
    and inv :: "'s \<Rightarrow> bool"
  assumes inv_start: "start s \<Longrightarrow> inv s"
    and inv_step: "inv s \<Longrightarrow> step s e t \<Longrightarrow> inv t"
begin

lemma reachable_inv: "reachable start step s \<Longrightarrow> inv s"
  by (induction rule: reachable.induct) (auto intro: inv_start inv_step)

end

section \<open>Lists\<close>

lemma takeWhile_neq_append:
  "c \<notin> set ys \<Longrightarrow> takeWhile (\<lambda>x. x \<noteq> c) (ys @ c # zs) = ys"
  by (induction ys) auto

lemma dropWhile_neq_append:
  "c \<notin> set ys \<Longrightarrow> dropWhile (\<lambda>x. x \<noteq> c) (ys @ c # zs) = c # zs"
  by (induction ys) auto

lemma strict_prefix_snoc: "strict_prefix q (p @ [x]) \<longleftrightarrow> prefix q p"
  by (metis prefix_order.less_le prefix_snoc append_eq_append_conv prefix_def self_append_conv
      append_assoc not_Cons_self2 append_is_Nil_conv)

lemma prefix_butlast: "prefix q p \<Longrightarrow> q \<noteq> p \<Longrightarrow> prefix q (butlast p)"
  by (metis append_butlast_last_id append_self_conv2 prefix_bot.bot_least prefix_snoc butlast.simps(1))

end
