(* ===== verification/GoPath.thy ===== *)
theory GoPath
  imports Prelude
begin

text \<open>
  The parts of Go's \<open>strings\<close>, \<open>path\<close> and \<open>path/filepath\<close> that the daemon uses, on Linux
  (where \<open>ToSlash\<close> and \<open>FromSlash\<close> are the identity), and the path helpers the daemon
  defines for itself: \<open>joinPath\<close>, \<open>joinRel\<close>, \<open>splitPath\<close> and \<open>validName\<close>.

  A relative path inside a mount is a string; \<open>comps\<close> is the list of its components, and
  \<open>of_comps\<close> goes back. The lemmas in \<open>str_simps\<close> let proofs work on component lists only.
\<close>

section \<open>Package strings\<close>

fun split_on :: "char \<Rightarrow> string \<Rightarrow> string list" where
  "split_on c [] = [[]]"
| "split_on c (x # xs) =
     (if x = c then [] # split_on c xs
      else (case split_on c xs of [] \<Rightarrow> [[x]] | y # ys \<Rightarrow> (x # y) # ys))"

fun join_with :: "string \<Rightarrow> string list \<Rightarrow> string" where
  "join_with sep [] = []"
| "join_with sep [x] = x"
| "join_with sep (x # y # ys) = x @ sep @ join_with sep (y # ys)"

definition trim_prefix :: "string \<Rightarrow> string \<Rightarrow> string" where
  "trim_prefix p s = (if prefix p s then drop (length p) s else s)"

definition trim_char :: "char \<Rightarrow> string \<Rightarrow> string" where
  "trim_char c s = rev (dropWhile (\<lambda>x. x = c) (rev (dropWhile (\<lambda>x. x = c) s)))"

text \<open>\<open>strings.LastIndex\<close> of a single character, with \<open>-1\<close> as \<open>None\<close>.\<close>

fun last_index :: "char \<Rightarrow> string \<Rightarrow> nat option" where
  "last_index c [] = None"
| "last_index c (x # xs) =
     (case last_index c xs of
        Some i \<Rightarrow> Some (Suc i)
      | None \<Rightarrow> if x = c then Some 0 else None)"

lemma split_on_ne [simp]: "split_on c s \<noteq> []"
  by (induction s) (auto split: list.splits)

lemma split_on_id [str_simps]: "c \<notin> set s \<Longrightarrow> split_on c s = [s]"
  by (induction s) auto

lemma split_on_append_sep [str_simps]:
  "split_on c (s @ c # t) = split_on c s @ split_on c t"
  by (induction s) (auto split: list.splits)

lemma split_on_no_sep: "x \<in> set (split_on c s) \<Longrightarrow> c \<notin> set x"
  by (induction s arbitrary: x) (auto split: list.splits if_splits)

lemma join_with_Cons: "xs \<noteq> [] \<Longrightarrow> join_with sep (x # xs) = x @ sep @ join_with sep xs"
  by (cases xs) auto

lemma join_split [simp]: "join_with [c] (split_on c s) = s"
proof (induction s)
  case Nil
  show ?case by simp
next
  case (Cons x s)
  obtain y ys where "split_on c s = y # ys"
    by (meson neq_Nil_conv split_on_ne)
  with Cons show ?case by (cases ys) (auto simp: join_with_Cons)
qed

lemma split_join:
  "xs \<noteq> [] \<Longrightarrow> \<forall>x \<in> set xs. c \<notin> set x \<Longrightarrow> split_on c (join_with [c] xs) = xs"
proof (induction "[c]" xs rule: join_with.induct)
  case (3 x y ys)
  then show ?case
    by (simp add: split_on_append_sep split_on_id)
qed (auto simp: split_on_id)

lemma last_index_None [simp]: "last_index c s = None \<longleftrightarrow> c \<notin> set s"
  by (induction s) (auto split: option.splits)

lemma last_index_notin: "c \<notin> set s \<Longrightarrow> last_index c s = None"
  by simp

lemma last_index_snoc [str_simps]:
  "c \<notin> set b \<Longrightarrow> last_index c (a @ c # b) = Some (length a)"
proof -
  assume "c \<notin> set b"
  then have "last_index c b = None" by simp
  then have "last_index c (c # b) = Some 0" by (simp add: option.case_eq_if)
  then show ?thesis by (induction a) auto
qed

lemma trim_prefix_append [simp, str_simps]: "trim_prefix p (p @ s) = s"
  by (simp add: trim_prefix_def)

lemma trim_prefix_id: "\<not> prefix p s \<Longrightarrow> trim_prefix p s = s"
  by (simp add: trim_prefix_def)

section \<open>Packages path and filepath\<close>

definition slash :: char where
  "slash = CHR ''/''"

definition sep :: string where
  "sep = ''/''"

lemma sep_slash: "sep = [slash]"
  by (simp add: sep_def slash_def)

text \<open>\<open>path.Clean\<close>, on components: empty and dot elements go, a dot-dot eats the element before it.\<close>

fun clean_comps :: "bool \<Rightarrow> string list \<Rightarrow> string list \<Rightarrow> string list" where
  "clean_comps rooted acc [] = acc"
| "clean_comps rooted acc (c # cs) =
     (if c = '''' \<or> c = ''.'' then clean_comps rooted acc cs
      else if c = ''..'' then
        (if acc \<noteq> [] \<and> last acc \<noteq> ''..'' then clean_comps rooted (butlast acc) cs
         else if rooted then clean_comps rooted acc cs
         else clean_comps rooted (acc @ [c]) cs)
      else clean_comps rooted (acc @ [c]) cs)"

definition is_abs :: "string \<Rightarrow> bool" where
  "is_abs p = prefix sep p"

definition path_clean :: "string \<Rightarrow> string" where
  "path_clean p =
     (let cs = clean_comps (is_abs p) [] (split_on slash p)
      in if is_abs p then sep @ join_with sep cs
         else if cs = [] then ''.'' else join_with sep cs)"

definition path_join :: "string list \<Rightarrow> string" where
  "path_join es =
     (let ne = filter (\<lambda>e. e \<noteq> '''') es
      in if ne = [] then '''' else path_clean (join_with sep ne))"

definition path_base :: "string \<Rightarrow> string" where
  "path_base p =
     (if p = '''' then ''.''
      else (let q = rev (dropWhile (\<lambda>x. x = slash) (rev p))
            in if q = '''' then sep
               else (case last_index slash q of None \<Rightarrow> q | Some i \<Rightarrow> drop (Suc i) q)))"

definition path_dir :: "string \<Rightarrow> string" where
  "path_dir p =
     path_clean (case last_index slash p of None \<Rightarrow> '''' | Some i \<Rightarrow> take (Suc i) p)"

section \<open>The daemon's own path helpers\<close>

text \<open>\<open>validName\<close> of fuse.go: what the daemon accepts as one component.\<close>

definition valid_name :: "string \<Rightarrow> bool" where
  "valid_name name \<longleftrightarrow>
     name \<noteq> '''' \<and> name \<noteq> ''.'' \<and> name \<noteq> ''..'' \<and> slash \<notin> set name"

definition join_path :: "string \<Rightarrow> string \<Rightarrow> string" where
  "join_path parent name = (if parent = '''' then name else parent @ sep @ name)"

definition split_path :: "string \<Rightarrow> string \<times> string" where
  "split_path p =
     (case last_index slash p of
        Some i \<Rightarrow> (take i p, drop (Suc i) p)
      | None \<Rightarrow> ('''', p))"

text \<open>\<open>joinRel\<close> of manager.go is \<open>joinPath\<close> of fuse.go once more.\<close>

definition join_rel :: "string \<Rightarrow> string \<Rightarrow> string" where
  "join_rel dir name = (if dir = '''' then name else dir @ sep @ name)"

definition whiteout_prefix :: string where
  "whiteout_prefix = ''.wh.''"

definition comps :: "string \<Rightarrow> string list" where
  "comps p = (if p = '''' then [] else split_on slash p)"

definition of_comps :: "string list \<Rightarrow> string" where
  "of_comps cs = join_with sep cs"

definition valid_path :: "string list \<Rightarrow> bool" where
  "valid_path cs \<longleftrightarrow> (\<forall>c \<in> set cs. valid_name c)"

lemma valid_path_simps [simp]:
  "valid_path []"
  "valid_path (c # cs) \<longleftrightarrow> valid_name c \<and> valid_path cs"
  "valid_path (cs @ ds) \<longleftrightarrow> valid_path cs \<and> valid_path ds"
  by (auto simp: valid_path_def)

lemma join_rel_eq: "join_rel = join_path"
  by (simp add: fun_eq_iff join_rel_def join_path_def)

lemma valid_name_whiteout: "slash \<notin> set b \<Longrightarrow> valid_name (whiteout_prefix @ b)"
  by (auto simp: valid_name_def whiteout_prefix_def slash_def)

lemma split_join_path [str_simps]:
  "slash \<notin> set name \<Longrightarrow> split_path (join_path parent name) = (parent, name)"
  by (cases "parent = ''''")
    (auto simp: split_path_def join_path_def sep_slash last_index_snoc last_index_notin)

lemma comps_join_path [str_simps]:
  "valid_name name \<Longrightarrow> comps (join_path parent name) = comps parent @ [name]"
  by (auto simp: comps_def join_path_def valid_name_def sep_slash split_on_append_sep
      split_on_id)

lemma comps_of_comps [str_simps]: "valid_path cs \<Longrightarrow> comps (of_comps cs) = cs"
proof (cases cs)
  case (Cons c ds)
  assume v: "valid_path cs"
  have "of_comps cs \<noteq> ''''"
    using v Cons by (cases ds) (auto simp: of_comps_def valid_name_def)
  moreover have "\<forall>x \<in> set cs. slash \<notin> set x"
    using v by (auto simp: valid_path_def valid_name_def)
  ultimately show ?thesis
    using Cons by (simp add: comps_def of_comps_def sep_slash split_join)
qed (simp add: of_comps_def comps_def)

lemma of_comps_comps [str_simps]: "of_comps (comps p) = p"
  by (simp add: of_comps_def comps_def sep_slash)

lemma comps_eq_iff [simp]: "comps p = comps q \<longleftrightarrow> p = q"
  by (metis of_comps_comps)

lemma join_path_of_comps:
  "valid_path cs \<Longrightarrow> valid_name n \<Longrightarrow> join_path (of_comps cs) n = of_comps (cs @ [n])"
  by (metis comps_eq_iff comps_join_path comps_of_comps valid_path_simps)

lemma join_path_inj:
  "valid_name a \<Longrightarrow> valid_name b \<Longrightarrow> join_path p a = join_path q b \<longleftrightarrow> p = q \<and> a = b"
  by (metis split_join_path Pair_inject valid_name_def)

section \<open>Cleaning well-formed paths\<close>

lemma clean_comps_valid [str_simps]:
  "valid_path cs \<Longrightarrow> clean_comps r acc cs = acc @ cs"
  by (induction cs arbitrary: acc) (auto simp: valid_name_def)

lemma clean_comps_append:
  "clean_comps r acc (cs @ ds) = clean_comps r (clean_comps r acc cs) ds"
  by (induction r acc cs rule: clean_comps.induct) auto

lemma valid_path_butlast: "valid_path cs \<Longrightarrow> valid_path (butlast cs)"
  by (auto simp: valid_path_def dest: in_set_butlastD)

lemma clean_comps_rooted_valid:
  "valid_path acc \<Longrightarrow> \<forall>c \<in> set cs. slash \<notin> set c \<Longrightarrow> valid_path (clean_comps True acc cs)"
proof (induction cs arbitrary: acc)
  case (Cons c cs)
  have "acc \<noteq> [] \<Longrightarrow> last acc \<noteq> ''..''"
    using Cons.prems(1) last_in_set [of acc] by (auto simp: valid_path_def valid_name_def)
  with Cons show ?case
    by (auto simp: valid_path_butlast valid_name_def)
qed simp

text \<open>Absolute paths in clean form are a slash followed by valid components.\<close>

definition abs_of :: "string list \<Rightarrow> string" where
  "abs_of cs = sep @ join_with sep cs"

definition path_elems :: "string \<Rightarrow> string list" where
  "path_elems p = filter (\<lambda>c. c \<noteq> '''') (split_on slash p)"

lemma is_abs_abs_of [simp]: "is_abs (abs_of cs)"
  by (simp add: is_abs_def abs_of_def)

lemma abs_of_ne [simp]: "abs_of cs \<noteq> ''''" "'''' \<noteq> abs_of cs"
  by (auto simp: abs_of_def sep_def)

lemma split_on_abs_of:
  "valid_path cs \<Longrightarrow> split_on slash (abs_of cs) = [] # (if cs = [] then [[]] else cs)"
  by (auto simp: abs_of_def sep_slash split_join valid_path_def valid_name_def)

lemma path_elems_abs_of [str_simps]: "valid_path cs \<Longrightarrow> path_elems (abs_of cs) = cs"
  by (auto simp: path_elems_def split_on_abs_of valid_path_def valid_name_def
      intro: filter_id_conv [THEN iffD2])

lemma abs_of_inj: "valid_path cs \<Longrightarrow> valid_path ds \<Longrightarrow> abs_of cs = abs_of ds \<Longrightarrow> cs = ds"
  by (metis path_elems_abs_of)

lemma path_clean_abs_of [str_simps]: "valid_path cs \<Longrightarrow> path_clean (abs_of cs) = abs_of cs"
  unfolding path_clean_def by (simp add: split_on_abs_of clean_comps_valid) (simp add: abs_of_def)

lemma path_clean_abs:
  assumes "is_abs p"
  shows "\<exists>cs. valid_path cs \<and> path_clean p = abs_of cs"
proof -
  let ?cs = "clean_comps True [] (split_on slash p)"
  have "valid_path ?cs"
    by (rule clean_comps_rooted_valid) (auto dest: split_on_no_sep)
  moreover have "path_clean p = abs_of ?cs"
    using assms by (simp add: path_clean_def abs_of_def)
  ultimately show ?thesis by blast
qed

lemma path_join_abs_of [str_simps]:
  assumes "valid_path us" and "valid_path ps"
  shows "path_join [abs_of us, of_comps ps] = abs_of (us @ ps)"
proof (cases "ps = []")
  case True
  then show ?thesis
    using assms by (simp add: path_join_def of_comps_def path_clean_abs_of abs_of_def)
      (metis abs_of_def path_clean_abs_of)
next
  case False
  then have ne: "of_comps ps \<noteq> ''''"
    using comps_of_comps [OF assms(2)] by (auto simp: comps_def)
  have split: "split_on slash (of_comps ps) = ps"
    using comps_of_comps [OF assms(2)] ne by (simp add: comps_def)
  let ?j = "abs_of us @ sep @ of_comps ps"
  have "path_join [abs_of us, of_comps ps] = path_clean ?j"
    using ne by (simp add: path_join_def abs_of_def)
  moreover have "is_abs ?j"
    by (simp add: is_abs_def abs_of_def)
  moreover have "split_on slash ?j = [] # (if us = [] then [[]] else us) @ ps"
    using assms split by (simp add: sep_slash split_on_append_sep split_on_abs_of)
  ultimately show ?thesis
    using assms
    by (auto simp: path_clean_def Let_def abs_of_def clean_comps_append clean_comps_valid)
qed

lemma join_with_append:
  "xs \<noteq> [] \<Longrightarrow> ys \<noteq> [] \<Longrightarrow> join_with s (xs @ ys) = join_with s xs @ s @ join_with s ys"
  by (induction s xs rule: join_with.induct) (auto simp: join_with_Cons)

lemma path_join_elems [str_simps]:
  assumes "valid_path us" and "valid_path ps"
  shows "path_join (abs_of us # ps) = abs_of (us @ ps)"
proof (cases "ps = []")
  case True
  then show ?thesis
    using assms by (simp add: path_join_def path_clean_abs_of)
next
  case False
  then have "of_comps ps \<noteq> ''''"
    using comps_of_comps [OF assms(2)] by (auto simp: comps_def)
  moreover have "filter (\<lambda>e. e \<noteq> '''') ps = ps"
    using assms(2) by (auto simp: valid_path_def valid_name_def filter_id_conv)
  ultimately have "path_join (abs_of us # ps) = path_join [abs_of us, of_comps ps]"
    using False by (simp add: path_join_def of_comps_def join_with_Cons)
  then show ?thesis using assms by (simp add: path_join_abs_of)
qed

lemma path_dir_abs_of [str_simps]:
  assumes "valid_path cs" and "valid_name c"
  shows "path_dir (abs_of (cs @ [c])) = abs_of cs"
proof -
  have sl: "slash \<notin> set c" using assms(2) by (simp add: valid_name_def)
  let ?d = "sep @ join_with sep cs"
  show ?thesis
  proof (cases "cs = []")
    case True
    have "abs_of (cs @ [c]) = [] @ slash # c" by (simp add: True abs_of_def sep_slash)
    then have "path_dir (abs_of (cs @ [c])) = path_clean [slash]"
      using last_index_snoc [OF sl, of "[]"] by (simp add: path_dir_def)
    also have "[slash] = abs_of []" by (simp add: abs_of_def sep_slash)
    also have "path_clean (abs_of []) = abs_of []" by (rule path_clean_abs_of) simp
    finally show ?thesis using True by simp
  next
    case False
    have "abs_of (cs @ [c]) = abs_of cs @ slash # c"
      using False by (simp add: abs_of_def join_with_append sep_slash)
    then have "path_dir (abs_of (cs @ [c])) = path_clean (abs_of cs @ [slash])"
      using last_index_snoc [OF sl, of "abs_of cs"] by (simp add: path_dir_def)
    also have "\<dots> = abs_of cs"
    proof -
      have abs: "is_abs (abs_of cs @ [slash])" by (simp add: is_abs_def abs_of_def)
      have "split_on slash (abs_of cs @ [slash]) = [] # cs @ [[]]"
        using split_on_append_sep [of slash "abs_of cs" "[]"] assms(1) False
        by (simp add: split_on_abs_of)
      then have "clean_comps True [] (split_on slash (abs_of cs @ [slash])) = cs"
        using assms(1) by (simp add: clean_comps_append clean_comps_valid)
      with abs show ?thesis by (simp add: path_clean_def abs_of_def)
    qed
    finally show ?thesis .
  qed
qed

lemma path_base_abs_of [str_simps]:
  assumes "valid_name c"
  shows "path_base (abs_of (cs @ [c])) = c"
proof -
  obtain d where d: "abs_of (cs @ [c]) = d @ slash # c"
    by (cases "cs = []") (auto simp: abs_of_def sep_slash join_with_append)
  have c: "c \<noteq> []" "slash \<notin> set c" using assms by (auto simp: valid_name_def)
  have "dropWhile (\<lambda>x. x = slash) (rev (d @ slash # c)) = rev (d @ slash # c)"
    using c by (cases "rev c") (auto simp: dropWhile_append)
  then show ?thesis
    using c d by (simp add: path_base_def Let_def last_index_snoc)
qed

end
