(* ===== verification/OsFs.thy ===== *)
theory OsFs
  imports GoPath
begin

text \<open>
  The part of the operating system the daemon stands on: a tree of directories, regular
  files, symbolic links and other nodes, with the calls of Go's \<open>os\<close> and \<open>syscall\<close> packages
  that the daemon makes, as they behave on Linux.

  The state keeps every node under its absolute list of components. \<open>resolve\<close> is the
  kernel's path walk: it follows symbolic links in the middle of a path (and at its end where
  the call does), gives up after a bounded number of links, and treats a dot-dot physically.
  Calls that only read fail exactly when the tree says so. Every call that changes the tree
  first consumes one entry of a fault script, so that a full disk or a denied permission can
  strike any of them; an empty script means no faults, and \<open>ENOENT\<close> is never injected, as it is
  the tree alone that decides what is missing. Permissions themselves are not checked,
  and the contents of nodes that are neither files, directories nor links are not kept. Modes are
  written in hexadecimal: 0x1FF is octal 0777, 0x1ED is 0755, 0xFFF is 07777.
\<close>

type_synonym path = "string list"

datatype ubody = BDir | BReg bytes | BLink string | BOther u32

record unode =
  u_ino :: nat
  u_mode :: u32
  u_uid :: u32
  u_gid :: u32
  u_atime :: int
  u_mtime :: int
  u_body :: ubody

record os =
  os_nodes :: "(path \<times> unode) list"
  os_cwd :: path
  os_umask :: u32
  os_next :: nat
  os_uid :: u32
  os_gid :: u32
  os_clock :: int
  os_faults :: "errno option list"

type_synonym 'a oscall = "os \<Rightarrow> (errno + 'a) \<times> os"

abbreviation look :: "os \<Rightarrow> path \<Rightarrow> unode option" where
  "look s \<equiv> map_of (os_nodes s)"

definition is_dir_at :: "os \<Rightarrow> path \<Rightarrow> bool" where
  "is_dir_at s q = (case look s q of Some n \<Rightarrow> u_body n = BDir | None \<Rightarrow> False)"

text \<open>
  Every tree of the operating system has a root directory, and every other node lies in a
  directory under a valid name.
\<close>

definition wf_os :: "os \<Rightarrow> bool" where
  "wf_os s \<longleftrightarrow>
     distinct (map fst (os_nodes s)) \<and> is_dir_at s [] \<and>
     (\<forall>q c. look s (q @ [c]) \<noteq> None \<longrightarrow> is_dir_at s q \<and> valid_name c)"

section \<open>The kernel's path walk\<close>

definition max_links :: nat where
  "max_links = 40"

function (sequential) resolve ::
    "nat \<Rightarrow> bool \<Rightarrow> (path \<Rightarrow> unode option) \<Rightarrow> path \<Rightarrow> string list \<Rightarrow> errno + path" where
  "resolve n follow lk acc [] = Inr acc"
| "resolve n follow lk acc (c # cs) =
     (if c = '''' \<or> c = ''.'' then resolve n follow lk acc cs
      else if c = ''..'' then resolve n follow lk (butlast acc) cs
      else (case lk (acc @ [c]) of
          None \<Rightarrow> if cs = [] then Inr (acc @ [c]) else Inl ENOENT
        | Some nd \<Rightarrow>
            (case u_body nd of
               BDir \<Rightarrow> resolve n follow lk (acc @ [c]) cs
             | BLink t \<Rightarrow>
                 if cs = [] \<and> \<not> follow then Inr (acc @ [c])
                 else if n = 0 then Inl ELOOP
                 else resolve (n - 1) follow lk (if is_abs t then [] else acc)
                        (split_on slash t @ cs)
             | _ \<Rightarrow> if cs = [] then Inr (acc @ [c]) else Inl ENOTDIR)))"
  by pat_completeness auto
termination
  by (relation "measures [\<lambda>(n, _, _, _, _). n, \<lambda>(_, _, _, _, cs). length cs]") auto

definition start_of :: "os \<Rightarrow> string \<Rightarrow> path" where
  "start_of s p = (if is_abs p then [] else os_cwd s)"

definition walk_path :: "os \<Rightarrow> bool \<Rightarrow> string \<Rightarrow> errno + path" where
  "walk_path s follow p =
     (if p = '''' then Inl ENOENT
      else resolve max_links follow (look s) (start_of s p) (split_on slash p))"

section \<open>Calls that read\<close>

definition node_at :: "os \<Rightarrow> bool \<Rightarrow> string \<Rightarrow> errno + unode" where
  "node_at s follow p =
     (case walk_path s follow p of
        Inl e \<Rightarrow> Inl e
      | Inr q \<Rightarrow> (case look s q of None \<Rightarrow> Inl ENOENT | Some n \<Rightarrow> Inr n))"

definition os_lstat :: "os \<Rightarrow> string \<Rightarrow> errno + unode" where
  "os_lstat s p = node_at s False p"

definition os_stat :: "os \<Rightarrow> string \<Rightarrow> errno + unode" where
  "os_stat s p = node_at s True p"

definition entry_names :: "os \<Rightarrow> path \<Rightarrow> string list" where
  "entry_names s q =
     sort (map last (filter (\<lambda>k. k \<noteq> [] \<and> butlast k = q) (map fst (os_nodes s))))"

definition os_readdir :: "os \<Rightarrow> string \<Rightarrow> errno + string list" where
  "os_readdir s p =
     (case walk_path s True p of
        Inl e \<Rightarrow> Inl e
      | Inr q \<Rightarrow>
          (case look s q of
             None \<Rightarrow> Inl ENOENT
           | Some n \<Rightarrow> if u_body n = BDir then Inr (entry_names s q) else Inl ENOTDIR))"

definition os_readlink :: "os \<Rightarrow> string \<Rightarrow> errno + string" where
  "os_readlink s p =
     (case node_at s False p of
        Inl e \<Rightarrow> Inl e
      | Inr n \<Rightarrow> (case u_body n of BLink t \<Rightarrow> Inr t | _ \<Rightarrow> Inl EINVAL))"

section \<open>Calls that change the tree\<close>

definition faulty :: "'a oscall \<Rightarrow> 'a oscall" where
  "faulty f s =
     (case os_faults s of
        [] \<Rightarrow> f s
      | None # fs \<Rightarrow> f (s\<lparr>os_faults := fs\<rparr>)
      | Some e # fs \<Rightarrow>
          if e = ENOENT then f (s\<lparr>os_faults := fs\<rparr>) else (Inl e, s\<lparr>os_faults := fs\<rparr>))"

text \<open>A new node gets the caller's ids, the time, and its mode without the bits of the umask.\<close>

definition add_node :: "os \<Rightarrow> path \<Rightarrow> u32 \<Rightarrow> ubody \<Rightarrow> os" where
  "add_node s q mode b =
     s\<lparr>os_nodes := AList.update q
          \<lparr>u_ino = os_next s, u_mode = mode, u_uid = os_uid s, u_gid = os_gid s,
           u_atime = os_clock s, u_mtime = os_clock s, u_body = b\<rparr> (os_nodes s),
       os_next := Suc (os_next s)\<rparr>"

definition set_node :: "os \<Rightarrow> path \<Rightarrow> unode \<Rightarrow> os" where
  "set_node s q n = s\<lparr>os_nodes := AList.update q n (os_nodes s)\<rparr>"

definition del_node :: "os \<Rightarrow> path \<Rightarrow> os" where
  "del_node s q = s\<lparr>os_nodes := AList.delete q (os_nodes s)\<rparr>"

definition masked :: "os \<Rightarrow> u32 \<Rightarrow> u32" where
  "masked s mode = mode AND NOT (os_umask s)"

text \<open>
  \<open>os.FileMode(m)\<close> keeps the set-id and sticky bits of \<open>m\<close> in places the system call does not
  look at: a call of package \<open>os\<close> passes on the nine permission bits of a numeric mode only.
\<close>

definition go_perm :: "u32 \<Rightarrow> u32" where
  "go_perm m = m AND 0x1FF"

definition sys_mkdir_at :: "path \<Rightarrow> u32 \<Rightarrow> unit oscall" where
  "sys_mkdir_at q mode s =
     (if look s q \<noteq> None then (Inl EEXIST, s)
      else (Inr (), add_node s q (masked s mode) BDir))"

definition os_mkdir :: "string \<Rightarrow> u32 \<Rightarrow> unit oscall" where
  "os_mkdir p mode =
     faulty (\<lambda>s. case walk_path s False p of
        Inl e \<Rightarrow> (Inl e, s)
      | Inr q \<Rightarrow> sys_mkdir_at q (go_perm mode) s)"

text \<open>
  \<open>os.MkdirAll\<close>: nothing to do for a directory, \<open>ENOTDIR\<close> for anything else that exists, and
  otherwise the parent first. An error of the last \<open>Mkdir\<close> is forgiven when the directory is
  there after all. The recursion goes over the components of the path as it is written.
\<close>

fun mkdir_all_rev :: "bool \<Rightarrow> string list \<Rightarrow> u32 \<Rightarrow> unit oscall" where
  "mkdir_all_rev absolute rcs mode s =
     (let p = (if absolute then abs_of (rev rcs) else of_comps (rev rcs)) in
      case os_stat s p of
        Inr n \<Rightarrow> if u_body n = BDir then (Inr (), s) else (Inl ENOTDIR, s)
      | Inl _ \<Rightarrow>
          (case rcs of
             [] \<Rightarrow> (Inl ENOENT, s)
           | c # pcs \<Rightarrow>
               (case (if pcs = [] then (Inr (), s) else mkdir_all_rev absolute pcs mode s) of
                  (Inl e, s') \<Rightarrow> (Inl e, s')
                | (Inr _, s') \<Rightarrow>
                    (case os_mkdir p mode s' of
                       (Inr _, s'') \<Rightarrow> (Inr (), s'')
                     | (Inl e, s'') \<Rightarrow>
                         (case os_lstat s'' p of
                            Inr n \<Rightarrow> if u_body n = BDir then (Inr (), s'') else (Inl e, s'')
                          | Inl _ \<Rightarrow> (Inl e, s''))))))"

declare mkdir_all_rev.simps [simp del]

definition os_mkdir_all :: "string \<Rightarrow> u32 \<Rightarrow> unit oscall" where
  "os_mkdir_all p mode s = mkdir_all_rev (is_abs p) (rev (path_elems p)) mode s"

text \<open>Open flags, with the numbers of Linux. A successful open names the file it refers to.\<close>

definition O_RDONLY :: u32 where "O_RDONLY = 0"
definition O_WRONLY :: u32 where "O_WRONLY = 1"
definition O_RDWR :: u32 where "O_RDWR = 2"
definition O_ACCMODE :: u32 where "O_ACCMODE = 3"
definition O_CREAT :: u32 where "O_CREAT = 0x40"
definition O_EXCL :: u32 where "O_EXCL = 0x80"
definition O_TRUNC :: u32 where "O_TRUNC = 0x200"
definition O_APPEND :: u32 where "O_APPEND = 0x400"

definition has_flag :: "u32 \<Rightarrow> u32 \<Rightarrow> bool" where
  "has_flag flags f \<longleftrightarrow> flags AND f \<noteq> 0"

definition sys_open_at :: "path \<Rightarrow> u32 \<Rightarrow> u32 \<Rightarrow> path oscall" where
  "sys_open_at q flags mode s =
     (case look s q of
        None \<Rightarrow>
          if has_flag flags O_CREAT then (Inr q, add_node s q (masked s mode) (BReg []))
          else (Inl ENOENT, s)
      | Some n \<Rightarrow>
          if has_flag flags O_CREAT \<and> has_flag flags O_EXCL then (Inl EEXIST, s)
          else (case u_body n of
              BDir \<Rightarrow>
                if has_flag flags O_CREAT \<or> flags AND O_ACCMODE \<noteq> O_RDONLY then (Inl EISDIR, s)
                else (Inr q, s)
            | BLink _ \<Rightarrow> (Inl ELOOP, s)
            | BReg d \<Rightarrow>
                if has_flag flags O_TRUNC then (Inr q, set_node s q (n\<lparr>u_body := BReg []\<rparr>))
                else (Inr q, s)
            | BOther _ \<Rightarrow> (Inr q, s)))"

definition sys_open :: "string \<Rightarrow> u32 \<Rightarrow> u32 \<Rightarrow> path oscall" where
  "sys_open p flags mode =
     faulty (\<lambda>s. case walk_path s (\<not> (has_flag flags O_CREAT \<and> has_flag flags O_EXCL)) p of
        Inl e \<Rightarrow> (Inl e, s)
      | Inr q \<Rightarrow> sys_open_at q flags mode s)"

definition os_open_file :: "string \<Rightarrow> u32 \<Rightarrow> u32 \<Rightarrow> path oscall" where
  "os_open_file p flags mode = sys_open p flags (go_perm mode)"

text \<open>\<open>Write\<close> on a file opened at \<open>q\<close>, at the end of what was written before.\<close>

definition os_write :: "path \<Rightarrow> bytes \<Rightarrow> nat oscall" where
  "os_write q d =
     faulty (\<lambda>s. case look s q of
        None \<Rightarrow> (Inl EBADF, s)
      | Some n \<Rightarrow>
          (case u_body n of
             BReg old \<Rightarrow> (Inr (length d), set_node s q (n\<lparr>u_body := BReg (old @ d)\<rparr>))
           | _ \<Rightarrow> (Inl EINVAL, s)))"

definition os_close :: "path \<Rightarrow> unit oscall" where
  "os_close q = faulty (\<lambda>s. (Inr (), s))"

text \<open>\<open>os.Remove\<close> unlinks a file or removes an empty directory.\<close>

definition has_entries :: "os \<Rightarrow> path \<Rightarrow> bool" where
  "has_entries s q \<longleftrightarrow> entry_names s q \<noteq> []"

definition sys_remove_at :: "path \<Rightarrow> unit oscall" where
  "sys_remove_at q s =
     (case look s q of
        None \<Rightarrow> (Inl ENOENT, s)
      | Some n \<Rightarrow>
          if q = [] then (Inl EBUSY, s)
          else if u_body n = BDir \<and> has_entries s q then (Inl ENOTEMPTY, s)
          else (Inr (), del_node s q))"

definition os_remove :: "string \<Rightarrow> unit oscall" where
  "os_remove p =
     faulty (\<lambda>s. case walk_path s False p of
        Inl e \<Rightarrow> (Inl e, s)
      | Inr q \<Rightarrow> sys_remove_at q s)"

definition os_symlink :: "string \<Rightarrow> string \<Rightarrow> unit oscall" where
  "os_symlink target p =
     faulty (\<lambda>s. case walk_path s False p of
        Inl e \<Rightarrow> (Inl e, s)
      | Inr q \<Rightarrow>
          if look s q \<noteq> None then (Inl EEXIST, s)
          else (Inr (), add_node s q 0x1FF (BLink target)))"

text \<open>
  \<open>os.Rename\<close>. Package \<open>os\<close> refuses a target that is a directory, unless source and target
  are the same node; the kernel moves the source with everything below it.
\<close>

definition move_key :: "path \<Rightarrow> path \<Rightarrow> path \<Rightarrow> path" where
  "move_key a b k = (if prefix a k then b @ drop (length a) k else k)"

definition move_nodes :: "path \<Rightarrow> path \<Rightarrow> (path \<times> unode) list \<Rightarrow> (path \<times> unode) list" where
  "move_nodes a b ns = map (\<lambda>(k, n). (move_key a b k, n)) (AList.delete b ns)"

definition sys_rename_at :: "path \<Rightarrow> path \<Rightarrow> unit oscall" where
  "sys_rename_at a b s =
     (case look s a of
        None \<Rightarrow> (Inl ENOENT, s)
      | Some n \<Rightarrow>
          if a = b then (Inr (), s)
          else if a = [] \<or> b = [] then (Inl EBUSY, s)
          else if is_dir_at s b then (Inl EEXIST, s)
          else if u_body n = BDir \<and> prefix a b then (Inl EINVAL, s)
          else if u_body n = BDir \<and> look s b \<noteq> None then (Inl ENOTDIR, s)
          else (Inr (), s\<lparr>os_nodes := move_nodes a b (os_nodes s)\<rparr>))"

definition os_rename :: "string \<Rightarrow> string \<Rightarrow> unit oscall" where
  "os_rename p r =
     faulty (\<lambda>s. case walk_path s False p of
        Inl e \<Rightarrow> (Inl e, s)
      | Inr a \<Rightarrow>
          (case walk_path s False r of
             Inl e \<Rightarrow> (Inl e, s)
           | Inr b \<Rightarrow> sys_rename_at a b s))"

text \<open>Attribute changes: \<open>update_at\<close> rewrites one node in place.\<close>

definition update_at :: "bool \<Rightarrow> string \<Rightarrow> (unode \<Rightarrow> errno + unode) \<Rightarrow> unit oscall" where
  "update_at follow p f =
     faulty (\<lambda>s. case walk_path s follow p of
        Inl e \<Rightarrow> (Inl e, s)
      | Inr q \<Rightarrow>
          (case look s q of
             None \<Rightarrow> (Inl ENOENT, s)
           | Some n \<Rightarrow>
               (case f n of
                  Inl e \<Rightarrow> (Inl e, s)
                | Inr n' \<Rightarrow> (Inr (), set_node s q n'))))"

definition sys_chmod :: "string \<Rightarrow> u32 \<Rightarrow> unit oscall" where
  "sys_chmod p mode = update_at True p (\<lambda>n. Inr (n\<lparr>u_mode := mode AND 0xFFF\<rparr>))"

definition sys_lchown :: "string \<Rightarrow> u32 option \<Rightarrow> u32 option \<Rightarrow> unit oscall" where
  "sys_lchown p uid gid =
     update_at False p (\<lambda>n. Inr (n\<lparr>u_uid := case_option (u_uid n) id uid,
                                   u_gid := case_option (u_gid n) id gid\<rparr>))"

definition sys_lutimes :: "string \<Rightarrow> int option \<Rightarrow> int option \<Rightarrow> unit oscall" where
  "sys_lutimes p atime mtime =
     update_at False p (\<lambda>n. Inr (n\<lparr>u_atime := case_option (u_atime n) id atime,
                                   u_mtime := case_option (u_mtime n) id mtime\<rparr>))"

definition resize :: "nat \<Rightarrow> bytes \<Rightarrow> bytes" where
  "resize n d = take n d @ replicate (n - length d) (CHR 0x00)"

definition sys_truncate :: "string \<Rightarrow> int \<Rightarrow> unit oscall" where
  "sys_truncate p sz =
     update_at True p (\<lambda>n.
       if sz < 0 then Inl EINVAL
       else (case u_body n of
          BReg d \<Rightarrow> Inr (n\<lparr>u_body := BReg (resize (nat sz) d)\<rparr>)
        | BDir \<Rightarrow> Inl EISDIR
        | _ \<Rightarrow> Inl EINVAL))"

section \<open>Facts about the tree\<close>

lemma wf_os_simps [simp, os_simps]:
  "wf_os (s\<lparr>os_faults := fs\<rparr>) = wf_os s"
  "wf_os (s\<lparr>os_next := n\<rparr>) = wf_os s"
  "is_dir_at (s\<lparr>os_faults := fs\<rparr>) = is_dir_at s"
  "is_dir_at (s\<lparr>os_next := n\<rparr>) = is_dir_at s"
  by (auto simp: wf_os_def is_dir_at_def fun_eq_iff)

lemma wf_root: "wf_os s \<Longrightarrow> is_dir_at s []"
  by (simp add: wf_os_def)

lemma wf_parent: "wf_os s \<Longrightarrow> look s (q @ [c]) \<noteq> None \<Longrightarrow> is_dir_at s q \<and> valid_name c"
  by (simp add: wf_os_def)

lemma is_dir_look: "is_dir_at s q \<Longrightarrow> look s q \<noteq> None"
  by (auto simp: is_dir_at_def split: option.splits)

lemma wf_butlast_dir: "wf_os s \<Longrightarrow> look s q \<noteq> None \<Longrightarrow> is_dir_at s (butlast q)"
  by (cases q rule: rev_cases) (auto dest: wf_root wf_parent)

lemma wf_prefix_dir:
  "wf_os s \<Longrightarrow> look s (q @ r) \<noteq> None \<Longrightarrow> r \<noteq> [] \<Longrightarrow> is_dir_at s q"
proof (induction r rule: rev_induct)
  case (snoc c r)
  then have "is_dir_at s (q @ r)" using wf_parent [of s "q @ r" c] by simp
  with snoc show ?case by (cases "r = []") (auto dest: is_dir_look)
qed simp

lemma wf_valid: "wf_os s \<Longrightarrow> look s q \<noteq> None \<Longrightarrow> valid_path q"
proof (induction q rule: rev_induct)
  case (snoc c q)
  then show ?case using wf_parent [of s q c] is_dir_look [of s q] by auto
qed simp

lemma wf_no_entries_below:
  "wf_os s \<Longrightarrow> \<not> is_dir_at s q \<Longrightarrow> r \<noteq> [] \<Longrightarrow> look s (q @ r) = None"
  using wf_prefix_dir by blast

lemma set_entry_names: "c \<in> set (entry_names s q) \<longleftrightarrow> look s (q @ [c]) \<noteq> None"
proof -
  have "c \<in> set (entry_names s q) \<longleftrightarrow> q @ [c] \<in> fst ` set (os_nodes s)"
    by (force simp: entry_names_def image_iff snoc_eq_iff_butlast)
  then show ?thesis by (simp add: map_of_eq_None_iff)
qed

lemma distinct_entry_names: "wf_os s \<Longrightarrow> distinct (entry_names s q)"
proof -
  assume "wf_os s"
  then have d: "distinct (map fst (os_nodes s))" by (simp add: wf_os_def)
  have "inj_on last {k. k \<noteq> [] \<and> butlast k = q}"
    by (auto simp: inj_on_def) (metis append_butlast_last_id)
  with d show ?thesis
    by (auto simp: entry_names_def distinct_map intro: inj_on_subset)
qed

lemma sorted_entry_names: "sorted (entry_names s q)"
  by (simp add: entry_names_def)

lemma has_entries_iff: "has_entries s q \<longleftrightarrow> (\<exists>c. look s (q @ [c]) \<noteq> None)"
  by (metis has_entries_def list.set_intros(1) neq_Nil_conv set_entry_names empty_iff set_empty)

section \<open>Facts about the path walk\<close>

text \<open>No symbolic link strictly above the last component.\<close>

definition is_link :: "ubody \<Rightarrow> bool" where
  "is_link b = (case b of BLink _ \<Rightarrow> True | _ \<Rightarrow> False)"

lemma is_link_iff [simp]: "is_link b \<longleftrightarrow> (\<exists>t. b = BLink t)"
  by (cases b) (auto simp: is_link_def)

definition is_link_at :: "os \<Rightarrow> path \<Rightarrow> bool" where
  "is_link_at s q = (case look s q of Some n \<Rightarrow> is_link (u_body n) | None \<Rightarrow> False)"

definition link_free :: "os \<Rightarrow> path \<Rightarrow> bool" where
  "link_free s q \<longleftrightarrow> (\<forall>p. strict_prefix p q \<longrightarrow> \<not> is_link_at s p)"

lemma dir_not_link: "is_dir_at s q \<Longrightarrow> \<not> is_link_at s q"
  by (auto simp: is_dir_at_def is_link_at_def split: option.splits)

lemma resolve_through_dirs:
  assumes "valid_path cs"
    and "\<And>q. strict_prefix q cs \<Longrightarrow> q \<noteq> [] \<Longrightarrow> is_dir_at s (acc @ q)"
    and "cs \<noteq> [] \<Longrightarrow> follow \<Longrightarrow> \<not> is_link_at s (acc @ cs)"
  shows "resolve n follow (look s) acc cs = Inr (acc @ cs)"
  using assms
proof (induction cs arbitrary: acc)
  case (Cons c cs)
  have v: "c \<noteq> ''''" "c \<noteq> ''.''" "c \<noteq> ''..''" "valid_path cs"
    using Cons.prems(1) by (auto simp: valid_name_def)
  show ?case
  proof (cases "cs = []")
    case True
    then show ?thesis
      using v Cons.prems(3)
      by (auto simp: is_link_at_def split: option.splits ubody.splits)
  next
    case False
    then have "is_dir_at s (acc @ [c])"
      using Cons.prems(2) [of "[c]"] by (auto simp: strict_prefix_def)
    moreover have "resolve n follow (look s) (acc @ [c]) cs = Inr ((acc @ [c]) @ cs)"
    proof (rule Cons.IH)
      fix q assume "strict_prefix q cs" "q \<noteq> []"
      then show "is_dir_at s ((acc @ [c]) @ q)"
        using Cons.prems(2) [of "c # q"] by simp
    qed (use v False Cons.prems(3) in auto)
    ultimately show ?thesis
      using v by (auto simp: is_dir_at_def split: option.splits)
  qed
qed simp

lemma resolve_link_free:
  assumes "valid_path cs"
    and "\<And>q. strict_prefix q cs \<Longrightarrow> q \<noteq> [] \<Longrightarrow> \<not> is_link_at s (acc @ q)"
    and "cs \<noteq> [] \<Longrightarrow> follow \<Longrightarrow> \<not> is_link_at s (acc @ cs)"
    and "resolve n follow (look s) acc cs = Inr r"
  shows "r = acc @ cs"
  using assms
proof (induction cs arbitrary: acc)
  case (Cons c cs)
  have v: "c \<noteq> ''''" "c \<noteq> ''.''" "c \<noteq> ''..''" "valid_path cs"
    using Cons.prems(1) by (auto simp: valid_name_def)
  show ?case
  proof (cases "cs = []")
    case True
    then show ?thesis
      using v Cons.prems(3,4)
      by (auto simp: is_link_at_def split: option.splits ubody.splits if_splits)
  next
    case False
    have nl: "\<not> is_link_at s (acc @ [c])"
      using Cons.prems(2) [of "[c]"] False by (auto simp: strict_prefix_def)
    have "resolve n follow (look s) (acc @ [c]) cs = Inr r"
      using v nl False Cons.prems(4)
      by (auto simp: is_link_at_def split: option.splits ubody.splits if_splits)
    then have "r = (acc @ [c]) @ cs"
    proof (rule Cons.IH [rotated 3])
      fix q assume "strict_prefix q cs" "q \<noteq> []"
      then show "\<not> is_link_at s ((acc @ [c]) @ q)"
        using Cons.prems(2) [of "c # q"] by simp
    qed (use v False Cons.prems(3) in auto)
    then show ?thesis by simp
  qed
qed simp

text \<open>Where the walk of a clean absolute path ends.\<close>

lemma walk_abs_of:
  assumes "valid_path q"
  shows "walk_path s follow (abs_of q) = resolve max_links follow (look s) [] q"
  using assms
  by (cases "q = []") (simp_all add: walk_path_def start_of_def split_on_abs_of)

lemma walk_known:
  assumes "wf_os s" and "valid_path q" and "q = [] \<or> is_dir_at s (butlast q)"
    and "follow \<Longrightarrow> \<not> is_link_at s q"
  shows "walk_path s follow (abs_of q) = Inr q"
proof -
  have "resolve max_links follow (look s) [] q = Inr ([] @ q)"
  proof (rule resolve_through_dirs)
    fix p assume p: "strict_prefix p q" "p \<noteq> []"
    then have ne: "q \<noteq> []" by auto
    then have par: "is_dir_at s (butlast q)" using assms(3) by simp
    have "prefix p (butlast q)"
      using p by (auto intro: prefix_butlast simp: strict_prefix_def)
    then obtain r where r: "butlast q = p @ r" by (auto simp: prefix_def)
    then show "is_dir_at s ([] @ p)"
      using par wf_prefix_dir [OF assms(1), of p r] is_dir_look [OF par]
      by (cases "r = []") auto
  qed (use assms in auto)
  then show ?thesis by (simp add: walk_abs_of assms(2))
qed

lemma walk_known_lstat:
  "wf_os s \<Longrightarrow> look s q \<noteq> None \<Longrightarrow> walk_path s False (abs_of q) = Inr q"
  by (rule walk_known) (auto intro: wf_valid wf_butlast_dir)

lemma walk_link_free:
  assumes "valid_path q" and "link_free s q" and "follow \<Longrightarrow> \<not> is_link_at s q"
    and "walk_path s follow (abs_of q) = Inr r"
  shows "r = q"
proof -
  have "resolve max_links follow (look s) [] q = Inr r"
    using assms(1,4) by (simp add: walk_abs_of)
  then have "r = [] @ q"
    by (rule resolve_link_free [rotated 3]) (use assms in \<open>auto simp: link_free_def\<close>)
  then show ?thesis by simp
qed

lemma lstat_iff [os_simps]:
  assumes "wf_os s" and "valid_path q" and "link_free s q"
  shows "os_lstat s (abs_of q) = Inr n \<longleftrightarrow> look s q = Some n"
proof
  assume "os_lstat s (abs_of q) = Inr n"
  then show "look s q = Some n"
    using walk_link_free [OF assms(2,3), of False]
    by (auto simp: os_lstat_def node_at_def split: sum.splits option.splits)
next
  assume "look s q = Some n"
  then show "os_lstat s (abs_of q) = Inr n"
    using walk_known_lstat [OF assms(1), of q] by (auto simp: os_lstat_def node_at_def)
qed

lemma lstat_known: "wf_os s \<Longrightarrow> look s q = Some n \<Longrightarrow> os_lstat s (abs_of q) = Inr n"
  using walk_known_lstat [of s q] by (auto simp: os_lstat_def node_at_def)

text \<open>A walk ends at a node or at a free name in a directory.\<close>

lemma resolve_end:
  assumes "wf_os s" and "is_dir_at s acc" and "\<forall>c \<in> set cs. slash \<notin> set c"
    and "resolve n follow (look s) acc cs = Inr r"
  shows "(look s r \<noteq> None \<or> (\<exists>q c. r = q @ [c] \<and> is_dir_at s q \<and> valid_name c)) \<and>
    (follow \<longrightarrow> \<not> is_link_at s r)"
  using assms(2-4)
proof (induction n follow "look s" acc cs rule: resolve.induct)
  case (1 n follow acc)
  then show ?case by (auto dest: is_dir_look dir_not_link)
next
  case (2 n follow acc c cs)
  have up: "is_dir_at s (butlast acc)"
    using assms(1) 2(5) by (auto intro: wf_butlast_dir dest: is_dir_look)
  have sl: "\<And>t. \<forall>c \<in> set (split_on slash t @ cs). slash \<notin> set c"
    using 2(6) by (auto dest: split_on_no_sep)
  have lk: "\<And>t. is_dir_at s (if is_abs t then [] else acc)"
    using 2(5) wf_root [OF assms(1)] by simp
  have bd: "\<And>nd. look s (acc @ [c]) = Some nd \<Longrightarrow> u_body nd = BDir \<Longrightarrow> is_dir_at s (acc @ [c])"
    by (simp add: is_dir_at_def)
  note IH = 2(1) [OF _ 2(5)] 2(2) [OF _ _ up] 2(3) [OF _ _ _ _ bd] 2(4) [OF _ _ _ _ _ _ lk sl]
  consider (dot) "c = '''' \<or> c = ''.''" | (dotdot) "c = ''..''" | (name) "valid_name c"
    using 2(6) by (auto simp: valid_name_def)
  then show ?case
  proof cases
    case dot
    then show ?thesis using 2(7) IH(1) 2(6) by auto
  next
    case dotdot
    then show ?thesis using 2(7) IH(2) 2(6) by auto
  next
    case name
    then have ne: "\<not> (c = '''' \<or> c = ''.'')" "c \<noteq> ''..''"
      by (auto simp: valid_name_def)
    show ?thesis
    proof (cases "look s (acc @ [c])")
      case None
      then show ?thesis using 2(7) ne name 2(5) by (auto simp: is_link_at_def split: if_splits)
    next
      case (Some nd)
      show ?thesis
      proof (cases "u_body nd")
        case BDir
        then show ?thesis using 2(7) ne Some IH(3) 2(6) by simp
      next
        case (BLink t)
        then show ?thesis using 2(7) ne Some IH(4) [of nd t] by (auto split: if_splits)
      qed (use 2(7) ne Some in \<open>auto simp: is_link_at_def split: if_splits\<close>)
    qed
  qed
qed

lemma walk_end:
  assumes "wf_os s" and "is_dir_at s (start_of s p)" and "walk_path s follow p = Inr r"
  shows "look s r \<noteq> None \<or> (r \<noteq> [] \<and> is_dir_at s (butlast r) \<and> valid_name (last r))"
    and "follow \<Longrightarrow> \<not> is_link_at s r"
proof -
  have "\<forall>c \<in> set (split_on slash p). slash \<notin> set c"
    by (auto dest: split_on_no_sep)
  moreover have "resolve max_links follow (look s) (start_of s p) (split_on slash p) = Inr r"
    using assms(3) by (simp add: walk_path_def split: if_splits)
  ultimately have "(look s r \<noteq> None \<or> (\<exists>q c. r = q @ [c] \<and> is_dir_at s q \<and> valid_name c)) \<and>
      (follow \<longrightarrow> \<not> is_link_at s r)"
    using assms(1,2) by (intro resolve_end)
  then show "look s r \<noteq> None \<or> (r \<noteq> [] \<and> is_dir_at s (butlast r) \<and> valid_name (last r))"
    and "follow \<Longrightarrow> \<not> is_link_at s r"
    by auto
qed

section \<open>Effects of the calls\<close>

lemma look_add_node [os_simps]:
  "look (add_node s q m b) =
     (look s)(q \<mapsto> \<lparr>u_ino = os_next s, u_mode = m, u_uid = os_uid s, u_gid = os_gid s,
        u_atime = os_clock s, u_mtime = os_clock s, u_body = b\<rparr>)"
  by (simp add: add_node_def update_conv')

lemma look_set_node [os_simps]: "look (set_node s q n) = (look s)(q \<mapsto> n)"
  by (simp add: set_node_def update_conv')

lemma look_del_node [os_simps]: "look (del_node s q) = (look s)(q := None)"
  by (simp add: del_node_def delete_conv')

lemma os_frame [simp]:
  "os_faults (add_node s q m b) = os_faults s"
  "os_faults (set_node s q n) = os_faults s"
  "os_faults (del_node s q) = os_faults s"
  "os_umask (add_node s q m b) = os_umask s"
  "os_umask (set_node s q n) = os_umask s"
  "os_umask (del_node s q) = os_umask s"
  by (simp_all add: add_node_def set_node_def del_node_def)

lemma distinct_nodes:
  "distinct (map fst (os_nodes s)) \<Longrightarrow> distinct (map fst (os_nodes (add_node s q m b)))"
  "distinct (map fst (os_nodes s)) \<Longrightarrow> distinct (map fst (os_nodes (set_node s q n)))"
  "distinct (map fst (os_nodes s)) \<Longrightarrow> distinct (map fst (os_nodes (del_node s q)))"
  by (simp_all add: add_node_def set_node_def del_node_def alist.ok_insert alist.ok_remove)

lemma wf_osI:
  assumes "distinct (map fst (os_nodes s))" and "is_dir_at s []"
    and "\<And>q c. look s (q @ [c]) \<noteq> None \<Longrightarrow> is_dir_at s q \<and> valid_name c"
  shows "wf_os s"
  using assms by (simp add: wf_os_def)

lemma wf_distinct: "wf_os s \<Longrightarrow> distinct (map fst (os_nodes s))"
  by (simp add: wf_os_def)

lemma wf_add_node:
  assumes "wf_os s" and "look s q = None" and "is_dir_at s (butlast q)" and "valid_name (last q)"
  shows "wf_os (add_node s q m b)"
proof (rule wf_osI)
  have ne: "q \<noteq> []"
    using assms(1,2) by (auto dest: wf_root is_dir_look)
  have keep: "is_dir_at s p \<Longrightarrow> is_dir_at (add_node s q m b) p" for p
    using assms(2) by (auto simp: is_dir_at_def look_add_node split: option.splits)
  show "is_dir_at (add_node s q m b) []"
    using assms(1) by (intro keep wf_root)
  fix p c
  assume "look (add_node s q m b) (p @ [c]) \<noteq> None"
  then have "p @ [c] = q \<or> look s (p @ [c]) \<noteq> None"
    by (auto simp: look_add_node split: if_splits)
  then show "is_dir_at (add_node s q m b) p \<and> valid_name c"
    using assms ne wf_parent [OF assms(1), of p c] keep by auto
qed (use assms wf_distinct in \<open>auto intro: distinct_nodes\<close>)

lemma wf_set_node:
  assumes "wf_os s" and "look s q = Some n" and "u_body n' = BDir \<longleftrightarrow> u_body n = BDir"
  shows "wf_os (set_node s q n')"
proof (rule wf_osI)
  have same: "is_dir_at (set_node s q n') p = is_dir_at s p" for p
    using assms(2,3) by (simp add: is_dir_at_def look_set_node)
  then show "is_dir_at (set_node s q n') []"
    using assms(1) by (simp add: wf_root)
  fix p c
  assume "look (set_node s q n') (p @ [c]) \<noteq> None"
  then have "look s (p @ [c]) \<noteq> None"
    using assms(2) by (auto simp: look_set_node split: if_splits)
  then show "is_dir_at (set_node s q n') p \<and> valid_name c"
    using wf_parent [OF assms(1)] same by simp
qed (use assms wf_distinct in \<open>auto intro: distinct_nodes\<close>)

lemma wf_del_node:
  assumes "wf_os s" and "q \<noteq> []" and "\<not> has_entries s q"
  shows "wf_os (del_node s q)"
proof (rule wf_osI)
  show "is_dir_at (del_node s q) []"
    using assms wf_root [OF assms(1)] by (auto simp: is_dir_at_def look_del_node)
  fix p c
  assume "look (del_node s q) (p @ [c]) \<noteq> None"
  then have l: "look s (p @ [c]) \<noteq> None"
    by (auto simp: look_del_node split: if_splits)
  then have "p \<noteq> q"
    using assms(3) by (auto simp: has_entries_iff)
  then show "is_dir_at (del_node s q) p \<and> valid_name c"
    using wf_parent [OF assms(1) l] by (auto simp: is_dir_at_def look_del_node)
qed (use assms wf_distinct in \<open>auto intro: distinct_nodes\<close>)

text \<open>The move of a rename, as a map.\<close>

lemma map_of_map_key:
  "inj_on f (fst ` set al) \<Longrightarrow> k \<in> fst ` set al \<Longrightarrow>
     map_of (map (\<lambda>(k, v). (f k, v)) al) (f k) = map_of al k"
proof (induction al)
  case (Cons kv al)
  then show ?case by (cases kv) (auto simp: inj_on_def)
qed simp

lemma map_of_map_key_None:
  "j \<notin> f ` fst ` set al \<Longrightarrow> map_of (map (\<lambda>(k, v). (f k, v)) al) j = None"
  by (induction al) auto

lemma in_keys_delete:
  "k \<in> fst ` set (AList.delete b al) \<longleftrightarrow> map_of al k \<noteq> None \<and> k \<noteq> b"
proof -
  have "k \<in> fst ` set (AList.delete b al) \<longleftrightarrow> map_of (AList.delete b al) k \<noteq> None"
    by (simp add: map_of_eq_None_iff)
  then show ?thesis by (simp add: delete_conv')
qed

text \<open>Nothing lies below a target that is no directory.\<close>

lemma move_target_free:
  "wf_os s \<Longrightarrow> \<not> is_dir_at s b \<Longrightarrow> look s k \<noteq> None \<Longrightarrow> k \<noteq> b \<Longrightarrow> \<not> prefix b k"
  by (metis append_Nil2 prefixE wf_no_entries_below)

lemma inj_move:
  assumes "wf_os s" and "\<not> is_dir_at s b"
  shows "inj_on (move_key a b) (fst ` set (AList.delete b (os_nodes s)))"
proof (rule inj_onI)
  fix x y
  assume x: "x \<in> fst ` set (AList.delete b (os_nodes s))"
    and y: "y \<in> fst ` set (AList.delete b (os_nodes s))"
    and eq: "move_key a b x = move_key a b y"
  have "\<not> prefix b x" "\<not> prefix b y"
    using x y move_target_free [OF assms] by (auto simp: in_keys_delete)
  with eq show "x = y"
    by (auto simp: move_key_def prefix_def split: if_splits)
qed

lemma look_move:
  assumes wf: "wf_os s" and no_dir: "\<not> is_dir_at s b" and apart: "\<not> prefix a b"
  shows "map_of (move_nodes a b (os_nodes s)) k =
     (if prefix b k then look s (a @ drop (length b) k)
      else if prefix a k then None else look s k)"
proof -
  let ?al = "AList.delete b (os_nodes s)"
  let ?K = "fst ` set ?al"
  have val: "map_of (move_nodes a b (os_nodes s)) (move_key a b i) = look s i"
    if "look s i \<noteq> None" "i \<noteq> b" for i
    using that map_of_map_key [OF inj_move [OF wf no_dir, of a], of i]
    by (simp add: in_keys_delete move_nodes_def delete_conv')
  have none: "map_of (move_nodes a b (os_nodes s)) j = None"
    if "\<And>i. look s i \<noteq> None \<Longrightarrow> i \<noteq> b \<Longrightarrow> move_key a b i \<noteq> j" for j
    unfolding move_nodes_def
    by (rule map_of_map_key_None) (use that in_keys_delete [of _ b "os_nodes s"] in blast)
  show ?thesis
  proof (cases "prefix b k")
    case True
    then obtain r where r: "k = b @ r" by (auto simp: prefix_def)
    show ?thesis
    proof (cases "look s (a @ r)")
      case None
      have "map_of (move_nodes a b (os_nodes s)) k = None"
        by (rule none)
          (use None r move_target_free [OF wf no_dir]
            in \<open>auto simp: move_key_def prefix_def split: if_splits\<close>)
      then show ?thesis using None r True by simp
    next
      case (Some m)
      then show ?thesis
        using val [of "a @ r"] r True apart by (cases "a @ r = b") (auto simp: move_key_def)
    qed
  next
    case False
    show ?thesis
    proof (cases "look s k \<noteq> None \<and> \<not> prefix a k")
      case True
      then show ?thesis
        using val [of k] False by (auto simp: move_key_def)
    next
      case nak: False
      have "map_of (move_nodes a b (os_nodes s)) k = None"
        by (rule none) (use nak False in \<open>auto simp: move_key_def split: if_splits\<close>)
      then show ?thesis using nak False by auto
    qed
  qed
qed

lemma distinct_move:
  assumes "wf_os s" and "\<not> is_dir_at s b"
  shows "distinct (map fst (move_nodes a b (os_nodes s)))"
proof -
  have "map fst (move_nodes a b (os_nodes s)) =
      map (move_key a b) (map fst (AList.delete b (os_nodes s)))"
    by (simp add: move_nodes_def split_def)
  moreover have "distinct (map fst (AList.delete b (os_nodes s)))"
    using wf_distinct [OF assms(1)] by (rule alist.ok_remove)
  ultimately show ?thesis
    using inj_move [OF assms, of a] distinct_map [of "move_key a b"] by (simp only: set_map)
qed

lemma wf_move:
  assumes wf: "wf_os s" and src: "look s a = Some n" and no_dir: "\<not> is_dir_at s b"
    and apart: "\<not> prefix a b" and "a \<noteq> []"
    and parent: "is_dir_at s (butlast b)" "valid_name (last b)" "b \<noteq> []"
  shows "wf_os (s\<lparr>os_nodes := move_nodes a b (os_nodes s)\<rparr>)" (is "wf_os ?t")
proof (rule wf_osI)
  note lt = look_move [OF wf no_dir apart]
  have keep: "is_dir_at ?t k" if k: "is_dir_at s k" "\<not> prefix a k" for k
  proof -
    have "\<not> prefix b k"
      using move_target_free [OF wf no_dir, of k] is_dir_look [OF k(1)] no_dir k(1) by blast
    then show ?thesis using k by (simp add: is_dir_at_def lt)
  qed
  show "is_dir_at ?t []"
    using wf_root [OF wf] \<open>a \<noteq> []\<close> by (intro keep) auto
  fix p c
  assume l: "look ?t (p @ [c]) \<noteq> None"
  show "is_dir_at ?t p \<and> valid_name c"
  proof (cases "prefix b (p @ [c])")
    case False
    then have "look s (p @ [c]) \<noteq> None" "\<not> prefix a (p @ [c])"
      using l by (auto simp: lt split: if_splits)
    moreover from this(2) have "\<not> prefix a p" by auto
    ultimately show ?thesis
      using wf_parent [OF wf, of p c] keep [of p] by blast
  next
    case True
    show ?thesis
    proof (cases "p @ [c] = b")
      case True
      then have "p = butlast b" "c = last b" by auto
      then show ?thesis
        using parent apart keep [of p]
        by (metis append_butlast_last_id prefix_def append_assoc prefix_order.trans prefixI)
    next
      case False
      with \<open>prefix b (p @ [c])\<close> have "prefix b p" by auto
      then obtain r where r: "p = b @ r" by (auto simp: prefix_def)
      then have "look s ((a @ r) @ [c]) \<noteq> None" using l by (simp add: lt)
      from wf_parent [OF wf this] show ?thesis
        using r by (auto simp: is_dir_at_def lt)
    qed
  qed
qed (simp add: distinct_move [OF wf no_dir])

section \<open>Every call keeps the tree well formed\<close>

definition keeps_wf :: "'a oscall \<Rightarrow> bool" where
  "keeps_wf f \<longleftrightarrow> (\<forall>s. wf_os s \<longrightarrow> wf_os (snd (f s)))"

named_theorems wf_intros \<open>calls that keep the tree well formed\<close>

lemma keeps_wfD: "keeps_wf f \<Longrightarrow> wf_os s \<Longrightarrow> f s = (r, t) \<Longrightarrow> wf_os t"
  unfolding keeps_wf_def by (metis snd_conv)

lemma keeps_wf_faulty [wf_intros]: "keeps_wf f \<Longrightarrow> keeps_wf (faulty f)"
  by (auto simp: keeps_wf_def faulty_def split: list.splits option.splits if_splits)

lemma faulty_quiet [simp]: "os_faults s = [] \<Longrightarrow> faulty f s = f s"
  by (simp add: faulty_def)

text \<open>A call on an absolute path acts at the end of the walk, where a new node may go.\<close>

lemma keeps_wf_walk:
  assumes "is_abs p"
    and "\<And>s q. wf_os s \<Longrightarrow>
      look s q \<noteq> None \<or> q \<noteq> [] \<and> is_dir_at s (butlast q) \<and> valid_name (last q) \<Longrightarrow>
      wf_os (snd (g s q))"
  shows "keeps_wf (\<lambda>s. case walk_path s fl p of Inl e \<Rightarrow> (Inl e, s) | Inr q \<Rightarrow> g s q)"
  unfolding keeps_wf_def
proof (intro allI impI)
  fix s :: os
  assume wf: "wf_os s"
  have "is_dir_at s (start_of s p)"
    using assms(1) wf by (simp add: start_of_def wf_root)
  then show "wf_os (snd (case walk_path s fl p of Inl e \<Rightarrow> (Inl e, s) | Inr q \<Rightarrow> g s q))"
    using wf assms(2) [OF wf] walk_end [OF wf] by (auto split: sum.splits)
qed

lemma keeps_wf_mkdir [wf_intros]: "is_abs p \<Longrightarrow> keeps_wf (os_mkdir p m)"
  unfolding os_mkdir_def
  by (intro keeps_wf_faulty keeps_wf_walk) (auto simp: sys_mkdir_at_def intro: wf_add_node)

lemma keeps_wf_open [wf_intros]: "is_abs p \<Longrightarrow> keeps_wf (sys_open p fl m)"
  unfolding sys_open_def
  by (intro keeps_wf_faulty keeps_wf_walk)
    (auto simp: sys_open_at_def intro: wf_add_node wf_set_node
      split: option.splits ubody.splits)

lemma keeps_wf_open_file [wf_intros]: "is_abs p \<Longrightarrow> keeps_wf (os_open_file p fl m)"
  by (simp add: os_open_file_def [abs_def] keeps_wf_open)

lemma keeps_wf_write [wf_intros]: "keeps_wf (os_write q d)"
  unfolding os_write_def
  by (rule keeps_wf_faulty)
    (auto simp: keeps_wf_def intro: wf_set_node split: option.splits ubody.splits)

lemma keeps_wf_close [wf_intros]: "keeps_wf (os_close q)"
  unfolding os_close_def by (rule keeps_wf_faulty) (simp add: keeps_wf_def)

lemma wf_remove_at:
  "wf_os s \<Longrightarrow> wf_os (snd (sys_remove_at q s))"
  using wf_no_entries_below [of s q "[_]"]
  by (auto simp: sys_remove_at_def is_dir_at_def has_entries_iff intro!: wf_del_node
      split: option.splits)

lemma keeps_wf_remove [wf_intros]: "is_abs p \<Longrightarrow> keeps_wf (os_remove p)"
  unfolding os_remove_def by (intro keeps_wf_faulty keeps_wf_walk wf_remove_at)

lemma keeps_wf_symlink [wf_intros]: "is_abs p \<Longrightarrow> keeps_wf (os_symlink t p)"
  unfolding os_symlink_def
  by (intro keeps_wf_faulty keeps_wf_walk) (auto intro: wf_add_node)

lemma wf_rename_at:
  assumes "wf_os s"
    and b: "look s b \<noteq> None \<or> b \<noteq> [] \<and> is_dir_at s (butlast b) \<and> valid_name (last b)"
  shows "wf_os (snd (sys_rename_at a b s))"
proof -
  have parent: "b \<noteq> [] \<Longrightarrow> is_dir_at s (butlast b) \<and> valid_name (last b)"
    using b wf_parent [OF assms(1), of "butlast b" "last b"] by auto
  have "\<not> prefix a b" if "look s a = Some n" "u_body n \<noteq> BDir" "a \<noteq> b" "b \<noteq> []" for n
  proof
    assume "prefix a b"
    from this \<open>a \<noteq> b\<close> have "prefix a (butlast b)" by (rule prefix_butlast)
    then obtain r where "butlast b = a @ r" by (auto simp: prefix_def)
    then have "is_dir_at s a"
      using parent [OF \<open>b \<noteq> []\<close>] wf_prefix_dir [OF assms(1), of a r]
      by (cases "r = []") (auto dest: is_dir_look)
    with that show False by (simp add: is_dir_at_def)
  qed
  then show ?thesis
    using assms(1) parent
    by (auto simp: sys_rename_at_def split: option.splits intro!: wf_move)
qed

lemma keeps_wf_rename [wf_intros]: "is_abs p \<Longrightarrow> is_abs r \<Longrightarrow> keeps_wf (os_rename p r)"
proof -
  assume "is_abs p" "is_abs r"
  then have "keeps_wf (\<lambda>s. case walk_path s False p of Inl e \<Rightarrow> (Inl e, s)
      | Inr a \<Rightarrow> (case walk_path s False r of Inl e \<Rightarrow> (Inl e, s)
        | Inr b \<Rightarrow> sys_rename_at a b s))"
    using walk_end [of _ r False]
    by (auto simp: keeps_wf_def start_of_def wf_root wf_rename_at split: sum.splits)
  then show ?thesis unfolding os_rename_def by (rule keeps_wf_faulty)
qed

lemma keeps_wf_update [wf_intros]:
  assumes "is_abs p" and "\<And>n n'. f n = Inr n' \<Longrightarrow> u_body n' = BDir \<longleftrightarrow> u_body n = BDir"
  shows "keeps_wf (update_at fl p f)"
  unfolding update_at_def
  by (intro keeps_wf_faulty keeps_wf_walk assms(1))
    (auto intro: wf_set_node simp: assms(2) split: option.splits sum.splits)

lemma keeps_wf_attrs [wf_intros]:
  "is_abs p \<Longrightarrow> keeps_wf (sys_chmod p m)"
  "is_abs p \<Longrightarrow> keeps_wf (sys_lchown p u g)"
  "is_abs p \<Longrightarrow> keeps_wf (sys_lutimes p at mt)"
  "is_abs p \<Longrightarrow> keeps_wf (sys_truncate p sz)"
  unfolding sys_chmod_def sys_lchown_def sys_lutimes_def sys_truncate_def
  by (auto intro!: keeps_wf_update split: if_splits ubody.splits)

text \<open>What every single \<open>mkdir\<close> keeps, \<open>os.MkdirAll\<close> keeps.\<close>

lemma mkdir_all_rev_closed:
  assumes same: "\<And>s. R s s" and chain: "\<And>s t u. R s t \<Longrightarrow> R t u \<Longrightarrow> R s u"
    and step: "\<And>q s r t. os_mkdir (if ab then abs_of q else of_comps q) m s = (r, t) \<Longrightarrow> R s t"
  shows "R s (snd (mkdir_all_rev ab rcs m s))"
proof (induction rcs arbitrary: s)
  case Nil
  show ?case by (subst mkdir_all_rev.simps) (auto simp: Let_def same split: sum.splits)
next
  case (Cons c rcs)
  let ?p = "if ab then abs_of (rev (c # rcs)) else of_comps (rev (c # rcs))"
  obtain r t where rt: "(if rcs = [] then (Inr (), s) else mkdir_all_rev ab rcs m s) = (r, t)" by force
  then have t: "R s t" using Cons [of s] same [of s] by (auto split: if_splits)
  obtain r' t' where mk: "os_mkdir ?p m t = (r', t')" by force
  have "R s t'" using chain [OF t] step mk by blast
  then show ?case using t rt mk same by (subst mkdir_all_rev.simps) (auto simp: Let_def split: sum.splits)
qed

lemma keeps_wf_mkdir_all_rev: "keeps_wf (mkdir_all_rev True rcs m)"
proof -
  have "wf_os s \<longrightarrow> wf_os (snd (mkdir_all_rev True rcs m s))" for s
    by (rule mkdir_all_rev_closed [where R = "\<lambda>s t. wf_os s \<longrightarrow> wf_os t"])
      (simp_all, metis keeps_wfD keeps_wf_mkdir is_abs_abs_of)
  then show ?thesis by (simp add: keeps_wf_def)
qed

lemma keeps_wf_mkdir_all [wf_intros]: "is_abs p \<Longrightarrow> keeps_wf (os_mkdir_all p m)"
  using keeps_wf_mkdir_all_rev by (simp add: os_mkdir_all_def keeps_wf_def)

section \<open>Concrete trees\<close>

definition plain_dir :: unode where
  "plain_dir = \<lparr>u_ino = 1, u_mode = 0x1ED, u_uid = 0, u_gid = 0, u_atime = 0, u_mtime = 0,
     u_body = BDir\<rparr>"

lemma wf_osI_list:
  assumes "distinct (map fst (os_nodes s))" and "is_dir_at s []"
    and "\<forall>q \<in> set (map fst (os_nodes s)). q \<noteq> [] \<longrightarrow> is_dir_at s (butlast q) \<and> valid_name (last q)"
  shows "wf_os s"
proof (rule wf_osI)
  fix q c assume "look s (q @ [c]) \<noteq> None"
  then have "q @ [c] \<in> set (map fst (os_nodes s))" by (auto simp: map_of_eq_None_iff)
  with assms(3) show "is_dir_at s q \<and> valid_name c" by fastforce
qed (use assms in auto)

end
