(* ===== verification/PathGuard.thy ===== *)
theory PathGuard
  imports OsFs
begin

text \<open>
  The sandbox of the daemon (pathguard.go): client-supplied paths are made absolute and free of
  symbolic links, and refused when they leave the configured root. \<open>canonicalizePath\<close> walks up
  from the cleaned path to the nearest ancestor that exists; its loop runs over the components
  of that path, and \<open>dir_loop_step\<close> says that this is what \<open>filepath.Dir\<close> and
  \<open>filepath.Base\<close> compute.
\<close>

section \<open>Canonical paths\<close>

text \<open>\<open>filepath.EvalSymlinks\<close> on an absolute path gives up after 255 links.\<close>

definition eval_symlinks :: "os \<Rightarrow> string \<Rightarrow> gerror + string" where
  "eval_symlinks s p =
     (case resolve 255 True (look s) (start_of s p) (split_on slash p) of
        Inl e \<Rightarrow> if e = ELOOP then Inl (Msg ''EvalSymlinks: too many links'') else Inl (Errno e)
      | Inr q \<Rightarrow> if look s q = None then Inl (Errno ENOENT) else Inr (abs_of q))"

definition is_not_exist :: "gerror \<Rightarrow> bool" where
  "is_not_exist e \<longleftrightarrow> e = Errno ENOENT"

definition go_abs :: "os \<Rightarrow> string \<Rightarrow> string" where
  "go_abs s p = (if is_abs p then path_clean p else path_join [abs_of (os_cwd s), p])"

fun canon_loop :: "os \<Rightarrow> string \<Rightarrow> string list \<Rightarrow> string list \<Rightarrow> gerror + string" where
  "canon_loop s absolute rdir suf =
     (case eval_symlinks s (abs_of (rev rdir)) of
        Inr resolved \<Rightarrow> Inr (path_join (resolved # suf))
      | Inl e \<Rightarrow>
          if \<not> is_not_exist e then Inl e
          else (case rdir of
              [] \<Rightarrow> Inr absolute
            | base # rparent \<Rightarrow> canon_loop s absolute rparent (base # suf)))"

declare canon_loop.simps [simp del]

definition canonicalize_path :: "os \<Rightarrow> string \<Rightarrow> gerror + string" where
  "canonicalize_path s p =
     (let absolute = path_clean (go_abs s p)
      in canon_loop s absolute (rev (path_elems absolute)) [])"

section \<open>The guard\<close>

record path_guard =
  guard_root :: string

definition new_path_guard :: "os \<Rightarrow> string \<Rightarrow> gerror + path_guard" where
  "new_path_guard s root =
     (if root = '''' then Inr \<lparr>guard_root = ''''\<rparr>
      else (case canonicalize_path s root of
          Inl e \<Rightarrow> Inl (Wrap ''root: '' e)
        | Inr canon \<Rightarrow> Inr \<lparr>guard_root = canon\<rparr>))"

definition check :: "path_guard \<Rightarrow> os \<Rightarrow> string \<Rightarrow> gerror + string" where
  "check g s p =
     (if p = '''' then Inr p
      else (case canonicalize_path s p of
          Inl e \<Rightarrow> Inl e
        | Inr canon \<Rightarrow>
            if guard_root g = '''' then Inr canon
            else if canon \<noteq> guard_root g \<and> \<not> prefix (guard_root g @ sep) canon
              then Inl PathEscape
              else Inr canon))"

lemma dir_loop_step:
  "valid_path cs \<Longrightarrow> valid_name c \<Longrightarrow>
     path_dir (abs_of (rev (c # rev cs))) = abs_of (rev (rev cs)) \<and>
     path_base (abs_of (rev (c # rev cs))) = c \<and> path_dir (abs_of []) = abs_of []"
  by (simp add: str_simps) (simp add: abs_of_def path_dir_def path_clean_def sep_slash is_abs_def)

section \<open>What a canonical path is\<close>

definition wf_cwd :: "os \<Rightarrow> bool" where
  "wf_cwd s \<longleftrightarrow> valid_path (os_cwd s)"

lemma go_abs_clean:
  assumes "wf_cwd s"
  shows "\<exists>cs. valid_path cs \<and> path_clean (go_abs s p) = abs_of cs"
proof -
  have "is_abs (go_abs s p)"
  proof (cases "is_abs p")
    case True
    then show ?thesis using path_clean_abs [OF True] by (auto simp: go_abs_def)
  next
    case False
    then have "go_abs s p = path_clean (join_with sep (abs_of (os_cwd s) # (if p = '''' then [] else [p])))"
      by (simp add: go_abs_def path_join_def)
    moreover have "is_abs (join_with sep (abs_of (os_cwd s) # (if p = '''' then [] else [p])))"
      by (simp add: is_abs_def abs_of_def)
    ultimately show ?thesis using path_clean_abs by fastforce
  qed
  then show ?thesis by (rule path_clean_abs)
qed

text \<open>A location the walk of \<open>filepath.EvalSymlinks\<close> does not find.\<close>

definition missing_at :: "os \<Rightarrow> path \<Rightarrow> bool" where
  "missing_at s q =
     (case resolve 255 True (look s) [] q of
        Inl e \<Rightarrow> e = ENOENT
      | Inr r \<Rightarrow> look s r = None)"

lemma missing_at_iff:
  "missing_at s q \<longleftrightarrow>
     resolve 255 True (look s) [] q = Inl ENOENT \<or>
     (\<exists>r. resolve 255 True (look s) [] q = Inr r \<and> look s r = None)"
  by (auto simp: missing_at_def split: sum.splits)

lemma eval_symlinks_Inr:
  "valid_path q \<Longrightarrow> eval_symlinks s (abs_of q) = Inr x \<longleftrightarrow>
     (\<exists>r. resolve 255 True (look s) [] q = Inr r \<and> look s r \<noteq> None \<and> x = abs_of r)"
  by (auto simp: eval_symlinks_def start_of_def split_on_abs_of split: sum.splits if_splits)

lemma eval_symlinks_missing:
  "valid_path q \<Longrightarrow> eval_symlinks s (abs_of q) = Inl e \<Longrightarrow> is_not_exist e \<Longrightarrow> missing_at s q"
  by (auto simp: eval_symlinks_def start_of_def split_on_abs_of is_not_exist_def missing_at_iff
      split: sum.splits if_splits)

lemma canon_loop_result:
  assumes "canon_loop s absolute rdir suf0 = Inr c" and "wf_os s"
    and "valid_path (rev rdir)" and "valid_path suf0"
  shows "\<exists>dir suf r. rev rdir @ suf0 = dir @ suf \<and>
      resolve 255 True (look s) [] dir = Inr r \<and> look s r \<noteq> None \<and>
      c = abs_of (r @ suf) \<and> valid_path suf \<and>
      (suf \<noteq> suf0 \<longrightarrow> missing_at s (dir @ [hd suf]))"
  using assms
proof (induction s absolute rdir suf0 rule: canon_loop.induct)
  case (1 s absolute rdir suf0)
  show ?case
  proof (cases "eval_symlinks s (abs_of (rev rdir))")
    case (Inr x)
    then obtain r where r: "resolve 255 True (look s) [] (rev rdir) = Inr r"
        "look s r \<noteq> None" "x = abs_of r"
      using 1(4) by (auto simp: eval_symlinks_Inr)
    have "valid_path r" using r 1(3) by (auto intro: wf_valid)
    then have "c = abs_of (r @ suf0)"
      using 1(2,5) Inr r by (simp add: canon_loop.simps [of s absolute rdir] path_join_elems)
    with r 1(5) show ?thesis by blast
  next
    case (Inl e)
    then have ne: "is_not_exist e"
      using 1(2) by (simp add: canon_loop.simps [of s absolute rdir] split: if_splits)
    have miss: "missing_at s (rev rdir)"
      using eval_symlinks_missing [OF 1(4) Inl ne] .
    show ?thesis
    proof (cases rdir)
      case Nil
      have "resolve 255 True (look s) [] [] = Inr []" by simp
      then show ?thesis
        using miss Nil is_dir_look [OF wf_root [OF 1(3)]] by (auto simp: missing_at_iff)
    next
      case (Cons base rparent)
      have v: "valid_path (rev rparent)" "valid_path (base # suf0)"
        using 1(4,5) Cons by auto
      have "canon_loop s absolute rparent (base # suf0) = Inr c"
        using 1(2) Inl ne Cons by (simp add: canon_loop.simps [of s absolute "base # rparent"])
      from 1(1) [OF Inl _ Cons this 1(3) v] ne
      obtain dir suf r where IH: "rev rparent @ base # suf0 = dir @ suf"
          "resolve 255 True (look s) [] dir = Inr r" "look s r \<noteq> None"
          "c = abs_of (r @ suf)" "valid_path suf"
          "suf \<noteq> base # suf0 \<longrightarrow> missing_at s (dir @ [hd suf])"
        by blast
      moreover have "missing_at s (dir @ [hd suf])"
        using IH(1,6) miss Cons by (cases "suf = base # suf0") auto
      ultimately show ?thesis using Cons by auto
    qed
  qed
qed

lemma canonicalize_shape:
  assumes "canonicalize_path s p = Inr c" and "wf_os s" and "wf_cwd s"
  shows "\<exists>dir suf r. resolve 255 True (look s) [] dir = Inr r \<and> look s r \<noteq> None \<and>
      valid_path dir \<and> valid_path (r @ suf) \<and> c = abs_of (r @ suf) \<and>
      (suf \<noteq> [] \<longrightarrow> missing_at s (dir @ [hd suf]))"
proof -
  obtain cs where cs: "valid_path cs" "path_clean (go_abs s p) = abs_of cs"
    using go_abs_clean [OF assms(3)] by blast
  then have "canon_loop s (abs_of cs) (rev cs) [] = Inr c"
    using assms(1) by (simp add: canonicalize_path_def path_elems_abs_of)
  from canon_loop_result [OF this assms(2)] cs(1)
  obtain dir suf r where d: "cs = dir @ suf" "resolve 255 True (look s) [] dir = Inr r"
      "look s r \<noteq> None" "c = abs_of (r @ suf)" "valid_path suf"
      "suf \<noteq> [] \<longrightarrow> missing_at s (dir @ [hd suf])"
    by auto
  then show ?thesis
    using cs(1) wf_valid [OF assms(2) d(3)]
    by (intro exI [of _ dir] exI [of _ suf] exI [of _ r]) auto
qed

lemma canonicalize_abs:
  assumes "canonicalize_path s p = Inr c" and "wf_os s" and "wf_cwd s"
  shows "\<exists>cs. valid_path cs \<and> c = abs_of cs"
  using canonicalize_shape [OF assms] by blast

text \<open>Containment as the guard tests it on strings is containment of component lists.\<close>

lemma prefix_join_with:
  assumes "valid_path rs" "valid_path cs" "rs \<noteq> []"
  shows "prefix (join_with sep rs @ sep) (join_with sep cs) \<longleftrightarrow> strict_prefix rs cs"
proof
  assume "strict_prefix rs cs"
  then obtain z zs where "cs = rs @ z # zs" by (rule strict_prefixE')
  then show "prefix (join_with sep rs @ sep) (join_with sep cs)"
    using assms(3) by (simp add: join_with_append)
next
  assume "prefix (join_with sep rs @ sep) (join_with sep cs)"
  then obtain t where t: "join_with sep cs = join_with sep rs @ slash # t"
    by (auto simp: prefix_def sep_slash)
  have ne: "cs \<noteq> []" using t by auto
  have slash_free: "\<forall>x \<in> set rs. slash \<notin> set x" "\<forall>x \<in> set cs. slash \<notin> set x"
    using assms(1,2) by (auto simp: valid_path_def valid_name_def)
  have "cs = split_on slash (join_with sep cs)"
    using split_join [OF ne slash_free(2)] by (simp add: sep_slash)
  also have "\<dots> = split_on slash (join_with sep rs) @ split_on slash t"
    by (simp add: t split_on_append_sep)
  also have "split_on slash (join_with sep rs) = rs"
    using split_join [OF assms(3) slash_free(1)] by (simp add: sep_slash)
  finally show "strict_prefix rs cs" by (auto simp: strict_prefix_def)
qed

lemma root_test:
  assumes "valid_path rs" "valid_path cs" "rs \<noteq> []"
  shows "abs_of cs = abs_of rs \<or> prefix (abs_of rs @ sep) (abs_of cs) \<longleftrightarrow> prefix rs cs"
proof -
  have "abs_of cs = abs_of rs \<longleftrightarrow> cs = rs"
    using abs_of_inj assms(1,2) by blast
  moreover have "prefix (abs_of rs @ sep) (abs_of cs) \<longleftrightarrow> strict_prefix rs cs"
    using prefix_join_with [OF assms] by (simp add: abs_of_def)
  ultimately show ?thesis by auto
qed

lemma check_iff:
  assumes "wf_os s" "wf_cwd s" "guard_root g = abs_of rs" "valid_path rs" "rs \<noteq> []" "p \<noteq> ''''"
  shows "check g s p = Inr c \<longleftrightarrow>
    canonicalize_path s p = Inr c \<and> (\<exists>cs. valid_path cs \<and> c = abs_of cs \<and> prefix rs cs)"
proof (cases "canonicalize_path s p")
  case (Inl e)
  then show ?thesis using assms(6) by (simp add: check_def)
next
  case (Inr d)
  then obtain ds where ds: "valid_path ds" "d = abs_of ds"
    using canonicalize_abs assms(1,2) by blast
  have "check g s p = (if prefix rs ds then Inr d else Inl PathEscape)"
    using Inr assms(3,6) root_test [OF assms(4) ds(1) assms(5)] ds(2)
    by (auto simp: check_def)
  then show ?thesis
    using Inr ds abs_of_inj by (auto split: if_splits)
qed

section \<open>Where an accepted path leads\<close>

text \<open>
  An accepted path may still contain a link that points nowhere: the walk of
  \<open>filepath.EvalSymlinks\<close> does not find its target, so the link counts as a component that
  does not exist yet. \<open>dangling_at\<close> describes these.
\<close>

definition dangling_at :: "os \<Rightarrow> path \<Rightarrow> bool" where
  "dangling_at s q \<longleftrightarrow> is_link_at s q \<and> missing_at s q"

lemma resolve_existing:
  assumes "wf_os s" and "look s r \<noteq> None" and "\<not> is_link_at s r"
  shows "resolve n True (look s) [] r = Inr r"
proof -
  have "resolve n True (look s) [] r = Inr ([] @ r)"
  proof (rule resolve_through_dirs)
    show "valid_path r" using assms(1,2) by (rule wf_valid)
    fix q assume "strict_prefix q r" "q \<noteq> []"
    then show "is_dir_at s ([] @ q)"
      using wf_prefix_dir [OF assms(1), of q] assms(2) by (auto simp: strict_prefix_def prefix_def)
  qed (use assms(3) in simp)
  then show ?thesis by simp
qed

lemma resolve_append:
  assumes "resolve n follow (look s) acc cs = Inr r" and "follow" and "is_dir_at s acc"
    and "wf_os s" and "look s r \<noteq> None" and "ds \<noteq> []"
  shows "(\<exists>m \<le> n. is_dir_at s r \<and>
        resolve n follow (look s) acc (cs @ ds) = resolve m follow (look s) r ds) \<or>
      resolve n follow (look s) acc (cs @ ds) = Inl ENOTDIR"
  using assms
proof (induction n follow "look s" acc cs rule: resolve.induct)
  case (1 n follow acc)
  then show ?case by auto
next
  case (2 n follow acc c cs)
  note prems = 2(6-10)
  have up: "is_dir_at s (butlast acc)"
    using prems by (auto intro: wf_butlast_dir dest: is_dir_look)
  have lk: "\<And>t. is_dir_at s (if is_abs t then [] else acc)"
    using prems wf_root by simp
  have bd: "\<And>nd. look s (acc @ [c]) = Some nd \<Longrightarrow> u_body nd = BDir \<Longrightarrow> is_dir_at s (acc @ [c])"
    by (simp add: is_dir_at_def)
  consider (dot) "c = '''' \<or> c = ''.''" | (dotdot) "c = ''..''"
    | (name) "c \<noteq> ''''" "c \<noteq> ''.''" "c \<noteq> ''..''"
    by auto
  then show ?case
  proof cases
    case dot
    then show ?thesis using 2(1) [OF dot _ prems] 2(5) by auto
  next
    case dotdot
    then show ?thesis using 2(2) [OF _ dotdot _ prems(1) up prems(3-)] 2(5) by auto
  next
    case name
    show ?thesis
    proof (cases "look s (acc @ [c])")
      case None
      then show ?thesis using 2(5) name prems(4) by (auto split: if_splits)
    next
      case (Some nd)
      show ?thesis
      proof (cases "u_body nd")
        case BDir
        then have "resolve n follow (look s) (acc @ [c]) cs = Inr r"
          using 2(5) name Some by simp
        from 2(3) [OF _ _ Some BDir this prems(1) bd [OF Some BDir] prems(3-)] name
        show ?thesis using Some BDir by simp
      next
        case (BLink t)
        then have n: "n \<noteq> 0" and
          r: "resolve (n - 1) follow (look s) (if is_abs t then [] else acc)
            (split_on slash t @ cs) = Inr r"
          using 2(5) name Some prems(1) by (auto split: if_splits)
        from 2(4) [OF _ _ Some BLink _ n r prems(1) lk prems(3-)] name prems(1)
        have "(\<exists>m \<le> n - 1. is_dir_at s r \<and>
            resolve (n - 1) follow (look s) (if is_abs t then [] else acc)
              (split_on slash t @ cs @ ds) = resolve m follow (look s) r ds) \<or>
            resolve (n - 1) follow (look s) (if is_abs t then [] else acc)
              (split_on slash t @ cs @ ds) = Inl ENOTDIR"
          by simp
        then show ?thesis
        proof
          assume "\<exists>m \<le> n - 1. is_dir_at s r \<and>
            resolve (n - 1) follow (look s) (if is_abs t then [] else acc)
              (split_on slash t @ cs @ ds) = resolve m follow (look s) r ds"
          then obtain m where "m \<le> n" "is_dir_at s r"
            "resolve (n - 1) follow (look s) (if is_abs t then [] else acc)
              (split_on slash t @ cs @ ds) = resolve m follow (look s) r ds"
            by (meson diff_le_self le_trans)
          then show ?thesis
            using name Some BLink n prems(1) by (intro disjI1 exI [of _ m]) simp
        qed (use name Some BLink n prems(1) in simp)
      qed (use 2(5) name Some prems(5) in \<open>auto split: if_splits\<close>)
    qed
  qed
qed

text \<open>A larger budget for links changes an answer only when the budget had run out.\<close>

lemma resolve_mono:
  "resolve m fl lk acc cs \<noteq> Inl ELOOP \<Longrightarrow> m \<le> n \<Longrightarrow>
     resolve n fl lk acc cs = resolve m fl lk acc cs"
proof (induction m fl lk acc cs arbitrary: n rule: resolve.induct)
  case (2 m fl lk acc c cs)
  consider (dot) "c = '''' \<or> c = ''.''" | (dotdot) "c = ''..''"
    | (name) "c \<noteq> ''''" "c \<noteq> ''.''" "c \<noteq> ''..''"
    by auto
  then show ?case
  proof cases
    case dot
    then show ?thesis using 2(1) [OF dot, of n] 2(5-) by auto
  next
    case dotdot
    then show ?thesis using 2(2) [OF _ dotdot, of n] 2(5-) by auto
  next
    case name
    show ?thesis
    proof (cases "lk (acc @ [c])")
      case None
      then show ?thesis using name by simp
    next
      case (Some nd)
      show ?thesis
      proof (cases "u_body nd")
        case BDir
        then show ?thesis using 2(3) [OF _ _ Some BDir, of n] 2(5-) name Some by simp
      next
        case (BLink t)
        show ?thesis
        proof (cases "cs = [] \<and> \<not> fl")
          case True
          then show ?thesis using name Some BLink by simp
        next
          case False
          define base where "base = (if is_abs t then [] else acc)"
          have m: "m \<noteq> 0" "resolve (m - 1) fl lk base (split_on slash t @ cs) \<noteq> Inl ELOOP"
            using 2(5) name Some BLink False by (auto simp: base_def split: if_splits)
          have "resolve (n - 1) fl lk base (split_on slash t @ cs) =
              resolve (m - 1) fl lk base (split_on slash t @ cs)"
            unfolding base_def
            by (rule 2(4) [OF _ _ Some BLink])
              (use m 2(6) name False in \<open>auto simp: base_def\<close>)
          then show ?thesis
            using name Some BLink False m(1) 2(6) by (auto simp: base_def)
        qed
      qed (use name Some in simp_all)
    qed
  qed
qed simp

lemma resolve_into:
  assumes "wf_os s"
  shows "valid_path q \<Longrightarrow> is_dir_at s (acc @ q) \<Longrightarrow>
    resolve n fl (look s) acc (q @ cs) = resolve n fl (look s) (acc @ q) cs"
proof (induction q arbitrary: acc)
  case (Cons c q)
  have "is_dir_at s (acc @ [c])"
    using wf_prefix_dir [OF assms, of "acc @ [c]" q] Cons.prems(2)
    by (cases "q = []") (auto dest: is_dir_look)
  with Cons show ?case
    by (auto simp: valid_name_def is_dir_at_def split: option.splits)
qed simp

lemma missing_link_below:
  assumes "wf_os s" and r: "resolve 255 True (look s) [] dir = Inr r" and "look s r \<noteq> None"
    and miss: "missing_at s (dir @ [x])"
  shows "missing_at s (r @ [x])"
proof -
  define z where "z = resolve 255 True (look s) [] (dir @ [x])"
  have z: "z = Inl ENOENT \<or> (\<exists>q. z = Inr q \<and> look s q = None)"
    using miss by (simp add: z_def missing_at_iff)
  from resolve_append [OF r _ wf_root [OF assms(1)] assms(1,3), of "[x]"] z
  obtain m where m: "m \<le> 255" "is_dir_at s r" "z = resolve m True (look s) r [x]"
    by (auto simp: z_def [symmetric])
  have "z \<noteq> Inl ELOOP" using z by auto
  then have "resolve 255 True (look s) r [x] = z"
    using resolve_mono [OF _ m(1)] m(3) by metis
  moreover have "resolve 255 True (look s) [] (r @ [x]) = resolve 255 True (look s) r [x]"
    using resolve_into [OF assms(1), of r "[]" 255 True "[x]"] wf_valid [OF assms(1,3)] m(2)
    by (simp del: resolve.simps)
  ultimately show ?thesis
    using z by (simp add: missing_at_iff)
qed

lemma missing_not_dir: "valid_name x \<Longrightarrow> wf_os s \<Longrightarrow> missing_at s (r @ [x]) \<Longrightarrow> \<not> is_dir_at s (r @ [x])"
  using resolve_existing [of s "r @ [x]" 255] is_dir_look [of s "r @ [x]"]
    dir_not_link [of s "r @ [x]"]
  by (auto simp: missing_at_iff)

text \<open>The links of a canonical path are dangling.\<close>

lemma canonical_links_dangle:
  assumes "canonicalize_path s p = Inr (abs_of cs)" and "wf_os s" and "wf_cwd s"
    and "valid_path cs" and "prefix q cs" and "is_link_at s q"
  shows "dangling_at s q"
proof -
  from canonicalize_shape [OF assms(1-3)]
  obtain dir suf r where d: "resolve 255 True (look s) [] dir = Inr r" "look s r \<noteq> None"
      "valid_path dir" "valid_path (r @ suf)" "abs_of cs = abs_of (r @ suf)"
      "suf \<noteq> [] \<longrightarrow> missing_at s (dir @ [hd suf])"
    by blast
  have cs: "cs = r @ suf" using abs_of_inj [OF assms(4) d(4,5)] .
  have "slash \<notin> set c" if "c \<in> set dir" for c
    using that d(3) by (auto simp: valid_path_def valid_name_def)
  then have no_link: "\<not> is_link_at s r"
    using resolve_end [OF assms(2) wf_root [OF assms(2)] _ d(1)] by simp
  have in_r: "\<not> is_link_at s q" if "prefix q r"
  proof (cases "q = r")
    case False
    with that obtain z zs where "r = q @ z # zs"
      by (metis append_Nil2 neq_Nil_conv prefix_def)
    then have "is_dir_at s q" using wf_prefix_dir [OF assms(2), of q "z # zs"] d(2) by simp
    then show ?thesis by (rule dir_not_link)
  qed (use no_link in simp)
  then have "\<not> prefix q r" using assms(6) by blast
  then obtain us where us: "q = r @ us" "us \<noteq> []" "prefix us suf"
    using assms(5) cs by (auto simp: prefix_append)
  have q: "look s q \<noteq> None" using assms(6) by (auto simp: is_link_at_def split: option.splits)
  obtain x xs where x: "us = x # xs" using us(2) by (cases us) auto
  have "missing_at s (dir @ [x])" using d(6) us(3) x by (cases suf) auto
  from missing_link_below [OF assms(2) d(1,2) this]
  have miss: "missing_at s (r @ [x])" .
  have "valid_name x" using d(4) us(3) x by (auto simp: prefix_def)
  then have "xs = []"
    using missing_not_dir [OF _ assms(2) miss] wf_prefix_dir [OF assms(2), of "r @ [x]" xs] q us(1) x
    by auto
  then show ?thesis
    using miss assms(6) us(1) x by (simp add: dangling_at_def)
qed

section \<open>Properties\<close>

text \<open>C1: the sandbox, for a root other than the top directory. A path that the guard accepts comes back
  in canonical form, and its components extend those of the root (they are compared whole: no
  sibling whose name merely begins like the root is accepted). A symbolic link that is left on it has
  no target. When no such dangling link is left, every walk of the host along the path, in the state
  of the check, ends at exactly that path, and so inside the root. With a dangling link the walk can
  leave the root: \<open>check_accepts_dangling\<close>.\<close>

theorem check_confines:
  assumes "wf_os s" and "wf_cwd s"
    and "guard_root g = abs_of rs" and "valid_path rs" and "rs \<noteq> []" and "p \<noteq> ''''"
    and "check g s p = Inr c"
  shows "\<exists>cs. c = abs_of cs \<and> valid_path cs \<and> prefix rs cs \<and>
    (\<forall>q. prefix q cs \<and> is_link_at s q \<longrightarrow> dangling_at s q) \<and>
    (\<forall>follow loc. (\<forall>q. prefix q cs \<longrightarrow> \<not> dangling_at s q) \<and> walk_path s follow c = Inr loc \<longrightarrow> loc = cs)"
proof -
  obtain cs where cs: "canonicalize_path s p = Inr c" "valid_path cs" "c = abs_of cs" "prefix rs cs"
    using assms(7) check_iff [OF assms(1-6)] by auto
  have dangle: "dangling_at s q" if "prefix q cs" "is_link_at s q" for q
    using canonical_links_dangle [OF _ assms(1,2) cs(2) that] cs(1,3) by simp
  have "loc = cs" if "\<forall>q. prefix q cs \<longrightarrow> \<not> dangling_at s q" "walk_path s follow c = Inr loc" for follow loc
  proof -
    have "\<not> is_link_at s q" if "prefix q cs" for q using dangle that \<open>\<forall>q. prefix q cs \<longrightarrow> \<not> dangling_at s q\<close> by blast
    then have "link_free s cs" "\<not> is_link_at s cs" by (auto simp: link_free_def)
    then show ?thesis using walk_link_free [OF cs(2), of s follow loc] that(2) cs(3) by simp
  qed
  then show ?thesis using cs dangle by blast
qed

text \<open>What the guard decides. For a root other than the top directory, a non-empty path is
  accepted exactly when it has a canonical form whose components extend the root's, and the
  answer is that form; a canonical form outside the root is refused with the path-escape error
  and nothing else.
\<close>

theorem check_decision:
  assumes "wf_os s" and "wf_cwd s"
    and "guard_root g = abs_of rs" and "valid_path rs" and "rs \<noteq> []" and "p \<noteq> ''''"
  shows "check g s p =
    (case canonicalize_path s p of
       Inl e \<Rightarrow> Inl e
     | Inr c \<Rightarrow> if prefix rs (path_elems c) then Inr c else Inl PathEscape)"
proof (cases "canonicalize_path s p")
  case (Inl e)
  then show ?thesis using assms(6) by (simp add: check_def)
next
  case (Inr c)
  then obtain cs where cs: "valid_path cs" "c = abs_of cs"
    using canonicalize_abs assms(1,2) by blast
  then show ?thesis
    using Inr assms(3,6) root_test [OF assms(4) cs(1) assms(5)]
    by (auto simp: check_def path_elems_abs_of)
qed

text \<open>A link inside the root that points to a place that does not exist yet passes the guard
  unchanged, wherever it points. The comment of \<open>canonicalizePath\<close> promises a symlink-free
  path; for a dangling link it returns the link itself.
\<close>

theorem check_accepts_dangling:
  assumes "wf_os s" and "guard_root g = abs_of rs" and "rs \<noteq> []" and "is_dir_at s rs"
    and "dangling_at s (rs @ [x])"
  shows "check g s (abs_of (rs @ [x])) = Inr (abs_of (rs @ [x]))"
proof -
  have l: "look s (rs @ [x]) \<noteq> None"
    using assms(5) by (auto simp: dangling_at_def is_link_at_def split: option.splits)
  have v: "valid_path (rs @ [x])" using assms(1) l by (rule wf_valid)
  then have vr: "valid_path rs" and vx: "valid_path [x]" by auto
  have "eval_symlinks s (abs_of (rs @ [x])) = Inl (Errno ENOENT)"
    using assms(5) v
    by (auto simp: dangling_at_def missing_at_iff eval_symlinks_def start_of_def split_on_abs_of)
  moreover have "eval_symlinks s (abs_of rs) = Inr (abs_of rs)"
    using resolve_existing [OF assms(1) is_dir_look [OF assms(4)] dir_not_link [OF assms(4)]]
      is_dir_look [OF assms(4)]
    by (simp add: eval_symlinks_Inr [OF vr])
  ultimately have "canon_loop s (abs_of (rs @ [x])) (x # rev rs) [] = Inr (abs_of (rs @ [x]))"
    by (subst canon_loop.simps, simp add: is_not_exist_def, subst canon_loop.simps)
      (simp add: path_join_elems [OF vr vx])
  then have "canonicalize_path s (abs_of (rs @ [x])) = Inr (abs_of (rs @ [x]))"
    using v by (simp add: canonicalize_path_def go_abs_def path_clean_abs_of path_elems_abs_of)
  then show ?thesis
    using assms(2) root_test [OF vr v assms(3)] by (auto simp: check_def)
qed

text \<open>A root of \<open>/\<close> is tested for as a double slash, so the guard then refuses every
  path but the top directory itself.
\<close>

theorem check_top_root:
  assumes "wf_os s" and "wf_cwd s" and "guard_root g = sep" and "p \<noteq> ''''"
    and "canonicalize_path s p = Inr c" and "c \<noteq> sep"
  shows "check g s p = Inl PathEscape"
proof -
  obtain cs where cs: "valid_path cs" "c = abs_of cs"
    using canonicalize_abs [OF assms(5,1,2)] by blast
  then obtain x xs where x: "cs = x # xs"
    using assms(6) by (cases cs) (auto simp: abs_of_def)
  then have "x \<noteq> []" "slash \<notin> set x"
    using cs(1) by (auto simp: valid_name_def)
  then have "\<not> prefix (sep @ sep) c"
    using x cs(2) by (cases x; cases xs) (auto simp: abs_of_def sep_slash)
  then show ?thesis using assms(3-6) by (simp add: check_def sep_slash)
qed

section \<open>Witnesses\<close>

text \<open>A sandbox with a link into itself, a link to a missing place outside, and a sibling.\<close>

definition guard_os :: os where
  "guard_os = \<lparr>os_nodes =
       [([], plain_dir), ([''box''], plain_dir), ([''out''], plain_dir), ([''boxer''], plain_dir),
        ([''box'', ''new''], plain_dir\<lparr>u_body := BLink ''/out/new''\<rparr>),
        ([''box'', ''me''], plain_dir\<lparr>u_body := BLink ''../box''\<rparr>)],
     os_cwd = [''box''], os_umask = 0x12, os_next = 10, os_uid = 0, os_gid = 0, os_clock = 0,
     os_faults = []\<rparr>"

definition box_guard :: path_guard where
  "box_guard = \<lparr>guard_root = ''/box''\<rparr>"

lemma wf_guard_os: "wf_os guard_os"
  by (rule wf_osI_list) code_simp+

lemma box_root: "guard_root box_guard = abs_of [''box'']"
  by code_simp

theorem check_confines_witness:
  "check box_guard guard_os ''me/x'' = Inr ''/box/x'' \<and>
   (\<exists>cs. ''/box/x'' = abs_of cs \<and> prefix [''box''] cs \<and>
      walk_path guard_os False ''/box/x'' = Inr cs \<and> walk_path guard_os True ''/box/x'' = Inr cs)"
proof -
  have 1: "wf_cwd guard_os" "check box_guard guard_os ''me/x'' = Inr ''/box/x''"
    "\<not> isl (walk_path guard_os False ''/box/x'')" "\<not> isl (walk_path guard_os True ''/box/x'')"
    by code_simp+
  obtain cs where cs: "''/box/x'' = abs_of cs" "valid_path cs" "prefix [''box''] cs"
    "\<forall>follow loc. (\<forall>q. prefix q cs \<longrightarrow> \<not> dangling_at guard_os q) \<and> walk_path guard_os follow ''/box/x'' = Inr loc \<longrightarrow> loc = cs"
    using check_confines [OF wf_guard_os 1(1) box_root _ _ _ 1(2)] by (auto simp: valid_name_def slash_def)
  have "''/box/x'' = abs_of [''box'', ''x'']" "valid_path [''box'', ''x'']" by code_simp+
  then have c: "cs = [''box'', ''x'']" using abs_of_inj [OF cs(2)] cs(1) by simp
  have "\<forall>q \<in> set (prefixes [''box'', ''x'']). \<not> dangling_at guard_os q"
    by code_simp
  then have "\<forall>q. prefix q cs \<longrightarrow> \<not> dangling_at guard_os q"
    unfolding c by (auto simp only: in_set_prefixes)
  then have "walk_path guard_os f ''/box/x'' = Inr cs" if "\<not> isl (walk_path guard_os f ''/box/x'')" for f
    using cs(4) that by (cases "walk_path guard_os f ''/box/x''") auto
  then show ?thesis using 1(2-4) cs(1,3) by blast
qed

theorem check_decision_witness:
  "check box_guard guard_os ''/boxer'' = Inl PathEscape"
proof -
  have 1: "wf_cwd guard_os" by code_simp
  have "canonicalize_path guard_os ''/boxer'' = Inr ''/boxer''"
    "\<not> prefix [''box''] (path_elems ''/boxer'')" "valid_path [''box'']"
    by code_simp+
  then show ?thesis
    by (simp add: check_decision [OF wf_guard_os 1 box_root])
qed

theorem check_accepts_dangling_witness:
  "check box_guard guard_os ''/box/new'' = Inr ''/box/new'' \<and>
   walk_path guard_os True ''/box/new'' = Inr [''out'', ''new'']"
proof -
  have "is_dir_at guard_os [''box'']" "dangling_at guard_os ([''box''] @ [''new''])"
    "abs_of ([''box''] @ [''new'']) = ''/box/new''"
    "walk_path guard_os True ''/box/new'' = Inr [''out'', ''new'']"
    by code_simp+
  then show ?thesis
    using check_accepts_dangling [OF wf_guard_os box_root, of "''new''"] by simp
qed

theorem check_top_root_witness:
  "check \<lparr>guard_root = ''/''\<rparr> guard_os ''/out'' = Inl PathEscape"
proof (rule check_top_root [OF wf_guard_os])
  show "canonicalize_path guard_os ''/out'' = Inr ''/out''" by code_simp
  show "wf_cwd guard_os" by code_simp
qed (simp_all add: sep_def)

end
