(* ===== verification/UpperDir.thy ===== *)
theory UpperDir
  imports OsFs
begin

text \<open>
  What the host's calls do to a directory tree without symbolic links on the way: for each
  call, the nodes after it, when it can fail, and that it does not fail when nothing is in the
  way and no fault is injected. The overlay and the diff of a mount stand on these facts.
\<close>

section \<open>Paths without links\<close>

definition plain :: "os \<Rightarrow> path \<Rightarrow> bool" where
  "plain s q \<longleftrightarrow> (\<forall>p. prefix p q \<longrightarrow> \<not> is_link_at s p)"

lemma link_free_snoc [simp]: "link_free s (q @ [c]) \<longleftrightarrow> plain s q"
  by (simp add: link_free_def plain_def strict_prefix_snoc)

lemma plain_link_free: "plain s q \<Longrightarrow> link_free s q"
  by (simp add: link_free_def plain_def strict_prefix_def)

lemma plain_snoc: "plain s (q @ [c]) \<longleftrightarrow> plain s q \<and> \<not> is_link_at s (q @ [c])"
  by (auto simp: plain_def prefix_snoc)

lemma plain_self: "plain s q \<Longrightarrow> \<not> is_link_at s q"
  by (simp add: plain_def)

lemma plain_prefix: "plain s q \<Longrightarrow> prefix p q \<Longrightarrow> plain s p"
  by (auto simp: plain_def dest: prefix_order.trans)

lemma plain_append: "plain s (p @ q) \<Longrightarrow> plain s p"
  by (rule plain_prefix) auto

lemma dir_plain:
  assumes "wf_os s" and "is_dir_at s q"
  shows "plain s q"
proof -
  have "is_dir_at s p" if p: "prefix p q" for p
  proof (cases "p = q")
    case False
    then obtain r where "q = p @ r" "r \<noteq> []" using p by (auto simp: prefix_def)
    then show ?thesis using wf_prefix_dir [OF assms(1), of p r] is_dir_look [OF assms(2)] by simp
  qed (use assms in simp)
  then show ?thesis by (simp add: plain_def dir_not_link)
qed

lemma plain_cong: "look s' = look s \<Longrightarrow> plain s' q = plain s q"
  by (simp add: plain_def is_link_at_def)

lemma is_dir_cong: "look s' = look s \<Longrightarrow> is_dir_at s' q = is_dir_at s q"
  by (simp add: is_dir_at_def)

lemma stat_plain:
  assumes "wf_os s" and "valid_path q" and "plain s q"
  shows "os_stat s (abs_of q) = Inr n \<longleftrightarrow> look s q = Some n"
proof
  assume "os_stat s (abs_of q) = Inr n"
  then obtain r where "walk_path s True (abs_of q) = Inr r" "look s r = Some n"
    by (auto simp: os_stat_def node_at_def split: sum.splits option.splits)
  then show "look s q = Some n"
    using walk_link_free [OF assms(2) plain_link_free [OF assms(3)]] plain_self [OF assms(3)] by blast
next
  assume l: "look s q = Some n"
  then have "walk_path s True (abs_of q) = Inr q"
    using assms wf_butlast_dir [OF assms(1), of q] plain_self [OF assms(3)]
    by (intro walk_known) auto
  then show "os_stat s (abs_of q) = Inr n" using l by (simp add: os_stat_def node_at_def)
qed

lemma lstat_snoc:
  "wf_os s \<Longrightarrow> valid_path (q @ [c]) \<Longrightarrow> plain s q \<Longrightarrow>
     os_lstat s (abs_of (q @ [c])) = Inr n \<longleftrightarrow> look s (q @ [c]) = Some n"
  by (rule lstat_iff) simp_all

lemma walk_in_dir:
  "wf_os s \<Longrightarrow> is_dir_at s q \<Longrightarrow> valid_name c \<Longrightarrow> walk_path s False (abs_of (q @ [c])) = Inr (q @ [c])"
  by (rule walk_known) (auto simp: wf_valid is_dir_look)

lemma walk_follow_in_dir:
  "wf_os s \<Longrightarrow> is_dir_at s q \<Longrightarrow> valid_name c \<Longrightarrow> \<not> is_link_at s (q @ [c]) \<Longrightarrow>
     walk_path s f (abs_of (q @ [c])) = Inr (q @ [c])"
  by (rule walk_known) (auto simp: wf_valid is_dir_look)

section \<open>Faults\<close>

definition count_faults :: "errno option list \<Rightarrow> nat" where
  "count_faults fs = length (filter (\<lambda>f. f \<noteq> None \<and> f \<noteq> Some ENOENT) fs)"

abbreviation faults :: "os \<Rightarrow> nat" where
  "faults s \<equiv> count_faults (os_faults s)"

definition quiet :: "os \<Rightarrow> bool" where
  "quiet s \<longleftrightarrow> faults s = 0"

lemma less_faults_quiet: "faults s' < faults s \<Longrightarrow> \<not> quiet s"
  by (simp add: quiet_def)

lemma faulty_cases:
  assumes "faulty f s = (r, s')"
  obtains (injected) e fs where "r = Inl e" "e \<noteq> ENOENT" "s' = s\<lparr>os_faults := fs\<rparr>"
      "faults s = Suc (count_faults fs)" "\<not> quiet s"
    | (run) fs where "f (s\<lparr>os_faults := fs\<rparr>) = (r, s')" "count_faults fs = faults s"
proof (cases "os_faults s")
  case Nil
  then have "f (s\<lparr>os_faults := []\<rparr>) = (r, s')" using assms by (cases s) (simp add: faulty_def)
  then show ?thesis using run Nil by simp
next
  case (Cons x fs)
  then show ?thesis
    using assms injected [of _ fs] run [of fs]
    by (auto simp: faulty_def count_faults_def quiet_def split: option.splits if_splits)
qed

text \<open>Everything but the nodes and the inode counter is as before, and no fault was added.\<close>

definition same_host :: "os \<Rightarrow> os \<Rightarrow> bool" where
  "same_host s s' \<longleftrightarrow>
     os_umask s' = os_umask s \<and> os_cwd s' = os_cwd s \<and> os_uid s' = os_uid s \<and>
     os_gid s' = os_gid s \<and> os_clock s' = os_clock s \<and> faults s' \<le> faults s"

lemma same_host_refl [simp]: "same_host s s"
  by (simp add: same_host_def)

lemma same_host_trans: "same_host s t \<Longrightarrow> same_host t u \<Longrightarrow> same_host s u"
  by (auto simp: same_host_def)

lemma same_host_nodes [simp]:
  "same_host s (add_node t q m b) = same_host s t"
  "same_host s (set_node t q n) = same_host s t"
  "same_host s (del_node t q) = same_host s t"
  "same_host s (t\<lparr>os_nodes := ns\<rparr>) = same_host s t"
  "same_host s (s\<lparr>os_faults := fs\<rparr>) \<longleftrightarrow> count_faults fs \<le> faults s"
  by (simp_all add: same_host_def add_node_def set_node_def del_node_def)

lemma same_host_quiet: "same_host s s' \<Longrightarrow> quiet s \<Longrightarrow> quiet s'"
  by (simp add: same_host_def quiet_def)

lemma same_host_faults: "same_host s s' \<Longrightarrow> faults s' \<le> faults s"
  by (simp add: same_host_def)

section \<open>The calls at a name in a directory\<close>

definition mk_node :: "os \<Rightarrow> u32 \<Rightarrow> ubody \<Rightarrow> unode \<Rightarrow> bool" where
  "mk_node s mode b n \<longleftrightarrow> u_body n = b \<and> u_mode n = mode \<and> u_uid n = os_uid s \<and> u_gid n = os_gid s"

lemma add_node_look:
  "\<exists>n. mk_node s m b n \<and> look (add_node s q m b) = (look s)(q \<mapsto> n)"
  by (rule exI [of _ "the (look (add_node s q m b) q)"])
    (simp add: look_add_node mk_node_def)

lemma mkdir_spec:
  assumes "wf_os s" and "is_dir_at s q" and "valid_name c"
    and "os_mkdir (abs_of (q @ [c])) m s = (r, s')"
  shows "same_host s s' \<and> (quiet s \<longrightarrow> r = Inr () \<or> look s (q @ [c]) \<noteq> None) \<and>
    (case r of
       Inl e \<Rightarrow> look s' = look s
     | Inr _ \<Rightarrow> look s (q @ [c]) = None \<and>
         (\<exists>n. mk_node s (masked s (go_perm m)) BDir n \<and> look s' = (look s)(q @ [c] \<mapsto> n)))"
  using assms(4) [unfolded os_mkdir_def]
proof (cases rule: faulty_cases)
  case (run fs)
  let ?t = "s\<lparr>os_faults := fs\<rparr>"
  have w: "walk_path ?t False (abs_of (q @ [c])) = Inr (q @ [c])"
    using assms by (intro walk_in_dir) simp_all
  then show ?thesis
    using run add_node_look [of ?t "masked ?t (go_perm m)" BDir "q @ [c]"]
    by (auto simp: sys_mkdir_at_def mk_node_def masked_def split: if_splits)
qed auto

lemma symlink_spec:
  assumes "wf_os s" and "is_dir_at s q" and "valid_name c"
    and "os_symlink target (abs_of (q @ [c])) s = (r, s')"
  shows "same_host s s' \<and> (quiet s \<longrightarrow> r = Inr () \<or> look s (q @ [c]) \<noteq> None) \<and>
    (case r of
       Inl e \<Rightarrow> look s' = look s
     | Inr _ \<Rightarrow> look s (q @ [c]) = None \<and>
         (\<exists>n. mk_node s 0x1FF (BLink target) n \<and> look s' = (look s)(q @ [c] \<mapsto> n)))"
  using assms(4) [unfolded os_symlink_def]
proof (cases rule: faulty_cases)
  case (run fs)
  let ?t = "s\<lparr>os_faults := fs\<rparr>"
  have w: "walk_path ?t False (abs_of (q @ [c])) = Inr (q @ [c])"
    using assms by (intro walk_in_dir) simp_all
  then show ?thesis
    using run add_node_look [of ?t "0x1FF" "BLink target" "q @ [c]"]
    by (auto simp: mk_node_def split: if_splits)
qed auto

lemma remove_spec:
  assumes "wf_os s" and "is_dir_at s q" and "valid_name c"
    and "os_remove (abs_of (q @ [c])) s = (r, s')"
  shows "same_host s s' \<and>
    (quiet s \<longrightarrow> r =
      (case look s (q @ [c]) of None \<Rightarrow> Inl ENOENT
       | Some n \<Rightarrow> if u_body n = BDir \<and> has_entries s (q @ [c]) then Inl ENOTEMPTY else Inr ())) \<and>
    (case r of
       Inl e \<Rightarrow> look s' = look s \<and> (e = ENOENT \<longrightarrow> look s (q @ [c]) = None)
     | Inr _ \<Rightarrow> look s (q @ [c]) \<noteq> None \<and> look s' = (look s)(q @ [c] := None))"
  using assms(4) [unfolded os_remove_def]
proof (cases rule: faulty_cases)
  case (run fs)
  let ?t = "s\<lparr>os_faults := fs\<rparr>"
  have w: "walk_path ?t False (abs_of (q @ [c])) = Inr (q @ [c])"
    using assms by (intro walk_in_dir) simp_all
  have h: "has_entries ?t k = has_entries s k" for k by (simp add: has_entries_iff)
  show ?thesis
    using w run
    by (auto simp: sys_remove_at_def look_del_node h split: if_splits option.splits)
qed auto

lemma open_new_spec:
  assumes "wf_os s" and "is_dir_at s q" and "valid_name c" and "look s (q @ [c]) = None"
    and "has_flag flags O_CREAT"
    and "sys_open (abs_of (q @ [c])) flags m s = (r, s')"
  shows "same_host s s' \<and> (quiet s \<longrightarrow> r = Inr (q @ [c])) \<and>
    (case r of
       Inl e \<Rightarrow> look s' = look s
     | Inr f \<Rightarrow> f = q @ [c] \<and>
         (\<exists>n. mk_node s (masked s m) (BReg []) n \<and> look s' = (look s)(q @ [c] \<mapsto> n)))"
  using assms(6) [unfolded sys_open_def]
proof (cases rule: faulty_cases)
  case (run fs)
  let ?t = "s\<lparr>os_faults := fs\<rparr>"
  have "\<not> is_link_at ?t (q @ [c])" using assms(4) by (simp add: is_link_at_def)
  then have w: "walk_path ?t f (abs_of (q @ [c])) = Inr (q @ [c])" for f
    using assms by (intro walk_follow_in_dir) simp_all
  then show ?thesis
    using run assms(4,5) add_node_look [of ?t "masked ?t m" "BReg []" "q @ [c]"]
    by (auto simp: sys_open_at_def mk_node_def masked_def)
qed auto

section \<open>MkdirAll\<close>

text \<open>\<open>s'\<close> is \<open>s\<close> with some missing directories of the path \<open>q\<close> made.\<close>

definition grown :: "os \<Rightarrow> u32 \<Rightarrow> path \<Rightarrow> os \<Rightarrow> bool" where
  "grown s m q s' \<longleftrightarrow>
     (\<forall>k. look s' k = look s k \<or>
        (look s k = None \<and> prefix k q \<and>
         (\<exists>n. mk_node s (masked s (go_perm m)) BDir n \<and> look s' k = Some n)))"

lemma grown_refl [simp]: "grown s m q s"
  by (simp add: grown_def)

lemma grown_keeps: "grown s m q s' \<Longrightarrow> look s k = Some n \<Longrightarrow> look s' k = Some n"
  unfolding grown_def by (metis option.distinct(1))

lemma grown_other: "grown s m q s' \<Longrightarrow> \<not> prefix k q \<Longrightarrow> look s' k = look s k"
  unfolding grown_def by metis

lemma grown_new: "grown s m q s' \<Longrightarrow> look s k = None \<Longrightarrow> look s' k = Some n \<Longrightarrow>
    prefix k q \<and> u_body n = BDir \<and> u_mode n = masked s (go_perm m)"
  unfolding grown_def mk_node_def by (metis option.distinct(1) option.inject)

lemma grown_dir: "grown s m q s' \<Longrightarrow> is_dir_at s k \<Longrightarrow> is_dir_at s' k"
  using grown_keeps [of s m q s' k] by (auto simp: is_dir_at_def split: option.splits)

lemma grown_link:
  assumes "grown s m q s'"
  shows "is_link_at s' k = is_link_at s k"
proof (cases "look s k")
  case None
  then show ?thesis
    using grown_new [OF assms None] by (cases "look s' k") (auto simp: is_link_at_def)
next
  case (Some n)
  then show ?thesis using grown_keeps [OF assms Some] by (simp add: is_link_at_def)
qed

lemma grown_plain: "grown s m q s' \<Longrightarrow> plain s' k = plain s k"
  by (simp add: plain_def grown_link)

lemma grown_cong: "look s' = look s \<Longrightarrow> grown s m q s'"
  by (simp add: grown_def)

lemma grown_extend:
  assumes "grown s m q s1" and "same_host s s1" and "look s1 (q @ [c]) = None"
    and "look s2 = (look s1)(q @ [c] \<mapsto> n)" and "mk_node s1 (masked s1 (go_perm m)) BDir n"
  shows "grown s m (q @ [c]) s2"
proof -
  have "masked s1 = masked s" "os_uid s1 = os_uid s" "os_gid s1 = os_gid s"
    using assms(2) by (simp_all add: same_host_def masked_def fun_eq_iff)
  then have mk: "mk_node s (masked s (go_perm m)) BDir n" using assms(5) by (simp add: mk_node_def)
  have none: "look s (q @ [c]) = None" using grown_keeps [OF assms(1)] assms(3) by (metis option.exhaust)
  show ?thesis
    unfolding grown_def
  proof
    fix k
    show "look s2 k = look s k \<or> (look s k = None \<and> prefix k (q @ [c]) \<and>
        (\<exists>n. mk_node s (masked s (go_perm m)) BDir n \<and> look s2 k = Some n))"
      using assms(1,4) mk none unfolding grown_def by (cases "k = q @ [c]") (auto simp: prefix_snoc)
  qed
qed

lemma grown_weaken: "grown s m q s' \<Longrightarrow> grown s m (q @ [c]) s'"
  unfolding grown_def by (auto simp: prefix_snoc)

lemma mkdir_all_rev_spec:
  "wf_os s \<Longrightarrow> valid_path q \<Longrightarrow> plain s q \<Longrightarrow> mkdir_all_rev True (rev q) m s = (r, s') \<Longrightarrow>
     same_host s s' \<and> wf_os s' \<and> grown s m q s' \<and> (r = Inr () \<longrightarrow> is_dir_at s' q) \<and>
     (quiet s \<longrightarrow> (\<forall>p. prefix p q \<longrightarrow> look s p = None \<or> is_dir_at s p) \<longrightarrow> r = Inr ())"
proof (induction q arbitrary: r s' rule: rev_induct)
  case Nil
  then have "is_dir_at s []" by (simp add: wf_root)
  moreover from this obtain n where "os_stat s (abs_of []) = Inr n" "u_body n = BDir"
    using stat_plain [of s "[]"] Nil by (auto simp: is_dir_at_def split: option.splits)
  ultimately show ?case using Nil by (simp add: mkdir_all_rev.simps)
next
  case (snoc c q)
  note wf = snoc.prems(1) and pl = snoc.prems(3)
  have vq: "valid_path q" "valid_name c" "valid_path (q @ [c])" using snoc.prems(2) by simp_all
  have plq: "plain s q" using pl by (simp add: plain_snoc)
  let ?p = "abs_of (q @ [c])"
  show ?case
  proof (cases "os_stat s ?p")
    case (Inr n)
    then have n: "look s (q @ [c]) = Some n" using stat_plain [OF wf vq(3) pl] by simp
    then have "s' = s" "r = Inr () \<longleftrightarrow> u_body n = BDir"
      using snoc.prems(4) Inr by (auto simp: mkdir_all_rev.simps split: if_splits)
    then show ?thesis using n wf by (force simp: is_dir_at_def)
  next
    case (Inl e)
    then have none: "look s (q @ [c]) = None"
      using stat_plain [OF wf vq(3) pl] by (cases "look s (q @ [c])") auto
    obtain r1 s1 where one: "(if rev q = [] then (Inr (), s) else mkdir_all_rev True (rev q) m s) = (r1, s1)"
      by force
    have s1: "same_host s s1 \<and> wf_os s1 \<and> grown s m q s1 \<and> (r1 = Inr () \<longrightarrow> is_dir_at s1 q) \<and>
      (quiet s \<longrightarrow> (\<forall>p. prefix p q \<longrightarrow> look s p = None \<or> is_dir_at s p) \<longrightarrow> r1 = Inr ())"
    proof (cases "q = []")
      case True
      then show ?thesis using one wf wf_root by auto
    next
      case False
      then show ?thesis using one snoc.IH [OF wf vq(1) plq] by simp
    qed
    show ?thesis
    proof (cases r1)
      case (Inl e1)
      then have "r = Inl e1" "s' = s1"
        using snoc.prems(4) one \<open>os_stat s ?p = Inl e\<close> by (simp_all add: mkdir_all_rev.simps)
      then show ?thesis using s1 Inl by (auto simp: grown_weaken)
    next
      case (Inr u)
      then have d: "is_dir_at s1 q" and wf1: "wf_os s1" using s1 by simp_all
      have none1: "look s1 (q @ [c]) = None"
        using s1 none grown_other [of s m q s1 "q @ [c]"] by simp
      obtain r2 s2 where two: "os_mkdir ?p m s1 = (r2, s2)" by force
      note ms = mkdir_spec [OF wf1 d vq(2) two]
      have wf2: "wf_os s2" by (rule keeps_wfD [OF keeps_wf_mkdir wf1 two]) simp
      have host: "same_host s s2" using s1 ms same_host_trans by blast
      show ?thesis
      proof (cases r2)
        case (Inl e2)
        then have l: "look s2 = look s1" and nq: "\<not> quiet s1" using ms none1 by auto
        have "plain s2 q" using dir_plain [OF wf1 d] plain_cong [OF l] by simp
        then have "os_lstat s2 ?p = Inr n \<Longrightarrow> False" for n
          using lstat_snoc [OF wf2 vq(3), of n] l none1 by simp
        then have "os_lstat s2 ?p \<in> range Inl" by (cases "os_lstat s2 ?p") auto
        then have rs: "r = Inl e2" "s' = s2"
          using snoc.prems(4) one \<open>os_stat s ?p = Inl e\<close> Inr two Inl
          by (auto simp: mkdir_all_rev.simps [of True "c # _"])
        moreover have "\<not> quiet s" using nq s1 same_host_quiet [of s s1] by auto
        moreover have "grown s m (q @ [c]) s2"
          using s1 l by (auto simp: grown_def prefix_snoc)
        ultimately show ?thesis using wf2 host by simp
      next
        case (Inr u2)
        then have rs: "r = Inr ()" "s' = s2"
          using snoc.prems(4) one \<open>os_stat s ?p = Inl e\<close> \<open>r1 = Inr u\<close> two
          by (auto simp: mkdir_all_rev.simps [of True "c # _"])
        obtain n where n: "mk_node s1 (masked s1 (go_perm m)) BDir n" "look s2 = (look s1)(q @ [c] \<mapsto> n)"
          using ms Inr by auto
        have "grown s m (q @ [c]) s2"
          using grown_extend [OF _ _ none1 n(2,1)] s1 by blast
        moreover have "is_dir_at s2 (q @ [c])"
          using n by (simp add: is_dir_at_def mk_node_def)
        ultimately show ?thesis using rs wf2 host by simp
      qed
    qed
  qed
qed

lemma mkdir_all_spec:
  assumes "wf_os s" and "valid_path q" and "plain s q" and "os_mkdir_all (abs_of q) m s = (r, s')"
  shows "same_host s s'" and "wf_os s'" and "grown s m q s'" and "r = Inr () \<Longrightarrow> is_dir_at s' q"
    and "quiet s \<Longrightarrow> (\<And>p. prefix p q \<Longrightarrow> look s p = None \<or> is_dir_at s p) \<Longrightarrow> r = Inr ()"
  using mkdir_all_rev_spec [OF assms(1-3)] assms(2,4)
  by (simp_all add: os_mkdir_all_def path_elems_abs_of)

lemma mkdir_all_dir:
  assumes "wf_os s" and "is_dir_at s q"
  shows "os_mkdir_all (abs_of q) m s = (Inr (), s)"
proof -
  have v: "valid_path q" using assms wf_valid is_dir_look by blast
  obtain n where "os_stat s (abs_of q) = Inr n" "u_body n = BDir"
    using assms stat_plain [OF assms(1) v dir_plain [OF assms]]
    by (auto simp: is_dir_at_def split: option.splits)
  then show ?thesis
    using v by (simp add: os_mkdir_all_def path_elems_abs_of mkdir_all_rev.simps)
qed

section \<open>Rename, write, close\<close>

lemma not_below_file:
  assumes "wf_os s" and "is_dir_at s q" and "look s a = Some n" and "u_body n \<noteq> BDir"
  shows "\<not> prefix a q"
proof
  assume "prefix a q"
  then obtain r where q: "q = a @ r" by (auto simp: prefix_def)
  have "is_dir_at s a"
    using wf_prefix_dir [OF assms(1), of a r] is_dir_look [OF assms(2)] assms(2) q by (cases "r = []") auto
  then show False using assms(3,4) by (simp add: is_dir_at_def)
qed

lemma rename_spec:
  assumes wf: "wf_os s" and "is_dir_at s p" and "valid_name c" and "is_dir_at s q" and "valid_name d"
    and ne: "p @ [c] \<noteq> q @ [d]"
    and run: "os_rename (abs_of (p @ [c])) (abs_of (q @ [d])) s = (r, s')"
  shows "same_host s s' \<and>
    (quiet s \<longrightarrow> look s (p @ [c]) \<noteq> None \<longrightarrow> \<not> is_dir_at s (p @ [c]) \<longrightarrow>
       \<not> is_dir_at s (q @ [d]) \<longrightarrow> r = Inr ()) \<and>
    (case r of
       Inl e \<Rightarrow> look s' = look s
     | Inr _ \<Rightarrow> look s (p @ [c]) \<noteq> None \<and> \<not> is_dir_at s (q @ [d]) \<and> \<not> prefix (p @ [c]) (q @ [d]) \<and>
         (\<forall>k. look s' k = (if prefix (q @ [d]) k then look s ((p @ [c]) @ drop (length (q @ [d])) k)
           else if prefix (p @ [c]) k then None else look s k)))"
  using run [unfolded os_rename_def]
proof (cases rule: faulty_cases)
  case (run fs)
  let ?t = "s\<lparr>os_faults := fs\<rparr>" and ?a = "p @ [c]" and ?b = "q @ [d]"
  have wa: "walk_path ?t False (abs_of ?a) = Inr ?a" and wb: "walk_path ?t False (abs_of ?b) = Inr ?b"
    using assms by (auto intro!: walk_in_dir)
  have step: "sys_rename_at ?a ?b ?t = (r, s')" using run(1) wa wb by simp
  show ?thesis
  proof (cases "look s ?a")
    case None
    then show ?thesis using step run(2) by (auto simp: sys_rename_at_def)
  next
    case (Some n)
    have apart: "\<not> prefix ?a ?b" if "u_body n \<noteq> BDir"
      using not_below_file [OF wf assms(4) Some that] ne by (auto simp: prefix_snoc)
    have mv: "\<not> is_dir_at s ?b \<Longrightarrow> \<not> prefix ?a ?b \<Longrightarrow>
        map_of (move_nodes ?a ?b (os_nodes s)) k = (if prefix ?b k then look s (?a @ drop (length ?b) k)
          else if prefix ?a k then None else look s k)" for k
      by (rule look_move [OF wf])
    show ?thesis
      using step run(2) Some ne apart
      by (cases "u_body n = BDir")
        (auto simp: sys_rename_at_def mv is_dir_at_def [of _ ?a] split: if_splits)
  qed
qed auto

lemma write_spec:
  assumes "look s q = Some n" and "u_body n = BReg old" and "os_write q d s = (r, s')"
  shows "same_host s s' \<and>
    (case r of
       Inl e \<Rightarrow> look s' = look s \<and> faults s' < faults s
     | Inr w \<Rightarrow> w = length d \<and> look s' = (look s)(q \<mapsto> n\<lparr>u_body := BReg (old @ d)\<rparr>))"
  using assms(3) [unfolded os_write_def]
proof (cases rule: faulty_cases)
  case (run fs)
  then show ?thesis using assms(1,2) by (auto simp: look_set_node)
qed auto

lemma close_spec:
  "os_close q s = (r, s') \<Longrightarrow>
     same_host s s' \<and> look s' = look s \<and> (r = Inr () \<or> faults s' < faults s)"
  unfolding os_close_def by (erule faulty_cases) auto

lemma lstat_look:
  assumes "wf_os s" and "valid_path (q @ [c])" and "plain s q"
  shows "(case os_lstat s (abs_of (q @ [c])) of Inr n \<Rightarrow> Some n | Inl _ \<Rightarrow> None) = look s (q @ [c])"
    and "(case os_lstat s (abs_of (q @ [c])) of Inr _ \<Rightarrow> True | Inl _ \<Rightarrow> False) \<longleftrightarrow>
      look s (q @ [c]) \<noteq> None"
proof -
  show "(case os_lstat s (abs_of (q @ [c])) of Inr n \<Rightarrow> Some n | Inl _ \<Rightarrow> None) = look s (q @ [c])"
  proof (cases "os_lstat s (abs_of (q @ [c]))")
    case (Inr n)
    then show ?thesis using iffD1 [OF lstat_snoc [OF assms] Inr] by simp
  next
    case (Inl e)
    then show ?thesis using iffD2 [OF lstat_snoc [OF assms]] by (cases "look s (q @ [c])") auto
  qed
  then show "(case os_lstat s (abs_of (q @ [c])) of Inr _ \<Rightarrow> True | Inl _ \<Rightarrow> False) \<longleftrightarrow>
      look s (q @ [c]) \<noteq> None"
    by (cases "os_lstat s (abs_of (q @ [c]))") (auto dest: sym)
qed

lemma open_spec:
  assumes "wf_os s" and "is_dir_at s q" and "valid_name c" and "\<not> is_link_at s (q @ [c])"
    and "sys_open (abs_of (q @ [c])) flags m s = (r, s')"
  shows "same_host s s' \<and>
    (case r of
       Inl e \<Rightarrow> look s' = look s
     | Inr f \<Rightarrow> f = q @ [c] \<and> (\<exists>n. look s' = (look s)(q @ [c] \<mapsto> n))) \<and>
    (quiet s \<longrightarrow> has_flag flags O_CREAT \<longrightarrow> look s (q @ [c]) = None \<longrightarrow> r = Inr (q @ [c]))"
  using assms(5) [unfolded sys_open_def]
proof (cases rule: faulty_cases)
  case (run fs)
  let ?t = "s\<lparr>os_faults := fs\<rparr>"
  have w: "walk_path ?t f (abs_of (q @ [c])) = Inr (q @ [c])" for f
    using assms by (intro walk_follow_in_dir) (simp_all add: is_link_at_def)
  have "look s (q @ [c]) = Some n \<Longrightarrow> look s = (look s)(q @ [c] \<mapsto> n)" for n by auto
  then show ?thesis
    using run w add_node_look [of ?t "masked ?t m" "BReg []" "q @ [c]"]
    by (auto simp: sys_open_at_def look_set_node split: option.splits ubody.splits if_splits)
qed auto

text \<open>Nothing but a fault keeps a free name from being taken, or a node without entries from going.\<close>

lemma mkdir_fails:
  assumes "wf_os s" and "is_dir_at s q" and "valid_name c" and "look s (q @ [c]) = None"
    and "os_mkdir (abs_of (q @ [c])) m s = (Inl e, s')"
  shows "faults s' < faults s"
  using assms(5) [unfolded os_mkdir_def]
proof (cases rule: faulty_cases)
  case (run fs)
  have "walk_path (s\<lparr>os_faults := fs\<rparr>) False (abs_of (q @ [c])) = Inr (q @ [c])"
    using assms(1-3) by (intro walk_in_dir) simp_all
  then show ?thesis using run assms(4) by (simp add: sys_mkdir_at_def)
qed simp

lemma symlink_fails:
  assumes "wf_os s" and "is_dir_at s q" and "valid_name c" and "look s (q @ [c]) = None"
    and "os_symlink target (abs_of (q @ [c])) s = (Inl e, s')"
  shows "faults s' < faults s"
  using assms(5) [unfolded os_symlink_def]
proof (cases rule: faulty_cases)
  case (run fs)
  have "walk_path (s\<lparr>os_faults := fs\<rparr>) False (abs_of (q @ [c])) = Inr (q @ [c])"
    using assms(1-3) by (intro walk_in_dir) simp_all
  then show ?thesis using run assms(4) by simp
qed simp

lemma open_fails:
  assumes "wf_os s" and "is_dir_at s q" and "valid_name c" and "look s (q @ [c]) = None" and "has_flag flags O_CREAT"
    and "sys_open (abs_of (q @ [c])) flags m s = (Inl e, s')"
  shows "faults s' < faults s"
  using assms(6) [unfolded sys_open_def]
proof (cases rule: faulty_cases)
  case (run fs)
  have "\<not> is_link_at (s\<lparr>os_faults := fs\<rparr>) (q @ [c])" using assms(4) by (simp add: is_link_at_def)
  then have "walk_path (s\<lparr>os_faults := fs\<rparr>) f (abs_of (q @ [c])) = Inr (q @ [c])" for f
    using assms(1-3) by (intro walk_follow_in_dir) simp_all
  then show ?thesis using run assms(4,5) by (simp add: sys_open_at_def)
qed simp

lemma remove_fails:
  assumes "wf_os s" and "is_dir_at s q" and "valid_name c" and "look s (q @ [c]) \<noteq> None" and "\<not> has_entries s (q @ [c])"
    and "os_remove (abs_of (q @ [c])) s = (Inl e, s')"
  shows "faults s' < faults s"
  using assms(6) [unfolded os_remove_def]
proof (cases rule: faulty_cases)
  case (run fs)
  have "walk_path (s\<lparr>os_faults := fs\<rparr>) False (abs_of (q @ [c])) = Inr (q @ [c])"
    using assms(1-3) by (intro walk_in_dir) simp_all
  moreover have "has_entries (s\<lparr>os_faults := fs\<rparr>) k = has_entries s k" for k by (simp add: has_entries_iff)
  ultimately show ?thesis using run assms(4,5) by (auto simp: sys_remove_at_def split: if_splits option.splits)
qed simp

section \<open>Reading a directory\<close>

text \<open>Nothing but directories, or nothing at all, on the way to \<open>q\<close> and at it.\<close>

definition way :: "os \<Rightarrow> path \<Rightarrow> bool" where
  "way s q \<longleftrightarrow> (\<forall>p \<in> set (prefixes q). look s p = None \<or> is_dir_at s p)"

lemma wayD: "way s q \<Longrightarrow> prefix p q \<Longrightarrow> look s p = None \<or> is_dir_at s p"
  by (simp add: way_def)

lemma way_plain: "way s q \<Longrightarrow> plain s q"
proof -
  have "\<not> is_link_at s p" if "look s p = None" for p using that by (simp add: is_link_at_def)
  then show "way s q \<Longrightarrow> plain s q" using dir_not_link wayD unfolding plain_def by blast
qed

lemma dir_way:
  assumes "wf_os s" and "is_dir_at s q"
  shows "way s q"
  unfolding way_def
proof
  fix p assume "p \<in> set (prefixes q)"
  then obtain r where "q = p @ r" by (auto simp: prefix_def)
  then have "is_dir_at s p"
    using wf_prefix_dir [OF assms(1), of p r] is_dir_look [OF assms(2)] assms(2) by (cases "r = []") auto
  then show "look s p = None \<or> is_dir_at s p" by simp
qed

lemma resolve_way:
  "valid_path cs \<Longrightarrow> (\<And>p. prefix p cs \<Longrightarrow> look s (acc @ p) = None \<or> is_dir_at s (acc @ p)) \<Longrightarrow>
     resolve n fl (look s) acc cs = Inr (acc @ cs) \<or> resolve n fl (look s) acc cs = Inl ENOENT"
proof (induction cs arbitrary: acc)
  case (Cons c cs)
  have v: "valid_name c" "valid_path cs" using Cons.prems(1) by (simp_all add: valid_path_def)
  then have c: "c \<noteq> ''''" "c \<noteq> ''.''" "c \<noteq> ''..''" by (simp_all add: valid_name_def)
  have IH: "resolve n fl (look s) (acc @ [c]) cs = Inr ((acc @ [c]) @ cs) \<or>
      resolve n fl (look s) (acc @ [c]) cs = Inl ENOENT"
  proof (rule Cons.IH [OF v(2)])
    fix p assume "prefix p cs"
    then have "prefix (c # p) (c # cs)" by simp
    from Cons.prems(2) [OF this]
    show "look s ((acc @ [c]) @ p) = None \<or> is_dir_at s ((acc @ [c]) @ p)" by simp
  qed
  have "look s (acc @ [c]) = None \<or> is_dir_at s (acc @ [c])" using Cons.prems(2) [of "[c]"] by simp
  then show ?case using IH c by (auto simp: is_dir_at_def split: option.splits)
qed simp

lemma readdir_way:
  assumes "wf_os s" and "valid_path q" and "way s q"
  shows "os_readdir s (abs_of q) = (if look s q = None then Inl ENOENT else Inr (entry_names s q))"
proof -
  have "resolve max_links True (look s) [] q = Inr ([] @ q) \<or> resolve max_links True (look s) [] q = Inl ENOENT"
    by (rule resolve_way [OF assms(2)]) (use wayD [OF assms(3)] in simp)
  then have w: "walk_path s True (abs_of q) = Inr q \<or> walk_path s True (abs_of q) = Inl ENOENT"
    using walk_abs_of [OF assms(2)] by simp
  show ?thesis
  proof (cases "look s q")
    case None
    then show ?thesis using w by (auto simp: os_readdir_def)
  next
    case (Some n)
    then have "is_dir_at s q" using wayD [OF assms(3), of q] by simp
    moreover have "walk_path s True (abs_of q) = Inr q"
      using assms Some wf_butlast_dir [OF assms(1), of q] plain_self [OF way_plain [OF assms(3)]]
      by (intro walk_known) auto
    ultimately show ?thesis using Some by (simp add: os_readdir_def is_dir_at_def)
  qed
qed

end
