(* ===== verification/FsTree.thy ===== *)
theory FsTree
  imports GoPath
begin

text \<open>
  The inode tree of a committed state (tree.go): \<open>fileNode\<close>, \<open>fsTree\<close>, \<open>buildTree\<close> and the
  lookups by inode, by name and by path. The flat list of file entries comes from the fvs2
  repository package, so \<open>file_entry\<close> has the fields the daemon reads.

  \<open>view_of\<close> is the abstract specification: what a list of entries, read in order, says about
  every path. The inode numbers count up from 2; the counter is a natural number here, as a
  list of 2 to the 64 entries cannot be held.
\<close>

section \<open>Data\<close>

text \<open>Block identifiers are strings (the sources convert them to and from strings).\<close>

type_synonym block_id = string
type_synonym store = "block_id \<Rightarrow> gerror + bytes"

record file_entry =
  fe_path :: string
  fe_kind :: string
  fe_link :: string
  fe_mode :: u32
  fe_size :: int
  fe_blocks :: "block_id list"
  fe_block_sizes :: "int list"

record file_node =
  n_ino :: nat
  n_name :: string
  n_is_dir :: bool
  n_kind :: string
  n_link :: string
  n_mode :: u32
  n_size :: int
  n_blocks :: "block_id list"
  n_offsets :: "int list option"
  n_children :: "(string \<times> nat) list"
  n_child_order :: "nat list"

type_synonym nodes = "(nat \<times> file_node) list"

record fs_tree =
  t_nodes :: nodes
  t_block_size :: int
  t_store :: store

section \<open>Lookups\<close>

definition get_node :: "fs_tree \<Rightarrow> nat \<Rightarrow> file_node option" where
  "get_node t i = map_of (t_nodes t) i"

text \<open>\<open>lookup\<close>, on the nodes alone: 0 for no such entry.\<close>

definition child :: "nodes \<Rightarrow> nat \<Rightarrow> string \<Rightarrow> nat" where
  "child ns parent name =
     (case map_of ns parent of
        None \<Rightarrow> 0
      | Some p \<Rightarrow>
          if \<not> n_is_dir p then 0
          else (case map_of (n_children p) name of Some i \<Rightarrow> i | None \<Rightarrow> 0))"

definition lookup_tree :: "fs_tree \<Rightarrow> nat \<Rightarrow> string \<Rightarrow> nat" where
  "lookup_tree t parent name = child (t_nodes t) parent name"

text \<open>The loop over the components of a path, which stops at the first missing one.\<close>

fun descend :: "nodes \<Rightarrow> nat \<Rightarrow> string list \<Rightarrow> nat" where
  "descend ns i [] = i"
| "descend ns i (c # cs) = (let j = child ns i c in if j = 0 then 0 else descend ns j cs)"

definition node_at_path :: "nodes \<Rightarrow> string list \<Rightarrow> file_node option" where
  "node_at_path ns cs = (let i = descend ns 1 cs in if i = 0 then None else map_of ns i)"

text \<open>\<open>lookupTreePath\<close> of manager.go.\<close>

definition lookup_tree_path :: "fs_tree \<Rightarrow> string \<Rightarrow> file_node option" where
  "lookup_tree_path t clean =
     (if clean = '''' then get_node t 1
      else node_at_path (t_nodes t) (split_on slash clean))"

section \<open>Building the tree\<close>

record build =
  b_nodes :: nodes
  b_next :: nat
  b_blocks :: "(block_id \<times> block_id) list"

definition new_dir :: "nat \<Rightarrow> string \<Rightarrow> file_node" where
  "new_dir i name =
     \<lparr>n_ino = i, n_name = name, n_is_dir = True, n_kind = '''', n_link = '''', n_mode = 0x1ED,
      n_size = 0, n_blocks = [], n_offsets = None, n_children = [], n_child_order = []\<rparr>"

text \<open>\<open>t.nodes[i] = n; t.nodes[parent].children[name] = i\<close>\<close>

definition link_node :: "nodes \<Rightarrow> nat \<Rightarrow> string \<Rightarrow> nat \<Rightarrow> file_node \<Rightarrow> nodes" where
  "link_node ns parent name i n =
     (let ns' = AList.update i n ns in
      case map_of ns' parent of
        None \<Rightarrow> ns'
      | Some p \<Rightarrow>
          AList.update parent (p\<lparr>n_children := AList.update name i (n_children p)\<rparr>) ns')"

definition ensure_dir :: "build \<Rightarrow> nat \<Rightarrow> string \<Rightarrow> nat \<times> build" where
  "ensure_dir b parent name =
     (let i = child (b_nodes b) parent name in
      if i \<noteq> 0 \<and> (case map_of (b_nodes b) i of Some c \<Rightarrow> n_is_dir c | None \<Rightarrow> False)
      then (i, b)
      else (b_next b,
        b\<lparr>b_nodes := link_node (b_nodes b) parent name (b_next b) (new_dir (b_next b) name),
          b_next := Suc (b_next b)\<rparr>))"

fun ensure_dirs :: "build \<Rightarrow> nat \<Rightarrow> string list \<Rightarrow> nat \<times> build" where
  "ensure_dirs b parent [] = (parent, b)"
| "ensure_dirs b parent (c # cs) =
     (let (i, b') = ensure_dir b parent c in ensure_dirs b' i cs)"

text \<open>Equal block identifiers share one string: the loop replaces each by the first one seen.\<close>

fun intern_blocks ::
    "(block_id \<times> block_id) list \<Rightarrow> block_id list \<Rightarrow> block_id list \<times> (block_id \<times> block_id) list"
  where
  "intern_blocks m [] = ([], m)"
| "intern_blocks m (b # bs) =
     (case map_of m b of
        Some e \<Rightarrow> (let (r, m') = intern_blocks m bs in (e # r, m'))
      | None \<Rightarrow> (let (r, m') = intern_blocks (AList.update b b m) bs in (b # r, m')))"

fun offsets_from :: "int \<Rightarrow> int list \<Rightarrow> int list" where
  "offsets_from pos [] = []"
| "offsets_from pos (s # ss) = pos # offsets_from (i64 (pos + s)) ss"

definition leaf_node :: "nat \<Rightarrow> string \<Rightarrow> file_entry \<Rightarrow> file_node" where
  "leaf_node i leaf f =
     \<lparr>n_ino = i, n_name = leaf, n_is_dir = False, n_kind = fe_kind f, n_link = fe_link f,
      n_mode = fe_mode f,
      n_size = (if fe_link f \<noteq> '''' then int (length (fe_link f)) else fe_size f),
      n_blocks = fe_blocks f,
      n_offsets =
        (if length (fe_block_sizes f) = length (fe_blocks f) \<and> fe_blocks f \<noteq> []
         then Some (offsets_from 0 (fe_block_sizes f)) else None),
      n_children = [], n_child_order = []\<rparr>"

definition clean_path :: "file_entry \<Rightarrow> string" where
  "clean_path f = trim_char slash (fe_path f)"

text \<open>One round of the loop over the entries.\<close>

definition add_entry :: "file_entry \<Rightarrow> build \<Rightarrow> build" where
  "add_entry f b =
     (let clean = clean_path f in
      if clean = '''' then b
      else
        (let parts = split_on slash clean;
             (parent, b1) =
               ensure_dirs b 1 (if fe_kind f = ''dir'' then parts else butlast parts) in
         if fe_kind f = ''dir'' then
           (case map_of (b_nodes b1) parent of
              None \<Rightarrow> b1
            | Some n \<Rightarrow>
                b1\<lparr>b_nodes := AList.update parent
                     (n\<lparr>n_mode := (if fe_mode f = 0 then 0x1ED else fe_mode f)\<rparr>) (b_nodes b1)\<rparr>)
         else
           (let (blocks, m) = intern_blocks (b_blocks b1) (fe_blocks f) in
            \<lparr>b_nodes = link_node (b_nodes b1) parent (last parts) (b_next b1)
                (leaf_node (b_next b1) (last parts) (f\<lparr>fe_blocks := blocks\<rparr>)),
             b_next = Suc (b_next b1),
             b_blocks = m\<rparr>)))"

definition init_build :: build where
  "init_build = \<lparr>b_nodes = [(1, new_dir 1 '''')], b_next = 2, b_blocks = []\<rparr>"

text \<open>The children of every directory in the order of their names.\<close>

definition order_children :: "file_node \<Rightarrow> file_node" where
  "order_children n =
     (if \<not> n_is_dir n then n
      else n\<lparr>n_child_order :=
        map (\<lambda>name. case map_of (n_children n) name of Some i \<Rightarrow> i | None \<Rightarrow> 0)
          (sort (map fst (n_children n)))\<rparr>)"

definition build_tree :: "store \<Rightarrow> int \<Rightarrow> file_entry list \<Rightarrow> fs_tree" where
  "build_tree st bs files =
     \<lparr>t_nodes = map (\<lambda>(i, n). (i, order_children n)) (b_nodes (fold add_entry files init_build)),
      t_block_size = bs, t_store = st\<rparr>"

section \<open>The abstract view\<close>

text \<open>
  What a list of entries says about a path: a directory with its mode, or a leaf. An entry makes
  directories of everything above it, hides what was below it when it is a leaf, and the last
  word about a path counts.
\<close>

datatype ventry = VDir u32 | VLeaf file_entry

type_synonym view = "string list \<Rightarrow> ventry option"

definition view_dir :: "ventry option \<Rightarrow> ventry option" where
  "view_dir v = (case v of Some (VDir m) \<Rightarrow> Some (VDir m) | _ \<Rightarrow> Some (VDir 0x1ED))"

definition entry_parts :: "file_entry \<Rightarrow> string list" where
  "entry_parts f = comps (clean_path f)"

definition view_add :: "file_entry \<Rightarrow> view \<Rightarrow> view" where
  "view_add f v q =
     (let ps = entry_parts f in
      if ps = [] then v q
      else if strict_prefix q ps then view_dir (v q)
      else if q = ps then
        (if fe_kind f = ''dir'' then Some (VDir (if fe_mode f = 0 then 0x1ED else fe_mode f))
         else Some (VLeaf f))
      else if strict_prefix ps q \<and> fe_kind f \<noteq> ''dir'' then None
      else v q)"

definition view_of :: "file_entry list \<Rightarrow> view" where
  "view_of files = fold view_add files [[] \<mapsto> VDir 0x1ED]"

text \<open>The node a view entry stands for, without what depends on inode numbers.\<close>

definition erase :: "file_node \<Rightarrow> file_node" where
  "erase n = n\<lparr>n_ino := 0, n_children := [], n_child_order := []\<rparr>"

fun view_node :: "string list \<Rightarrow> ventry \<Rightarrow> file_node" where
  "view_node q (VDir m) = (new_dir 0 (if q = [] then '''' else last q))\<lparr>n_mode := m\<rparr>"
| "view_node q (VLeaf f) = leaf_node 0 (last q) f"

section \<open>The graph of inodes is a tree\<close>

definition wf_nodes :: "nodes \<Rightarrow> nat \<Rightarrow> bool" where
  "wf_nodes ns next \<longleftrightarrow>
     distinct (map fst ns) \<and> 1 < next \<and>
     (\<exists>r. map_of ns 1 = Some r \<and> n_is_dir r) \<and>
     (\<forall>i n. map_of ns i = Some n \<longrightarrow> 0 < i \<and> i < next \<and> n_ino n = i \<and>
        distinct (map fst (n_children n))) \<and>
     (\<forall>i c. child ns i c \<noteq> 0 \<longrightarrow> map_of ns (child ns i c) \<noteq> None \<and> child ns i c \<noteq> 1) \<and>
     (\<forall>i c j d. child ns i c = child ns j d \<longrightarrow> child ns i c \<noteq> 0 \<longrightarrow> i = j \<and> c = d)"

lemma wf_nodesD:
  assumes "wf_nodes ns next"
  shows wf_nodes_distinct: "distinct (map fst ns)"
    and wf_nodes_next: "1 < next"
    and wf_nodes_root: "\<exists>r. map_of ns 1 = Some r \<and> n_is_dir r"
    and wf_nodes_node: "map_of ns i = Some n \<Longrightarrow>
      0 < i \<and> i < next \<and> n_ino n = i \<and> distinct (map fst (n_children n))"
    and child_known: "child ns i c \<noteq> 0 \<Longrightarrow> map_of ns (child ns i c) \<noteq> None"
    and child_not_root: "child ns i c \<noteq> Suc 0"
    and child_inj: "child ns i c = child ns j d \<Longrightarrow> child ns i c \<noteq> 0 \<Longrightarrow> i = j \<and> c = d"
proof -
  note w = assms [unfolded wf_nodes_def]
  show "distinct (map fst ns)" using w by blast
  show "1 < next" using w by blast
  show "\<exists>r. map_of ns 1 = Some r \<and> n_is_dir r" using w by blast
  show "map_of ns i = Some n \<Longrightarrow>
      0 < i \<and> i < next \<and> n_ino n = i \<and> distinct (map fst (n_children n))" using w by blast
  show "child ns i c \<noteq> 0 \<Longrightarrow> map_of ns (child ns i c) \<noteq> None" using w by blast
  show "child ns i c \<noteq> Suc 0" using w by (cases "child ns i c = 0") auto
  show "child ns i c = child ns j d \<Longrightarrow> child ns i c \<noteq> 0 \<Longrightarrow> i = j \<and> c = d"
    using w by blast
qed

lemma wf_nodesI:
  assumes "distinct (map fst ns)" and "1 < next" and "\<exists>r. map_of ns 1 = Some r \<and> n_is_dir r"
    and "\<And>i n. map_of ns i = Some n \<Longrightarrow>
      0 < i \<and> i < next \<and> n_ino n = i \<and> distinct (map fst (n_children n))"
    and "\<And>i c. child ns i c \<noteq> 0 \<Longrightarrow> map_of ns (child ns i c) \<noteq> None \<and> child ns i c \<noteq> 1"
    and "\<And>i c j d. child ns i c = child ns j d \<Longrightarrow> child ns i c \<noteq> 0 \<Longrightarrow> i = j \<and> c = d"
  shows "wf_nodes ns next"
  using assms unfolding wf_nodes_def by blast

lemma wf_zero: "wf_nodes ns next \<Longrightarrow> map_of ns 0 = None"
  using wf_nodes_node [of ns "next" 0] by (cases "map_of ns 0") auto

lemma child_zero [simp]: "wf_nodes ns next \<Longrightarrow> child ns 0 c = 0"
  by (simp add: child_def wf_zero)

lemma descend_zero: "wf_nodes ns next \<Longrightarrow> descend ns 0 cs = 0"
  by (cases cs) (simp_all add: Let_def)

lemma descend_append:
  "wf_nodes ns next \<Longrightarrow> descend ns i (p @ q) = descend ns (descend ns i p) q"
  by (induction p arbitrary: i) (auto simp: Let_def descend_zero)

lemma descend_snoc:
  "wf_nodes ns next \<Longrightarrow> descend ns i (p @ [c]) = child ns (descend ns i p) c"
  by (simp add: descend_append Let_def)



lemma descend_known:
  "wf_nodes ns next \<Longrightarrow> descend ns 1 p \<noteq> 0 \<Longrightarrow> map_of ns (descend ns 1 p) \<noteq> None"
  using wf_nodes_root [of ns "next"]
  by (cases p rule: rev_cases) (auto simp: descend_snoc child_known)

lemma descend_root: "wf_nodes ns next \<Longrightarrow> descend ns 1 p = 1 \<longleftrightarrow> p = []"
  by (cases p rule: rev_cases) (auto simp: descend_snoc child_not_root)

lemma descend_inj:
  "wf_nodes ns next \<Longrightarrow> descend ns 1 p = descend ns 1 q \<Longrightarrow> descend ns 1 p \<noteq> 0 \<Longrightarrow> p = q"
proof (induction p arbitrary: q rule: rev_induct)
  case Nil
  then show ?case using descend_root [of ns "next" q] by auto
next
  case (snoc c p)
  then have "q \<noteq> []" using descend_root [of ns "next" "p @ [c]"] by auto
  then obtain q' d where q: "q = q' @ [d]" by (cases q rule: rev_cases) auto
  have "descend ns 1 p = descend ns 1 q' \<and> c = d"
    using child_inj [OF snoc.prems(1)] snoc.prems(2,3)
    unfolding q descend_snoc [OF snoc.prems(1)] by blast
  moreover have "descend ns 1 p \<noteq> 0"
    using snoc.prems(1,3) by (metis child_zero descend_snoc)
  ultimately show ?case using snoc.IH [of q'] snoc.prems(1) q by simp
qed

section \<open>Linking a fresh node\<close>

definition view_nodes :: "nodes \<Rightarrow> string list \<Rightarrow> file_node option" where
  "view_nodes ns q = map_option erase (node_at_path ns q)"

definition put_at :: "string list \<Rightarrow> 'a \<Rightarrow> (string list \<Rightarrow> 'a option) \<Rightarrow> string list \<Rightarrow> 'a option" where
  "put_at r x v q =
     (if q = r then Some x else if strict_prefix r q then None else v q)"

lemma view_nodes_none: "descend ns 1 q = 0 \<Longrightarrow> view_nodes ns q = None"
  by (simp add: view_nodes_def node_at_path_def)

lemma view_nodes_some:
  "wf_nodes ns next \<Longrightarrow> descend ns 1 q \<noteq> 0 \<Longrightarrow>
     view_nodes ns q = map_option erase (map_of ns (descend ns 1 q))"
  by (simp add: view_nodes_def node_at_path_def Let_def)

text \<open>The directory \<open>i\<close> at path \<open>r\<close> gets the fresh, childless node \<open>n\<close> under the name \<open>c\<close>.\<close>

definition fresh_link ::
    "nodes \<Rightarrow> nat \<Rightarrow> file_node \<Rightarrow> file_node \<Rightarrow> nat \<Rightarrow> string list \<Rightarrow> bool" where
  "fresh_link ns i parent n next r \<longleftrightarrow>
     wf_nodes ns next \<and> descend ns 1 r = i \<and> map_of ns i = Some parent \<and> n_is_dir parent \<and>
     n_children n = [] \<and> n_ino n = next"

lemma fresh_linkD:
  assumes "fresh_link ns i parent n next r"
  shows "wf_nodes ns next" "descend ns 1 r = i" "map_of ns i = Some parent" "n_is_dir parent"
    "n_children n = []" "n_ino n = next"
    and fresh_link_new: "map_of ns next = None"
    and fresh_link_ne: "i \<noteq> next" "i \<noteq> 0"
proof -
  show wf: "wf_nodes ns next" and at: "descend ns 1 r = i" "map_of ns i = Some parent"
    "n_is_dir parent" "n_children n = []" "n_ino n = next"
    using assms by (simp_all add: fresh_link_def)
  show new: "map_of ns next = None"
    using wf_nodes_node [OF wf, of "next"] by (cases "map_of ns next") auto
  show "i \<noteq> next" "i \<noteq> 0"
    using new at(2) wf_zero [OF wf] by (cases i; auto)+
qed

lemma map_of_link:
  assumes "fresh_link ns i parent n next r"
  shows "map_of (link_node ns i c next n) = (map_of ns)(next \<mapsto> n,
     i \<mapsto> parent\<lparr>n_children := AList.update c next (n_children parent)\<rparr>)"
  using fresh_linkD [OF assms] by (simp add: link_node_def Let_def update_conv')

lemma child_link:
  assumes "fresh_link ns i parent n next r"
  shows "child (link_node ns i c next n) a x =
    (if a = i \<and> x = c then next else if a = next then 0 else child ns a x)"
  using fresh_linkD [OF assms]
  by (auto simp: child_def map_of_link [OF assms] update_conv' split: option.splits)

lemma child_neq_next:
  "wf_nodes ns next \<Longrightarrow> map_of ns next = None \<Longrightarrow> child ns a x \<noteq> next"
  using child_known [of ns "next" a x] wf_nodes_next [of ns "next"]
  by (cases "child ns a x = 0") auto

lemma wf_link:
  assumes fl: "fresh_link ns i parent n next r"
  shows "wf_nodes (link_node ns i c next n) (Suc next)"
proof (rule wf_nodesI)
  note f = fresh_linkD [OF fl]
  note wf = f(1)
  show "distinct (map fst (link_node ns i c next n))"
    using wf_nodes_distinct [OF wf] f
    by (simp add: link_node_def Let_def update_conv' alist.ok_insert)
  show "1 < Suc next" using wf_nodes_next [OF wf] by simp
  show "\<exists>r. map_of (link_node ns i c next n) 1 = Some r \<and> n_is_dir r"
    using wf_nodes_root [OF wf] f by (auto simp: map_of_link [OF fl])
  show "0 < j \<and> j < Suc next \<and> n_ino m = j \<and> distinct (map fst (n_children m))"
    if m: "map_of (link_node ns i c next n) j = Some m" for j m
  proof -
    have "j = i \<or> (j = next \<and> j \<noteq> i \<and> m = n) \<or> (j \<noteq> i \<and> map_of ns j = Some m)"
      using m unfolding map_of_link [OF fl] by (cases "j = i"; cases "j = next"; simp)
    then consider "j = i" | "j = next" "j \<noteq> i" "m = n" | "j \<noteq> i" "map_of ns j = Some m"
      by blast
    then show ?thesis
    proof cases
      case 1
      then show ?thesis
        using m wf_nodes_node [OF wf f(3)] by (auto simp: map_of_link [OF fl] alist.ok_insert)
    next
      case 2
      then show ?thesis using f wf_nodes_next [OF wf] by simp
    next
      case 3
      then show ?thesis using wf_nodes_node [OF wf 3(2)] by auto
    qed
  qed
  show "map_of (link_node ns i c next n) (child (link_node ns i c next n) j x) \<noteq> None \<and>
      child (link_node ns i c next n) j x \<noteq> 1"
    if "child (link_node ns i c next n) j x \<noteq> 0" for j x
    using that child_known [OF wf, of j x] child_not_root [OF wf, of j x] wf_nodes_next [OF wf]
    by (auto simp: child_link [OF fl] map_of_link [OF fl] split: if_splits)
  show "j = k \<and> x = y"
    if "child (link_node ns i c next n) j x = child (link_node ns i c next n) k y"
      and "child (link_node ns i c next n) j x \<noteq> 0" for j x k y
    using that child_inj [OF wf, of j x k y] child_neq_next [OF wf f(7)]
    by (auto simp: child_link [OF fl] split: if_splits)
qed

lemma descend_link:
  assumes fl: "fresh_link ns i parent n next r"
  shows "descend (link_node ns i c next n) 1 q =
     (if q = r @ [c] then next else if strict_prefix (r @ [c]) q then 0 else descend ns 1 q)"
proof (induction q rule: rev_induct)
  note f = fresh_linkD [OF fl]
  note wf = f(1) and wf' = wf_link [OF fl, of c]
  case (snoc x q)
  have d: "descend (link_node ns i c next n) 1 (q @ [x]) =
      child (link_node ns i c next n) (descend (link_node ns i c next n) 1 q) x"
    by (rule descend_snoc [OF wf'])
  have old: "descend ns 1 q \<noteq> next"
    using descend_known [OF wf, of q] f(7) wf_nodes_next [OF wf]
    by (cases "descend ns 1 q = 0") auto
  consider (eq) "q = r @ [c]" | (below) "strict_prefix (r @ [c]) q"
    | (other) "q \<noteq> r @ [c]" "\<not> strict_prefix (r @ [c]) q"
    by blast
  then show ?case
  proof cases
    case eq
    then show ?thesis
      unfolding d snoc.IH using f by (auto simp: child_link [OF fl] strict_prefix_def)
  next
    case below
    then have "strict_prefix (r @ [c]) (q @ [x])" "q @ [x] \<noteq> r @ [c]" "q \<noteq> r @ [c]"
      by (auto simp: strict_prefix_def prefix_def)
    then show ?thesis
      unfolding d snoc.IH using below child_zero [OF wf', of x] by (simp only: if_True if_False)
  next
    case other
    have "\<not> strict_prefix (r @ [c]) (q @ [x])"
      using other by (auto simp: strict_prefix_snoc strict_prefix_def)
    moreover have "descend ns 1 q = i \<longleftrightarrow> q = r"
      using descend_inj [OF wf, of q r] f by auto
    ultimately show ?thesis
      unfolding d snoc.IH descend_snoc [OF wf]
      using other old by (auto simp: child_link [OF fl])
  qed
qed (auto simp: strict_prefix_def)

lemma view_link:
  assumes fl: "fresh_link ns i parent n next r"
  shows "view_nodes (link_node ns i c next n) = put_at (r @ [c]) (erase n) (view_nodes ns)"
proof
  note f = fresh_linkD [OF fl]
  note wf = f(1) and wf' = wf_link [OF fl, of c]
  fix q
  consider (eq) "q = r @ [c]" | (below) "strict_prefix (r @ [c]) q" "q \<noteq> r @ [c]"
    | (other) "q \<noteq> r @ [c]" "\<not> strict_prefix (r @ [c]) q"
    by blast
  then show "view_nodes (link_node ns i c next n) q =
      put_at (r @ [c]) (erase n) (view_nodes ns) q"
  proof cases
    case eq
    then have "descend (link_node ns i c next n) 1 q = next"
      unfolding descend_link [OF fl] by simp
    then show ?thesis
      using eq f wf_nodes_next [OF wf]
      by (simp add: view_nodes_some [OF wf'] put_at_def map_of_link [OF fl])
  next
    case below
    then have "descend (link_node ns i c next n) 1 q = 0"
      by (simp only: descend_link [OF fl] if_True if_False)
    then show ?thesis
      using below by (simp add: view_nodes_none put_at_def)
  next
    case other
    then have d: "descend (link_node ns i c next n) 1 q = descend ns 1 q"
      by (simp only: descend_link [OF fl] if_False)
    show ?thesis
    proof (cases "descend ns 1 q = 0")
      case True
      then show ?thesis using other d by (simp add: view_nodes_none put_at_def)
    next
      case False
      then have "map_option erase (map_of (link_node ns i c next n) (descend ns 1 q)) =
          map_option erase (map_of ns (descend ns 1 q))"
        using descend_known [OF wf False] f(3,7) by (auto simp: map_of_link [OF fl] erase_def)
      then show ?thesis
        using other d False view_nodes_some [OF wf False] view_nodes_some [OF wf', of q]
        by (simp add: put_at_def)
    qed
  qed
qed

section \<open>The tree refines the view\<close>

definition reps :: "nodes \<Rightarrow> view \<Rightarrow> bool" where
  "reps ns v \<longleftrightarrow> (\<forall>q. view_nodes ns q = map_option (view_node q) (v q))"

text \<open>In a view everything above an entry is a directory.\<close>

definition wf_view :: "view \<Rightarrow> bool" where
  "wf_view v \<longleftrightarrow>
     (\<exists>m. v [] = Some (VDir m)) \<and>
     (\<forall>q c. v (q @ [c]) \<noteq> None \<longrightarrow> (\<exists>m. v q = Some (VDir m)))"

lemma wf_view_above: "wf_view v \<Longrightarrow> v (q @ r) \<noteq> None \<Longrightarrow> r \<noteq> [] \<Longrightarrow> \<exists>m. v q = Some (VDir m)"
proof (induction r rule: rev_induct)
  case (snoc c r)
  then have "\<exists>m. v (q @ r) = Some (VDir m)"
    unfolding wf_view_def by (metis append_assoc)
  with snoc show ?case by (cases "r = []") auto
qed simp

lemma wf_view_below:
  "wf_view v \<Longrightarrow> \<nexists>m. v q = Some (VDir m) \<Longrightarrow> strict_prefix q p \<Longrightarrow> v p = None"
  using wf_view_above [of v q] by (auto simp: strict_prefix_def prefix_def)

definition view_mkdir :: "string list \<Rightarrow> view \<Rightarrow> view" where
  "view_mkdir r v =
     (case v r of Some (VDir m) \<Rightarrow> v | _ \<Rightarrow> put_at r (VDir 0x1ED) v)"

lemma put_at_eq: "wf_view v \<Longrightarrow> \<nexists>m. v r = Some (VDir m) \<Longrightarrow> put_at r x v = v(r \<mapsto> x)"
  unfolding put_at_def fun_upd_def using wf_view_below [of v r] by metis

lemma view_mkdir_eq:
  assumes "wf_view v"
  shows "view_mkdir r v = v(r := view_dir (v r))"
proof (cases "\<exists>m. v r = Some (VDir m)")
  case True
  then show ?thesis by (auto simp: view_mkdir_def view_dir_def)
next
  case False
  then have "view_mkdir r v = put_at r (VDir 0x1ED) v" "view_dir (v r) = Some (VDir 0x1ED)"
    by (auto simp: view_mkdir_def view_dir_def split: option.splits ventry.splits)
  then show ?thesis using put_at_eq [OF assms False] by simp
qed

lemma view_dir_simps [simp]:
  "view_dir x \<noteq> None"
  "view_dir (Some (VDir m)) = Some (VDir m)"
  by (auto simp: view_dir_def split: option.splits ventry.splits)

lemma view_dir_dir: "\<exists>m. view_dir x = Some (VDir m)"
  by (auto simp: view_dir_def split: option.splits ventry.splits)

lemma wf_view_mkdir:
  assumes wv: "wf_view v" and m: "v r = Some (VDir m)"
  shows "wf_view (view_mkdir (r @ [c]) v)"
proof -
  let ?v = "v(r @ [c] := view_dir (v (r @ [c])))"
  have "?v [] = v []" by simp
  moreover have "\<exists>m. ?v q = Some (VDir m)" if "?v (q @ [d]) \<noteq> None" for q d
  proof (cases "q = r @ [c]")
    case True
    then show ?thesis using view_dir_dir by simp
  next
    case False
    show ?thesis
    proof (cases "q = r")
      case True
      then show ?thesis using m by simp
    next
      case other: False
      then have "v (q @ [d]) \<noteq> None" using that by simp
      then show ?thesis using False wv unfolding wf_view_def fun_upd_apply by auto
    qed
  qed
  ultimately show ?thesis
    using wv unfolding view_mkdir_eq [OF wv] wf_view_def by simp
qed

fun view_dirs :: "view \<Rightarrow> string list \<Rightarrow> string list \<Rightarrow> view" where
  "view_dirs v r [] = v"
| "view_dirs v r (c # cs) = view_dirs (view_mkdir (r @ [c]) v) (r @ [c]) cs"

lemma view_mkdir_dir: "\<exists>m. view_mkdir r v r = Some (VDir m)"
  by (auto simp: view_mkdir_def put_at_def split: option.splits ventry.splits)

lemma view_dirs_eq:
  "wf_view v \<Longrightarrow> \<exists>m. v r = Some (VDir m) \<Longrightarrow>
     wf_view (view_dirs v r cs) \<and> (\<exists>m. view_dirs v r cs (r @ cs) = Some (VDir m)) \<and>
     (\<forall>q. view_dirs v r cs q =
       (if strict_prefix r q \<and> prefix q (r @ cs) then view_dir (v q) else v q))"
proof (induction cs arbitrary: v r)
  case Nil
  then show ?case by (auto simp: strict_prefix_def dest: prefix_order.antisym)
next
  case (Cons c cs)
  let ?v = "view_mkdir (r @ [c]) v"
  have IH: "wf_view (view_dirs ?v (r @ [c]) cs) \<and>
      (\<exists>m. view_dirs ?v (r @ [c]) cs ((r @ [c]) @ cs) = Some (VDir m)) \<and>
     (\<forall>q. view_dirs ?v (r @ [c]) cs q =
       (if strict_prefix (r @ [c]) q \<and> prefix q ((r @ [c]) @ cs) then view_dir (?v q) else ?v q))"
    using Cons.prems by (intro Cons.IH view_mkdir_dir) (auto intro: wf_view_mkdir)
  have v: "?v q = (if q = r @ [c] then view_dir (v q) else v q)" for q
    using view_mkdir_eq [OF Cons.prems(1), of "r @ [c]"] by simp
  have "strict_prefix r q \<and> prefix q (r @ c # cs) \<longleftrightarrow>
      q = r @ [c] \<or> strict_prefix (r @ [c]) q \<and> prefix q (r @ c # cs)" for q
    by (cases "prefix r q") (auto simp: strict_prefix_def prefix_def append_eq_append_conv2
        Cons_eq_append_conv append_eq_Cons_conv)
  then have "view_dirs ?v (r @ [c]) cs q =
      (if strict_prefix r q \<and> prefix q (r @ c # cs) then view_dir (v q) else v q)" for q
    using conjunct2 [OF conjunct2 [OF IH], rule_format, of q] v [of q]
    by (cases "q = r @ [c]") (simp_all add: strict_prefix_def)
  moreover have "view_dirs v r (c # cs) = view_dirs ?v (r @ [c]) cs" by simp
  moreover have "r @ c # cs = (r @ [c]) @ cs" by simp
  moreover note conjunct1 [OF IH] conjunct1 [OF conjunct2 [OF IH]]
  ultimately show ?case by metis
qed

lemma view_node_dir: "n_is_dir (view_node q x) \<longleftrightarrow> (\<exists>m. x = VDir m)"
  by (cases x; cases "q = []") (simp_all add: new_dir_def leaf_node_def)

lemma reps_dir:
  "reps ns v \<Longrightarrow> (\<exists>n. view_nodes ns q = Some n \<and> n_is_dir n) \<longleftrightarrow> (\<exists>m. v q = Some (VDir m))"
  by (auto simp del: view_node.simps simp: reps_def view_node_dir)

lemma reps_put:
  "reps ns v \<Longrightarrow> view_nodes ns' = put_at q (view_node q x) (view_nodes ns) \<Longrightarrow>
     reps ns' (put_at q x v)"
  by (auto simp: reps_def put_at_def)

definition wf_build :: "build \<Rightarrow> view \<Rightarrow> bool" where
  "wf_build b v \<longleftrightarrow>
     wf_nodes (b_nodes b) (b_next b) \<and> reps (b_nodes b) v \<and> wf_view v \<and>
     (\<forall>x y. map_of (b_blocks b) x = Some y \<longrightarrow> x = y)"

definition dir_here :: "nodes \<Rightarrow> string list \<Rightarrow> nat \<Rightarrow> bool" where
  "dir_here ns r i \<longleftrightarrow> descend ns 1 r = i \<and> (\<exists>p. map_of ns i = Some p \<and> n_is_dir p)"

lemma dir_here_view:
  assumes "wf_nodes ns next" and "reps ns v"
  shows "(\<exists>i. dir_here ns r i) \<longleftrightarrow> (\<exists>m. v r = Some (VDir m))"
proof -
  have "(\<exists>n. view_nodes ns r = Some n \<and> n_is_dir n) \<longleftrightarrow> (\<exists>i. dir_here ns r i)"
    using wf_zero [OF assms(1)]
    by (auto simp: view_nodes_def node_at_path_def dir_here_def Let_def erase_def)
  then show ?thesis using reps_dir [OF assms(2)] by simp
qed

lemma ensure_dir_spec:
  assumes "wf_build b v" and "dir_here (b_nodes b) r i" and "ensure_dir b i c = (j, b')"
  shows "wf_build b' (view_mkdir (r @ [c]) v) \<and> dir_here (b_nodes b') (r @ [c]) j"
proof -
  let ?ns = "b_nodes b"
  have wf: "wf_nodes ?ns (b_next b)" and rp: "reps ?ns v" and wv: "wf_view v"
    using assms(1) by (simp_all add: wf_build_def)
  obtain p where p: "descend ?ns 1 r = i" "map_of ?ns i = Some p" "n_is_dir p"
    using assms(2) by (auto simp: dir_here_def)
  have d: "descend ?ns 1 (r @ [c]) = child ?ns i c"
    using descend_snoc [OF wf, of 1 r c] p(1) by (simp only:)
  obtain m where m: "v r = Some (VDir m)"
    using dir_here_view [OF wf rp, of r] assms(2) by blast
  show ?thesis
  proof (cases "dir_here ?ns (r @ [c]) (child ?ns i c)")
    case True
    then have old: "j = child ?ns i c" "b' = b"
      using assms(3) wf_zero [OF wf]
      by (auto simp: ensure_dir_def Let_def dir_here_def split: if_splits)
    have "\<exists>m. v (r @ [c]) = Some (VDir m)"
      using dir_here_view [OF wf rp, of "r @ [c]"] True by blast
    then have "view_mkdir (r @ [c]) v = v" by (auto simp: view_mkdir_def)
    then show ?thesis using old True assms(1) by simp
  next
    case False
    then have no: "\<nexists>m. v (r @ [c]) = Some (VDir m)"
      using dir_here_view [OF wf rp, of "r @ [c]"] d by (auto simp: dir_here_def)
    have new: "j = b_next b"
        "b' = b\<lparr>b_nodes := link_node ?ns i c (b_next b) (new_dir (b_next b) c),
          b_next := Suc (b_next b)\<rparr>"
      using assms(3) False d by (auto simp: ensure_dir_def Let_def dir_here_def split: if_splits option.splits)
    have fl: "fresh_link ?ns i p (new_dir (b_next b) c) (b_next b) r"
      using wf p by (simp add: fresh_link_def new_dir_def)
    have "view_mkdir (r @ [c]) v = put_at (r @ [c]) (VDir 0x1ED) v"
      using no by (auto simp: view_mkdir_def split: option.splits ventry.splits)
    moreover have "erase (new_dir (b_next b) c) = view_node (r @ [c]) (VDir 0x1ED)"
      by (simp add: erase_def new_dir_def)
    ultimately have "reps (b_nodes b') (view_mkdir (r @ [c]) v)"
      using reps_put [OF rp, of "b_nodes b'"] view_link [OF fl, of c] new by simp
    moreover have "dir_here (b_nodes b') (r @ [c]) j"
      using descend_link [OF fl, of c "r @ [c]"] map_of_link [OF fl, of c] new fresh_linkD [OF fl]
      by (simp add: dir_here_def new_dir_def)
    ultimately show ?thesis
      using wf_link [OF fl, of c] wf_view_mkdir [OF wv m] new assms(1)
      by (simp add: wf_build_def)
  qed
qed

lemma ensure_dirs_spec:
  "wf_build b v \<Longrightarrow> dir_here (b_nodes b) r i \<Longrightarrow> ensure_dirs b i cs = (j, b') \<Longrightarrow>
     wf_build b' (view_dirs v r cs) \<and> dir_here (b_nodes b') (r @ cs) j"
proof (induction cs arbitrary: b v r i)
  case (Cons c cs)
  obtain k b1 where k: "ensure_dir b i c = (k, b1)" by force
  note s = ensure_dir_spec [OF Cons.prems(1,2) k]
  have "ensure_dirs b1 k cs = (j, b')" using Cons.prems(3) k by simp
  from Cons.IH [OF conjunct1 [OF s] conjunct2 [OF s] this]
  show ?case by simp
qed simp

lemma set_node_child:
  "map_of ns i = Some n \<Longrightarrow> n_is_dir n' = n_is_dir n \<Longrightarrow> n_children n' = n_children n \<Longrightarrow>
     child (AList.update i n' ns) = child ns"
  by (auto simp: child_def update_conv' fun_eq_iff split: option.splits)

lemma descend_cong: "child ns' = child ns \<Longrightarrow> descend ns' i q = descend ns i q"
  by (induction q arbitrary: i) (simp_all add: Let_def)

lemma set_node_wf:
  assumes wf: "wf_nodes ns next" and n: "map_of ns i = Some n"
    and n': "n_is_dir n' = n_is_dir n" "n_children n' = n_children n" "n_ino n' = n_ino n"
  shows "wf_nodes (AList.update i n' ns) next"
proof (rule wf_nodesI)
  note c = set_node_child [OF n n'(1,2)]
  show "distinct (map fst (AList.update i n' ns))"
    using wf_nodes_distinct [OF wf] by (rule alist.ok_insert)
  show "1 < next" by (rule wf_nodes_next [OF wf])
  show "\<exists>r. map_of (AList.update i n' ns) 1 = Some r \<and> n_is_dir r"
    using wf_nodes_root [OF wf] n n' by (auto simp: update_conv')
  show "0 < j \<and> j < next \<and> n_ino m = j \<and> distinct (map fst (n_children m))"
    if "map_of (AList.update i n' ns) j = Some m" for j m
    using that wf_nodes_node [OF wf, of j] n n' by (cases "j = i") (auto simp: update_conv')
  show "map_of (AList.update i n' ns) (child (AList.update i n' ns) j x) \<noteq> None \<and>
      child (AList.update i n' ns) j x \<noteq> 1" if "child (AList.update i n' ns) j x \<noteq> 0" for j x
    using that child_known [OF wf, of j x] child_not_root [OF wf, of j x]
    unfolding c by (auto simp: update_conv')
  show "j = k \<and> x = y"
    if "child (AList.update i n' ns) j x = child (AList.update i n' ns) k y"
      and "child (AList.update i n' ns) j x \<noteq> 0" for j x k y
    using that unfolding c by (rule child_inj [OF wf])
qed

lemma set_node_view:
  assumes wf: "wf_nodes ns next" and d: "descend ns 1 r = i" and n: "map_of ns i = Some n"
    and n': "n_is_dir n' = n_is_dir n" "n_children n' = n_children n" "n_ino n' = n_ino n"
  shows "view_nodes (AList.update i n' ns) = (view_nodes ns)(r \<mapsto> erase n')"
proof
  fix q
  have i: "i \<noteq> 0" using n wf_zero [OF wf] by (cases i) auto
  have dq: "descend (AList.update i n' ns) 1 q = descend ns 1 q"
    by (rule descend_cong [OF set_node_child [OF n n'(1,2)]])
  have r: "descend ns 1 q = i \<longleftrightarrow> q = r"
    using descend_inj [OF wf, of q r] d i by auto
  show "view_nodes (AList.update i n' ns) q = ((view_nodes ns)(r \<mapsto> erase n')) q"
  proof (cases "descend ns 1 q = 0")
    case True
    then show ?thesis using dq r i by (auto simp: view_nodes_none)
  next
    case False
    then show ?thesis
      using dq r by (auto simp: view_nodes_def node_at_path_def Let_def update_conv')
  qed
qed

lemma intern_blocks_id:
  "(\<And>x y. map_of m x = Some y \<Longrightarrow> x = y) \<Longrightarrow> intern_blocks m bs = (bs', m') \<Longrightarrow>
     bs' = bs \<and> (\<forall>x y. map_of m' x = Some y \<longrightarrow> x = y)"
proof (induction bs arbitrary: m bs')
  case (Cons b bs)
  show ?case
  proof (cases "map_of m b")
    case None
    then obtain r where r: "intern_blocks (AList.update b b m) bs = (r, m')" "bs' = b # r"
      using Cons.prems(2) by (auto split: prod.splits)
    have "\<And>x y. map_of (AList.update b b m) x = Some y \<Longrightarrow> x = y"
      using Cons.prems(1) by (auto simp: update_conv' split: if_splits)
    from Cons.IH [OF this r(1)] show ?thesis using r(2) by simp
  next
    case (Some e)
    then obtain r where r: "intern_blocks m bs = (r, m')" "bs' = e # r"
      using Cons.prems(2) by (auto split: prod.splits)
    show ?thesis using Cons.IH [OF Cons.prems(1) r(1)] Cons.prems(1) [OF Some] r(2) by simp
  qed
qed simp

lemma wf_view_root: "wf_view v \<Longrightarrow> \<exists>m. v [] = Some (VDir m)"
  by (simp add: wf_view_def)

lemma view_dirs_root:
  assumes "wf_view v"
  shows "view_dirs v [] cs = (\<lambda>q. if prefix q cs then view_dir (v q) else v q)"
    and "wf_view (view_dirs v [] cs)"
    and "\<exists>m. view_dirs v [] cs cs = Some (VDir m)"
  using view_dirs_eq [OF assms wf_view_root [OF assms], of cs] wf_view_root [OF assms]
  by (auto simp: fun_eq_iff strict_prefix_def)

lemma wf_view_set_dir:
  assumes wv: "wf_view v" and "v r = Some (VDir m)"
  shows "wf_view (v(r \<mapsto> VDir m'))"
  using assms unfolding wf_view_def by (simp add: fun_upd_apply) metis

lemma wf_view_put:
  assumes wv: "wf_view v" and d: "v r = Some (VDir m)"
  shows "wf_view (put_at (r @ [c]) x v)"
proof -
  have "put_at (r @ [c]) x v [] = v []" by (simp add: put_at_def)
  moreover have "\<exists>m. put_at (r @ [c]) x v q = Some (VDir m)"
    if a: "put_at (r @ [c]) x v (q @ [y]) \<noteq> None" for q y
  proof -
    have np: "\<not> strict_prefix (r @ [c]) (q @ [y])" "\<not> strict_prefix (r @ [c]) q" "q \<noteq> r @ [c]"
      using a by (auto simp: put_at_def strict_prefix_def prefix_def split: if_splits)
    show ?thesis
    proof (cases "q @ [y] = r @ [c]")
      case True
      then show ?thesis using d np by (simp add: put_at_def)
    next
      case False
      then have "v (q @ [y]) \<noteq> None" using a by (simp add: put_at_def split: if_splits)
      then have "\<exists>m. v q = Some (VDir m)" using wv unfolding wf_view_def by blast
      then show ?thesis using np by (simp add: put_at_def)
    qed
  qed
  ultimately show ?thesis using wv unfolding wf_view_def by metis
qed

lemma comps_ne: "s \<noteq> '''' \<Longrightarrow> comps s = split_on slash s"
  by (simp add: comps_def)

lemma add_dir_spec:
  assumes "wf_build b v" and "dir_here (b_nodes b) r i" and "map_of (b_nodes b) i = Some n"
  shows "wf_build (b\<lparr>b_nodes := AList.update i (n\<lparr>n_mode := m\<rparr>) (b_nodes b)\<rparr>) (v(r \<mapsto> VDir m))"
proof -
  let ?n = "n\<lparr>n_mode := m\<rparr>"
  have wf: "wf_nodes (b_nodes b) (b_next b)" and rp: "reps (b_nodes b) v" and wv: "wf_view v"
    using assms(1) by (simp_all add: wf_build_def)
  have d: "descend (b_nodes b) 1 r = i" "n_is_dir n"
    using assms(2,3) by (auto simp: dir_here_def)
  obtain m0 where m0: "v r = Some (VDir m0)"
    using dir_here_view [OF wf rp, of r] assms(2) by blast
  have "view_nodes (b_nodes b) r = Some (erase n)"
    using view_nodes_some [OF wf, of r] d assms(3) wf_zero [OF wf] by (cases i) auto
  then have "erase n = view_node r (VDir m0)"
    using rp m0 unfolding reps_def by (metis option.sel option.simps(9))
  then have "(erase n)\<lparr>n_mode := m\<rparr> = view_node r (VDir m)" by simp
  moreover have "erase ?n = (erase n)\<lparr>n_mode := m\<rparr>" by (cases n) (simp add: erase_def)
  ultimately have "erase ?n = view_node r (VDir m)" by simp
  then have "reps (AList.update i ?n (b_nodes b)) (v(r \<mapsto> VDir m))"
    using set_node_view [OF wf d(1) assms(3), of ?n] rp by (simp add: reps_def)
  then show ?thesis
    using set_node_wf [OF wf assms(3), of ?n] wf_view_set_dir [OF wv m0] assms(1)
    by (simp add: wf_build_def)
qed

lemma add_leaf_spec:
  assumes "wf_build b v" and "dir_here (b_nodes b) r i"
    and "\<And>x y. map_of m x = Some y \<Longrightarrow> x = y"
  shows "wf_build
    \<lparr>b_nodes = link_node (b_nodes b) i c (b_next b) (leaf_node (b_next b) c f),
     b_next = Suc (b_next b), b_blocks = m\<rparr> (put_at (r @ [c]) (VLeaf f) v)"
proof -
  have wf: "wf_nodes (b_nodes b) (b_next b)" and rp: "reps (b_nodes b) v" and wv: "wf_view v"
    using assms(1) by (simp_all add: wf_build_def)
  obtain p where p: "descend (b_nodes b) 1 r = i" "map_of (b_nodes b) i = Some p" "n_is_dir p"
    using assms(2) by (auto simp: dir_here_def)
  have fl: "fresh_link (b_nodes b) i p (leaf_node (b_next b) c f) (b_next b) r"
    using wf p by (simp add: fresh_link_def leaf_node_def)
  have "erase (leaf_node (b_next b) c f) = view_node (r @ [c]) (VLeaf f)"
    by (simp add: erase_def leaf_node_def)
  then have "reps (link_node (b_nodes b) i c (b_next b) (leaf_node (b_next b) c f))
      (put_at (r @ [c]) (VLeaf f) v)"
    using reps_put [OF rp] view_link [OF fl, of c] by simp
  moreover obtain k where "v r = Some (VDir k)"
    using dir_here_view [OF wf rp, of r] assms(2) by blast
  ultimately show ?thesis
    using wf_link [OF fl, of c] wf_view_put [OF wv] assms(3) by (simp add: wf_build_def)
qed

lemma view_add_dir:
  assumes "wf_view v" and "fe_kind f = ''dir''" and "entry_parts f \<noteq> []"
  shows "view_add f v = (view_dirs v [] (entry_parts f))
    (entry_parts f \<mapsto> VDir (if fe_mode f = 0 then 0x1ED else fe_mode f))"
  using assms(2,3) unfolding view_dirs_root(1) [OF assms(1)]
  by (auto simp: view_add_def fun_eq_iff Let_def strict_prefix_def)

lemma not_prefix_both [simp]: "prefix x r \<Longrightarrow> \<not> prefix (r @ [c]) x"
  by (auto simp: prefix_def)

lemma view_add_leaf:
  assumes "wf_view v" and "fe_kind f \<noteq> ''dir''" and "entry_parts f = r @ [c]"
  shows "view_add f v = put_at (r @ [c]) (VLeaf f) (view_dirs v [] r)"
  using assms(2) unfolding view_dirs_root(1) [OF assms(1)]
  by (auto simp: view_add_def put_at_def assms(3) fun_eq_iff Let_def strict_prefix_snoc
      strict_prefix_def)

lemma root_here: "wf_nodes ns next \<Longrightarrow> dir_here ns [] 1"
  using wf_nodes_root [of ns "next"] by (simp add: dir_here_def)

lemma add_entry_spec:
  assumes wb: "wf_build b v"
  shows "wf_build (add_entry f b) (view_add f v)"
proof (cases "clean_path f = ''''")
  case True
  then have "view_add f v = v"
    by (simp add: view_add_def entry_parts_def comps_def fun_eq_iff)
  then show ?thesis using wb True by (simp add: add_entry_def)
next
  case ne: False
  let ?ps = "split_on slash (clean_path f)"
  have ps: "entry_parts f = ?ps" using ne by (simp add: entry_parts_def comps_ne)
  have wf: "wf_nodes (b_nodes b) (b_next b)" and wv: "wf_view v"
    using wb by (simp_all add: wf_build_def)
  note here = root_here [OF wf]
  show ?thesis
  proof (cases "fe_kind f = ''dir''")
    case True
    obtain i b1 where e: "ensure_dirs b 1 ?ps = (i, b1)" by force
    have s: "wf_build b1 (view_dirs v [] ?ps)" "dir_here (b_nodes b1) ?ps i"
      using ensure_dirs_spec [OF wb here e] by simp_all
    then obtain n where n: "map_of (b_nodes b1) i = Some n" by (auto simp: dir_here_def)
    show ?thesis
      using add_dir_spec [OF s n] view_add_dir [OF wv True] ne True e n ps
      by (simp add: add_entry_def Let_def)
  next
    case False
    obtain i b1 where e: "ensure_dirs b 1 (butlast ?ps) = (i, b1)" by force
    have s: "wf_build b1 (view_dirs v [] (butlast ?ps))" "dir_here (b_nodes b1) (butlast ?ps) i"
      using ensure_dirs_spec [OF wb here e] by simp_all
    have bl: "\<And>x y. map_of (b_blocks b1) x = Some y \<Longrightarrow> x = y"
      using s(1) by (simp add: wf_build_def)
    obtain bs m where m: "intern_blocks (b_blocks b1) (fe_blocks f) = (bs, m)" by force
    have id: "bs = fe_blocks f" "\<And>x y. map_of m x = Some y \<Longrightarrow> x = y"
      using intern_blocks_id [OF bl m] by simp_all
    have "?ps = butlast ?ps @ [last ?ps]" by simp
    then have "view_add f v = put_at (butlast ?ps @ [last ?ps]) (VLeaf f)
        (view_dirs v [] (butlast ?ps))"
      using view_add_leaf [OF wv False] ps by metis
    then show ?thesis
      using add_leaf_spec [OF s id(2), where c = "last ?ps" and f = f] ne False e m id(1)
      by (simp add: add_entry_def Let_def)
  qed
qed

lemma init_build_spec: "wf_build init_build [[] \<mapsto> VDir 0x1ED]"
proof -
  have c: "child (b_nodes init_build) i c = 0" for i c
    by (simp add: child_def init_build_def new_dir_def)
  have "descend (b_nodes init_build) 1 q = (if q = [] then 1 else 0)" for q
    by (cases q) (simp_all add: c Let_def)
  then have "view_nodes (b_nodes init_build) q =
      (if q = [] then Some (erase (new_dir 1 '''')) else None)" for q
    by (simp add: view_nodes_def node_at_path_def init_build_def)
  then show ?thesis
    by (auto simp: wf_build_def wf_nodes_def c reps_def wf_view_def erase_def)
      (auto simp: init_build_def new_dir_def split: if_splits)
qed

lemma fold_add_entry:
  "wf_build b v \<Longrightarrow> wf_build (fold add_entry files b) (fold view_add files v)"
  by (induction files arbitrary: b v) (auto intro: add_entry_spec)

section \<open>The finished tree\<close>

lemma map_of_order:
  "map_of (map (\<lambda>(i, n). (i, order_children n)) ns) i = map_option order_children (map_of ns i)"
  by (induction ns) auto

lemma order_children_simps [simp]:
  "n_is_dir (order_children n) = n_is_dir n"
  "n_children (order_children n) = n_children n"
  "n_ino (order_children n) = n_ino n"
  "n_name (order_children n) = n_name n"
  "erase (order_children n) = erase n"
  by (simp_all add: order_children_def erase_def)

lemma child_order:
  "child (map (\<lambda>(i, n). (i, order_children n)) ns) = child ns"
  by (auto simp: child_def map_of_order fun_eq_iff split: option.splits)

lemma node_at_path_order:
  "node_at_path (map (\<lambda>(i, n). (i, order_children n)) ns) q =
     map_option order_children (node_at_path ns q)"
  by (simp add: node_at_path_def Let_def descend_cong [OF child_order] map_of_order)

lemma view_nodes_order: "view_nodes (map (\<lambda>(i, n). (i, order_children n)) ns) = view_nodes ns"
  by (simp add: view_nodes_def fun_eq_iff node_at_path_order option.map_comp comp_def)

lemma build_nodes:
  "wf_build (fold add_entry files init_build) (view_of files)"
  unfolding view_of_def by (rule fold_add_entry [OF init_build_spec])

lemma view_nodes_build:
  "view_nodes (t_nodes (build_tree st bs files)) q = map_option (view_node q) (view_of files q)"
  using build_nodes [of files] by (simp add: build_tree_def view_nodes_order wf_build_def reps_def)

lemma wf_nodes_order:
  "wf_nodes ns next \<Longrightarrow> wf_nodes (map (\<lambda>(i, n). (i, order_children n)) ns) next"
  unfolding wf_nodes_def child_order map_of_order
  by (simp add: comp_def case_prod_beta') fastforce

lemma wf_build_tree: "\<exists>next. wf_nodes (t_nodes (build_tree st bs files)) next"
  using build_nodes [of files] wf_nodes_order by (auto simp: build_tree_def wf_build_def)

lemma wf_view_of: "wf_view (view_of files)"
  using build_nodes [of files] by (simp add: wf_build_def)

lemma lookup_tree_path_comps:
  "lookup_tree_path t p = node_at_path (t_nodes t) (comps p)"
  by (simp add: lookup_tree_path_def comps_def get_node_def node_at_path_def)

text \<open>
  What a directory lists: its names in order, each with the node of the path below it.
\<close>

lemma sort_strict: "distinct xs \<Longrightarrow> sorted_wrt (<) (sort (xs :: string list))"
  by (simp add: strict_sorted_iff)

definition nonzero_build :: "build \<Rightarrow> bool" where
  "nonzero_build b \<longleftrightarrow> 0 < b_next b \<and>
     (\<forall>i n c. map_of (b_nodes b) i = Some n \<longrightarrow> map_of (n_children n) c \<noteq> Some 0)"

lemma nonzero_link:
  "nonzero_build b \<Longrightarrow> n_children n = [] \<Longrightarrow> nonzero_build
     \<lparr>b_nodes = link_node (b_nodes b) i c (b_next b) n, b_next = Suc (b_next b), b_blocks = m\<rparr>"
  by (auto simp: nonzero_build_def link_node_def Let_def update_conv' split: option.splits if_splits)

lemma nonzero_ensure_dir:
  "nonzero_build b \<Longrightarrow> nonzero_build (snd (ensure_dir b i c))"
  using nonzero_link [of b "new_dir (b_next b) c" i c "b_blocks b"]
  by (cases b) (simp add: ensure_dir_def Let_def new_dir_def)

lemma nonzero_ensure_dirs:
  "nonzero_build b \<Longrightarrow> nonzero_build (snd (ensure_dirs b i cs))"
proof (induction cs arbitrary: b i)
  case (Cons c cs)
  then show ?case
    using nonzero_ensure_dir [OF Cons.prems, of i c] by (simp add: case_prod_beta)
qed simp

lemma nonzero_add_entry: "nonzero_build b \<Longrightarrow> nonzero_build (add_entry f b)"
proof -
  assume nz: "nonzero_build b"
  let ?ps = "split_on slash (clean_path f)"
  obtain i b1 where e: "ensure_dirs b 1 (if fe_kind f = ''dir'' then ?ps else butlast ?ps) = (i, b1)"
    by force
  have b1: "nonzero_build b1" using nonzero_ensure_dirs [OF nz] e by (metis snd_conv)
  have "nonzero_build (b1\<lparr>b_nodes := AList.update i (n\<lparr>n_mode := m\<rparr>) (b_nodes b1)\<rparr>)"
    if "map_of (b_nodes b1) i = Some n" for n m
    using b1 that by (auto simp: nonzero_build_def update_conv')
  moreover have "nonzero_build
      \<lparr>b_nodes = link_node (b_nodes b1) i c (b_next b1) (leaf_node (b_next b1) c g),
       b_next = Suc (b_next b1), b_blocks = m\<rparr>" for c g m
    by (rule nonzero_link [OF b1]) (simp add: leaf_node_def)
  ultimately show ?thesis
    using nz b1 e unfolding add_entry_def Let_def by (auto split: option.splits prod.splits)
qed

lemma nonzero_build_tree:
  assumes "map_of (t_nodes (build_tree st bs files)) i = Some n"
  shows "map_of (n_children n) c \<noteq> Some 0"
proof -
  have "nonzero_build init_build"
    by (simp add: nonzero_build_def init_build_def new_dir_def)
  then have "nonzero_build (fold add_entry files init_build)"
    by (induction files rule: rev_induct) (auto intro: nonzero_add_entry)
  then show ?thesis
    using assms by (auto simp: build_tree_def map_of_order nonzero_build_def)
qed

text \<open>A directory found by its path, its number and its children.\<close>

lemma build_child:
  assumes n: "node_at_path (t_nodes (build_tree st bs files)) q = Some n" and d: "n_is_dir n"
  defines "ns \<equiv> t_nodes (build_tree st bs files)"
  shows "child ns (n_ino n) c = (case map_of (n_children n) c of Some i \<Rightarrow> i | None \<Rightarrow> 0)"
    and "map_of (n_children n) c = Some i \<Longrightarrow>
      (\<exists>m. map_of ns i = Some m \<and> n_name m = c \<and> node_at_path ns (q @ [c]) = Some m)"
    and "map_of (n_children n) c \<noteq> None \<longleftrightarrow> view_of files (q @ [c]) \<noteq> None"
proof -
  obtain nx where wf: "wf_nodes ns nx" using wf_build_tree ns_def by blast
  have at: "descend ns 1 q \<noteq> 0" "map_of ns (descend ns 1 q) = Some n"
    using n by (auto simp: node_at_path_def Let_def ns_def split: if_splits)
  then have ino: "n_ino n = descend ns 1 q" using wf_nodes_node [OF wf] by blast
  show ch: "child ns (n_ino n) c = (case map_of (n_children n) c of Some i \<Rightarrow> i | None \<Rightarrow> 0)"
    using at d ino by (simp add: child_def)
  have dc: "descend ns 1 (q @ [c]) = child ns (n_ino n) c"
    unfolding ino by (rule descend_snoc [OF wf])
  have nz: "map_of (n_children n) c \<noteq> Some 0"
    using nonzero_build_tree at(2) unfolding ns_def by blast
  show "map_of (n_children n) c \<noteq> None \<longleftrightarrow> view_of files (q @ [c]) \<noteq> None"
  proof -
    have "view_of files (q @ [c]) \<noteq> None \<longleftrightarrow> view_nodes ns (q @ [c]) \<noteq> None"
      unfolding ns_def view_nodes_build by simp
    also have "\<dots> \<longleftrightarrow> descend ns 1 (q @ [c]) \<noteq> 0"
      using descend_known [OF wf, of "q @ [c]"] view_nodes_some [OF wf, of "q @ [c]"]
        view_nodes_none [of ns "q @ [c]"]
      by (cases "descend ns 1 (q @ [c]) = 0") simp_all
    also have "\<dots> \<longleftrightarrow> map_of (n_children n) c \<noteq> None"
      unfolding dc ch using nz by (auto split: option.splits)
    finally show ?thesis by blast
  qed
  assume i: "map_of (n_children n) c = Some i"
  then have ci: "descend ns 1 (q @ [c]) = i" "i \<noteq> 0" unfolding dc ch using nz by auto
  then obtain m where m: "map_of ns i = Some m"
    using descend_known [OF wf, of "q @ [c]"] by auto
  have "view_nodes ns (q @ [c]) = Some (erase m)"
    using view_nodes_some [OF wf, of "q @ [c]"] ci m by simp
  then obtain x where "erase m = view_node (q @ [c]) x"
    using view_nodes_build [of st bs files "q @ [c]", folded ns_def]
    by (cases "view_of files (q @ [c])") (simp_all del: view_node.simps, metis)
  then have "n_name (erase m) = c" by (cases x) (simp_all add: new_dir_def leaf_node_def)
  then have "n_name m = c" by (simp add: erase_def)
  then show "\<exists>m. map_of ns i = Some m \<and> n_name m = c \<and> node_at_path ns (q @ [c]) = Some m"
    using m ci unfolding node_at_path_def Let_def by simp
qed

section \<open>What the overlay relies on\<close>

text \<open>The interface of a tree: a directory at the root, and the children of a directory are exactly
  the names that have a node below it.\<close>

locale tree_view =
  fixes t :: fs_tree
  assumes root_dir: "\<exists>n. get_node t 1 = Some n \<and> n_is_dir n"
    and children: "node_at_path (t_nodes t) q = Some n \<Longrightarrow> n_is_dir n \<Longrightarrow>
      map_of (n_children n) c \<noteq> None \<longleftrightarrow> node_at_path (t_nodes t) (q @ [c]) \<noteq> None"
begin

lemma child_names:
  "node_at_path (t_nodes t) q = Some n \<Longrightarrow> n_is_dir n \<Longrightarrow>
     set (map fst (n_children n)) = {c. node_at_path (t_nodes t) (q @ [c]) \<noteq> None}"
  using children [of q n] by (auto simp: map_of_eq_None_iff)

end

interpretation built: tree_view "build_tree st bs files" for st bs files
proof
  let ?t = "build_tree st bs files"
  show "\<exists>n. get_node ?t 1 = Some n \<and> n_is_dir n"
    using wf_build_tree [of st bs files] wf_nodes_root by (auto simp: get_node_def)
  fix q n c
  assume n: "node_at_path (t_nodes ?t) q = Some n" "n_is_dir n"
  have "view_nodes (t_nodes ?t) (q @ [c]) \<noteq> None \<longleftrightarrow> view_of files (q @ [c]) \<noteq> None"
    unfolding view_nodes_build by simp
  then show "map_of (n_children n) c \<noteq> None \<longleftrightarrow> node_at_path (t_nodes ?t) (q @ [c]) \<noteq> None"
    using build_child(3) [OF n] by (simp add: view_nodes_def)
qed

section \<open>Properties\<close>

lemma child_order_sorted:
  "n_is_dir (order_children n) \<Longrightarrow> n_child_order (order_children n) =
     map (\<lambda>c. case map_of (n_children (order_children n)) c of Some i \<Rightarrow> i | None \<Rightarrow> 0)
       (sort (map fst (n_children (order_children n))))"
  unfolding order_children_simps by (simp add: order_children_def)

lemma lookup_build_tree_comps:
  "map_option erase (lookup_tree_path (build_tree st bs files) p) =
     map_option (view_node (comps p)) (view_of files (comps p))"
  unfolding lookup_tree_path_comps view_nodes_def [symmetric] by (rule view_nodes_build)

text \<open>C6: looking up a path in the tree built from a list of file entries finds what the entries,
  read in order, say about the path: the leaf of the last entry at this path, a directory with
  the mode of the last directory entry (0755 when there is none), and nothing below a leaf or
  where no entry was. Holds for every list of entries, also with duplicates, entries below
  files, and paths that are not clean.\<close>

theorem lookup_build_tree:
  "map_option erase (lookup_tree_path (build_tree st bs files) p) =
     map_option (view_node (comps p)) (view_of files (comps p))"
  by (rule lookup_build_tree_comps)

text \<open>The listing of a directory, \<open>childOrder\<close>, has exactly the names the entries put there,
  each once and in increasing order, and every number in it is the node of that name.\<close>

theorem child_order_build_tree:
  assumes "lookup_tree_path (build_tree st bs files) p = Some n" and "n_is_dir n"
  shows "\<exists>names. sorted_wrt (<) names \<and>
    set names = {c. view_of files (comps p @ [c]) \<noteq> None} \<and>
    map (get_node (build_tree st bs files)) (n_child_order n) =
      map (\<lambda>c. node_at_path (t_nodes (build_tree st bs files)) (comps p @ [c])) names \<and>
    map (\<lambda>i. map_option n_name (get_node (build_tree st bs files) i)) (n_child_order n) =
      map Some names"
proof -
  let ?t = "build_tree st bs files" and ?names = "sort (map fst (n_children n))"
  have n: "node_at_path (t_nodes ?t) (comps p) = Some n"
    using assms(1) by (simp add: lookup_tree_path_comps)
  obtain nx where wf: "wf_nodes (t_nodes ?t) nx" using wf_build_tree by blast
  have in_map: "map_of (t_nodes ?t) (descend (t_nodes ?t) 1 (comps p)) = Some n"
    using n by (auto simp: node_at_path_def Let_def split: if_splits)
  then have "distinct (map fst (n_children n))" using wf_nodes_node [OF wf] by blast
  then have srt: "sorted_wrt (<) ?names" by (rule sort_strict)
  have names: "set ?names = {c. view_of files (comps p @ [c]) \<noteq> None}"
    using build_child(3) [OF n assms(2)] by (auto simp: map_of_eq_None_iff)
  have order: "n_child_order n =
      map (\<lambda>c. case map_of (n_children n) c of Some i \<Rightarrow> i | None \<Rightarrow> 0) ?names"
    using in_map assms(2) by (auto simp: build_tree_def map_of_order intro: child_order_sorted)
  have at: "get_node ?t (case map_of (n_children n) c of Some i \<Rightarrow> i | None \<Rightarrow> 0) =
        node_at_path (t_nodes ?t) (comps p @ [c]) \<and>
      map_option n_name (get_node ?t (case map_of (n_children n) c of Some i \<Rightarrow> i | None \<Rightarrow> 0)) =
        Some c" if "c \<in> set ?names" for c
  proof -
    obtain i where i: "map_of (n_children n) c = Some i"
      using \<open>c \<in> set ?names\<close> by (cases "map_of (n_children n) c") (auto simp: map_of_eq_None_iff)
    show ?thesis
      using build_child(2) [OF n assms(2) i] i
      by (auto simp: get_node_def)
  qed
  have "map (get_node ?t) (n_child_order n) =
      map (\<lambda>c. node_at_path (t_nodes ?t) (comps p @ [c])) ?names"
    unfolding order map_map comp_def by (rule map_cong [OF refl]) (use at in blast)
  moreover have "map (\<lambda>i. map_option n_name (get_node ?t i)) (n_child_order n) = map Some ?names"
    unfolding order map_map comp_def by (rule map_cong [OF refl]) (use at in blast)
  ultimately show ?thesis using srt names by blast
qed

text \<open>A file, a directory entry with a mode, and an implied directory.\<close>

definition file_at :: "string \<Rightarrow> file_entry" where
  "file_at p = \<lparr>fe_path = p, fe_kind = '''', fe_link = '''', fe_mode = 0x1A4, fe_size = 3,
     fe_blocks = [''b1''], fe_block_sizes = []\<rparr>"

definition dir_at :: "string \<Rightarrow> u32 \<Rightarrow> file_entry" where
  "dir_at p m = (file_at p)\<lparr>fe_kind := ''dir'', fe_mode := m, fe_size := 0, fe_blocks := []\<rparr>"

theorem child_order_build_tree_witness:
  "\<exists>names. sorted_wrt (<) names \<and>
    set names = {c. view_of [file_at ''d/z'', dir_at ''d'' 0x1C0, file_at ''d/a''] ([''d''] @ [c])
      \<noteq> None} \<and> length names = 2"
proof -
  let ?files = "[file_at ''d/z'', dir_at ''d'' 0x1C0, file_at ''d/a'']"
  let ?t = "build_tree (\<lambda>_. Inl BlockNotFound) 4096 ?files"
  have "map_option (\<lambda>n. (n_is_dir n, length (n_child_order n))) (lookup_tree_path ?t ''d'') =
      Some (True, 2)"
    by code_simp
  then obtain n where n: "lookup_tree_path ?t ''d'' = Some n" "n_is_dir n"
    "length (n_child_order n) = 2" by auto
  have "comps ''d'' = [''d'']" by code_simp
  with child_order_build_tree [OF n(1,2)] n(3) show ?thesis by (metis length_map)
qed

text \<open>C31: the inodes form a tree: a number belongs to one path, so two paths never share a node,
  and every node carries the number it is stored under.\<close>

theorem inode_of_one_path:
  assumes "lookup_tree_path (build_tree st bs files) p = Some n"
    and "lookup_tree_path (build_tree st bs files) q = Some m" and "n_ino n = n_ino m"
  shows "p = q \<and> n = m \<and> get_node (build_tree st bs files) (n_ino n) = Some n"
proof -
  let ?ns = "t_nodes (build_tree st bs files)"
  obtain nx where wf: "wf_nodes ?ns nx" using wf_build_tree by blast
  have at: "descend ?ns 1 (comps p) \<noteq> 0" "map_of ?ns (descend ?ns 1 (comps p)) = Some n"
    "map_of ?ns (descend ?ns 1 (comps q)) = Some m"
    using assms(1,2)
    by (auto simp: lookup_tree_path_comps node_at_path_def Let_def split: if_splits)
  then have ino: "descend ?ns 1 (comps p) = n_ino n" "descend ?ns 1 (comps q) = n_ino m"
    using wf_nodes_node [OF wf] by metis+
  then have "descend ?ns 1 (comps p) = descend ?ns 1 (comps q)" using assms(3) by simp
  from descend_inj [OF wf this at(1)] have "p = q" by simp
  then show ?thesis using assms(1,2) at(2) ino by (simp add: get_node_def)
qed

theorem inode_of_one_path_witness:
  "let t = build_tree (\<lambda>_. Inl BlockNotFound) 4096 [file_at ''d/z'', file_at ''d/a''] in
   map_option (\<lambda>n. get_node t (n_ino n) = Some n) (lookup_tree_path t ''d/z'') = Some True"
proof -
  let ?t = "build_tree (\<lambda>_. Inl BlockNotFound) 4096 [file_at ''d/z'', file_at ''d/a'']"
  have "map_option n_ino (lookup_tree_path ?t ''d/z'') = Some 3" by code_simp
  then obtain n where n: "lookup_tree_path ?t ''d/z'' = Some n" by auto
  show ?thesis using inode_of_one_path [OF n n refl] n by (simp add: Let_def)
qed

end
