(* ===== verification/GoText.thy ===== *)
theory GoText
  imports Prelude
begin

text \<open>
  Numbers as text: Go's \<open>strconv.Itoa\<close> and \<open>strconv.Atoi\<close>, and the binary search \<open>sort.Search\<close>.
\<close>

section \<open>Decimal numbers\<close>

definition digit :: "nat \<Rightarrow> char" where
  "digit n = char_of (48 + n)"

definition digit_val :: "char \<Rightarrow> nat option" where
  "digit_val c = (let n = (of_char c :: nat) in if 48 \<le> n \<and> n \<le> 57 then Some (n - 48) else None)"

fun itoa_nat :: "nat \<Rightarrow> string" where
  "itoa_nat n = (if n < 10 then [digit n] else itoa_nat (n div 10) @ [digit (n mod 10)])"

declare itoa_nat.simps [simp del]

definition itoa :: "int \<Rightarrow> string" where
  "itoa i = (if i < 0 then CHR ''-'' # itoa_nat (nat (- i)) else itoa_nat (nat i))"

text \<open>The digits read from the left; \<open>None\<close> when there is another character.\<close>

fun digits_val :: "nat \<Rightarrow> string \<Rightarrow> nat option" where
  "digits_val acc [] = Some acc"
| "digits_val acc (c # cs) =
     (case digit_val c of None \<Rightarrow> None | Some d \<Rightarrow> digits_val (10 * acc + d) cs)"

text \<open>\<open>Atoi\<close> takes an optional sign and at least one digit, and refuses what does not fit an
  \<open>int\<close>. \<open>None\<close> stands for its errors.\<close>

definition atoi :: "string \<Rightarrow> int option" where
  "atoi s =
     (let neg = (s \<noteq> [] \<and> hd s = CHR ''-'');
          body = (if s \<noteq> [] \<and> (hd s = CHR ''-'' \<or> hd s = CHR ''+'') then tl s else s) in
      if body = [] then None
      else (case digits_val 0 body of
              None \<Rightarrow> None
            | Some n \<Rightarrow>
                (let i = (if neg then - int n else int n) in
                 if - (2 ^ 63) \<le> i \<and> i < 2 ^ 63 then Some i else None)))"

lemma digit_val_digit [simp]: "n < 10 \<Longrightarrow> digit_val (digit n) = Some n"
  by (simp add: digit_val_def digit_def Let_def)

lemma digits_val_append:
  "digits_val a (s @ t) = (case digits_val a s of None \<Rightarrow> None | Some b \<Rightarrow> digits_val b t)"
  by (induction s arbitrary: a) (auto split: option.splits)

lemma digits_val_itoa: "digits_val 0 (itoa_nat n) = Some n"
proof (induction n rule: less_induct)
  case (less n)
  show ?case
  proof (cases "n < 10")
    case False
    then have "digits_val 0 (itoa_nat n) = Some (10 * (n div 10) + n mod 10)"
      using less [of "n div 10"] by (subst itoa_nat.simps) (simp add: digits_val_append)
    then show ?thesis by simp
  qed (subst itoa_nat.simps, simp)
qed

lemma itoa_nat_ne: "itoa_nat n \<noteq> []"
  by (subst itoa_nat.simps) simp

lemma digit_signs: "n < 10 \<Longrightarrow> digit n \<noteq> CHR ''-'' \<and> digit n \<noteq> CHR ''+''"
  by (auto dest!: arg_cong [where f = digit_val]) (simp_all add: digit_val_def)

lemma itoa_nat_hd: "hd (itoa_nat n) \<noteq> CHR ''-'' \<and> hd (itoa_nat n) \<noteq> CHR ''+''"
proof (induction n rule: less_induct)
  case (less n)
  show ?case
    using less [of "n div 10"] itoa_nat_ne [of "n div 10"] digit_signs [of n]
    by (subst itoa_nat.simps, subst (2) itoa_nat.simps) simp
qed

lemma atoi_itoa: "- (2 ^ 63) \<le> i \<Longrightarrow> i < 2 ^ 63 \<Longrightarrow> atoi (itoa i) = Some i"
  using itoa_nat_ne [of "nat i"] itoa_nat_ne [of "nat (- i)"] itoa_nat_hd [of "nat i"]
  by (auto simp: atoi_def itoa_def digits_val_itoa Let_def)

lemma itoa_nat_inj: "itoa_nat m = itoa_nat n \<Longrightarrow> m = n"
  by (metis digits_val_itoa option.inject)

lemma itoa_inj: "itoa i = itoa j \<Longrightarrow> i = j"
proof (cases "i < 0"; cases "j < 0")
  assume "itoa i = itoa j" "i < 0" "j < 0"
  then have "nat (- i) = nat (- j)" by (intro itoa_nat_inj) (simp add: itoa_def)
  then show "i = j" using \<open>i < 0\<close> \<open>j < 0\<close> by simp
next
  assume "itoa i = itoa j" "\<not> i < 0" "\<not> j < 0"
  then have "nat i = nat j" by (intro itoa_nat_inj) (simp add: itoa_def)
  then show "i = j" using \<open>\<not> i < 0\<close> \<open>\<not> j < 0\<close> by simp
next
  assume "itoa i = itoa j" "i < 0" "\<not> j < 0"
  then have "itoa_nat (nat j) = CHR ''-'' # itoa_nat (nat (- i))" by (simp add: itoa_def)
  then show "i = j" using itoa_nat_hd [of "nat j"] by simp
next
  assume "itoa i = itoa j" "\<not> i < 0" "j < 0"
  then have "itoa_nat (nat i) = CHR ''-'' # itoa_nat (nat (- j))" by (simp add: itoa_def)
  then show "i = j" using itoa_nat_hd [of "nat i"] by simp
qed

section \<open>Binary search\<close>

text \<open>\<open>sort.Search\<close>: the least index below \<open>n\<close> where a monotone predicate holds.\<close>

function search :: "(nat \<Rightarrow> bool) \<Rightarrow> nat \<Rightarrow> nat \<Rightarrow> nat" where
  "search f i j =
     (if i < j then (let h = (i + j) div 2 in if \<not> f h then search f (Suc h) j else search f i h)
      else i)"
  by auto
termination by (relation "measure (\<lambda>(f, i, j). j - i)") auto

declare search.simps [simp del]

lemma search_least:
  assumes mono: "\<And>a b. a \<le> b \<Longrightarrow> b < n \<Longrightarrow> f a \<Longrightarrow> f b"
    and "i \<le> j" and "j \<le> n"
    and "\<And>k. k < i \<Longrightarrow> \<not> f k" and "\<And>k. j \<le> k \<Longrightarrow> k < n \<Longrightarrow> f k"
  shows "search f i j \<le> n \<and> (\<forall>k < search f i j. \<not> f k) \<and>
    (\<forall>k. search f i j \<le> k \<longrightarrow> k < n \<longrightarrow> f k)"
  using assms(2-5)
proof (induction "j - i" arbitrary: i j rule: less_induct)
  case less
  show ?case
  proof (cases "i < j")
    case False
    then have "search f i j = i" by (subst search.simps) simp
    then show ?thesis using less.prems False by auto
  next
    case True
    let ?h = "(i + j) div 2"
    have h: "i \<le> ?h" "?h < j" using True by auto
    show ?thesis
    proof (cases "f ?h")
      case t: True
      have eq: "search f i j = search f i ?h"
        using True t by (subst search.simps) (simp add: Let_def)
      have up: "f k" if "?h \<le> k" "k < n" for k using mono [OF that t] .
      have "?h - i < j - i" "?h \<le> n" using h less.prems(2) by linarith+
      then show ?thesis
        unfolding eq by (rule less.hyps [OF _ h(1) _ less.prems(3) up])
    next
      case f: False
      have eq: "search f i j = search f (Suc ?h) j"
        using True f by (subst search.simps) (simp add: Let_def)
      have down: "\<not> f k" if "k < Suc ?h" for k
      proof
        assume "f k"
        moreover have "k \<le> ?h" "?h < n" using that h less.prems(2) by linarith+
        ultimately show False using mono [of k ?h] f by blast
      qed
      have "j - Suc ?h < j - i" "Suc ?h \<le> j" using h by linarith+
      then show ?thesis
        unfolding eq by (rule less.hyps [OF _ _ less.prems(2) down less.prems(4)])
    qed
  qed
qed

lemma search_all:
  assumes "\<And>a b. a \<le> b \<Longrightarrow> b < n \<Longrightarrow> f a \<Longrightarrow> f b"
  shows "search f 0 n \<le> n \<and> (\<forall>k < search f 0 n. \<not> f k) \<and>
    (\<forall>k. search f 0 n \<le> k \<longrightarrow> k < n \<longrightarrow> f k)"
  by (rule search_least [OF assms]) simp_all

end
