(* ===== verification/ReadAt.thy ===== *)
theory ReadAt
  imports FsTree GoText
begin

text \<open>
  Reading a committed file (tree.go): \<open>multiStore.Get\<close>, \<open>fsTree.readAt\<close> for files with blocks of
  one size and \<open>fsTree.readAtVariable\<close> for files with recorded block sizes. The loops recurse
  over the blocks not read yet; offsets are 64 bit integers that wrap. A result \<open>Inr\<close> is the
  bytes with a nil error.
\<close>

section \<open>Block stores\<close>

fun multi_store_from :: "gerror option \<Rightarrow> store list \<Rightarrow> store" where
  "multi_store_from err [] b = Inl (case err of None \<Rightarrow> BlockNotFound | Some e \<Rightarrow> e)"
| "multi_store_from err (s # ss) b =
     (case s b of Inr data \<Rightarrow> Inr data | Inl e \<Rightarrow> multi_store_from (Some e) ss b)"

definition multi_store :: "store list \<Rightarrow> store" where
  "multi_store = multi_store_from None"

section \<open>Reading\<close>

text \<open>The part of one block that lies in the range, or the error of the range check.\<close>

definition block_part :: "int \<Rightarrow> int \<Rightarrow> int \<Rightarrow> int \<Rightarrow> bytes \<Rightarrow> gerror + bytes" where
  "block_part off end bi blk_start data =
     (let from = (if off > blk_start then i64 (off - blk_start) else 0);
          to = (if i64 (blk_start + int (length data)) > end then i64 (end - blk_start)
                else int (length data)) in
      if from < 0 \<or> to > int (length data) \<or> from > to
      then Inl (Msg (''block '' @ itoa bi @ '' out of range''))
      else Inr (drop (nat from) (take (nat to) data)))"

fun read_fixed ::
    "store \<Rightarrow> int \<Rightarrow> int \<Rightarrow> int \<Rightarrow> int \<Rightarrow> block_id list \<Rightarrow> bytes \<Rightarrow> gerror + bytes" where
  "read_fixed st bs off end bi [] out = Inr out"
| "read_fixed st bs off end bi (b # rest) out =
     (let blk_start = i64 (bi * bs) in
      if blk_start \<ge> end then Inr out
      else (case st b of
              Inl e \<Rightarrow> Inl e
            | Inr data \<Rightarrow>
                (case block_part off end bi blk_start data of
                   Inl e \<Rightarrow> Inl e
                 | Inr part \<Rightarrow> read_fixed st bs off end (bi + 1) rest (out @ part))))"

text \<open>The loop of \<open>readAtVariable\<close>, over the blocks paired with their offsets.\<close>

fun read_variable ::
    "store \<Rightarrow> int \<Rightarrow> int \<Rightarrow> int \<Rightarrow> (int \<times> block_id) list \<Rightarrow> bytes \<Rightarrow> gerror + bytes" where
  "read_variable st off end bi [] out = Inr out"
| "read_variable st off end bi ((blk_start, b) # rest) out =
     (if blk_start \<ge> end then Inr out
      else (case st b of
              Inl e \<Rightarrow> Inl e
            | Inr data \<Rightarrow>
                (case block_part off end bi blk_start data of
                   Inl e \<Rightarrow> Inl e
                 | Inr part \<Rightarrow> read_variable st off end (bi + 1) rest (out @ part))))"

definition read_at_variable ::
    "fs_tree \<Rightarrow> file_node \<Rightarrow> int list \<Rightarrow> int \<Rightarrow> int \<Rightarrow> gerror + bytes" where
  "read_at_variable t n offsets off end =
     (let bi = search (\<lambda>i. offsets ! i > off) 0 (length offsets) - 1 in
      read_variable (t_store t) off end (int bi) (drop bi (zip offsets (n_blocks n))) [])"

definition read_at :: "fs_tree \<Rightarrow> file_node \<Rightarrow> int \<Rightarrow> int \<Rightarrow> gerror + bytes" where
  "read_at t n off len =
     (if n_is_dir n \<or> off < 0 \<or> off \<ge> n_size n \<or> len \<le> 0 then Inr []
      else
        (let end0 = i64 (off + len);
             end = (if end0 > n_size n then n_size n else end0) in
         case n_offsets n of
           Some offsets \<Rightarrow> read_at_variable t n offsets off end
         | None \<Rightarrow>
             (let bs = (if t_block_size t \<le> 0 then 4096 else t_block_size t);
                  bi = off div bs in
              read_fixed (t_store t) bs off end bi (drop (nat bi) (n_blocks n)) [])))"

section \<open>One loop for both layouts\<close>

text \<open>The starts of the blocks from \<open>bi\<close> on, as both loops compute them.\<close>

fun fixed_starts :: "int \<Rightarrow> int \<Rightarrow> block_id list \<Rightarrow> (int \<times> block_id) list" where
  "fixed_starts bs bi [] = []"
| "fixed_starts bs bi (b # rest) = (i64 (bi * bs), b) # fixed_starts bs (bi + 1) rest"

lemma read_fixed_variable:
  "read_fixed st bs off end bi blocks out =
     read_variable st off end bi (fixed_starts bs bi blocks) out"
  by (induction blocks arbitrary: bi out)
    (auto simp: Let_def split: sum.splits)

text \<open>\<open>holds st starts ds s\<close>: the store has the data \<open>ds\<close> for the blocks, which follow each other
  from \<open>s\<close> on.\<close>

fun holds :: "store \<Rightarrow> (int \<times> block_id) list \<Rightarrow> bytes list \<Rightarrow> int \<Rightarrow> bool" where
  "holds st [] [] s = True"
| "holds st ((p, b) # rest) (d # ds) s =
     (p = s \<and> st b = Inr d \<and> holds st rest ds (s + int (length d)))"
| "holds st _ _ s = False"

lemma block_part_ok:
  assumes "0 \<le> off" "0 \<le> s" "off \<le> end" "s < end" "off \<le> s + int (length d)"
    and "s + int (length d) < 2 ^ 63" "end < 2 ^ 63"
  shows "block_part off end bi s d = Inr (drop (nat (off - s)) (take (nat (end - s)) d))"
proof -
  have "i64 (s + int (length d)) = s + int (length d)" "i64 (end - s) = end - s"
    "off > s \<Longrightarrow> i64 (off - s) = off - s"
    using assms by (auto intro!: i64_nat_id)
  then show ?thesis
    using assms by (auto simp: block_part_def Let_def)
qed

lemma read_variable_ok:
  "holds st starts ds s \<Longrightarrow> 0 \<le> off \<Longrightarrow> 0 \<le> s \<Longrightarrow> off \<le> end \<Longrightarrow>
     (ds \<noteq> [] \<Longrightarrow> off \<le> s + int (length (hd ds))) \<Longrightarrow>
     s + int (length (concat ds)) < 2 ^ 63 \<Longrightarrow> end < 2 ^ 63 \<Longrightarrow>
     read_variable st off end bi starts out =
       Inr (out @ drop (nat (off - s)) (take (nat (end - s)) (concat ds)))"
proof (induction st starts ds s arbitrary: bi out rule: holds.induct)
  case (2 st p b rest d ds s)
  then have p: "p = s" "st b = Inr d" "holds st rest ds (s + int (length d))" by simp_all
  show ?case
  proof (cases "s < end")
    case False
    then show ?thesis using p by simp
  next
    case True
    have part: "block_part off end bi s d = Inr (drop (nat (off - s)) (take (nat (end - s)) d))"
      using 2 True by (intro block_part_ok) auto
    have "read_variable st off end (bi + 1) rest
        (out @ drop (nat (off - s)) (take (nat (end - s)) d)) =
      Inr ((out @ drop (nat (off - s)) (take (nat (end - s)) d)) @
        drop (nat (off - (s + int (length d)))) (take (nat (end - (s + int (length d)))) (concat ds)))"
      by (rule "2.IH" [OF p(3)]) (use "2.prems" in auto)
    moreover have "nat (off - s) \<le> length d"
      "nat (end - (s + int (length d))) = nat (end - s) - length d"
      "nat (off - (s + int (length d))) = 0"
      using 2 by auto
    moreover have "drop (nat (off - s)) (take (nat (end - s)) d) @
        take (nat (end - s) - length d) (concat ds) =
      drop (nat (off - s)) (take (nat (end - s)) (d @ concat ds))"
    proof (cases "nat (off - s) \<le> length (take (nat (end - s)) d)")
      case True
      then show ?thesis by simp
    next
      case False
      then show ?thesis using 2(5) \<open>nat (off - s) \<le> length d\<close> by auto
    qed
    ultimately show ?thesis using p part True by simp
  qed
qed simp_all

section \<open>What a stored file contains\<close>

definition block_data :: "store \<Rightarrow> block_id list \<Rightarrow> bytes list option" where
  "block_data st blocks =
     those (map (\<lambda>b. case st b of Inr d \<Rightarrow> Some d | Inl _ \<Rightarrow> None) blocks)"

fun uniform :: "int \<Rightarrow> bytes list \<Rightarrow> bool" where
  "uniform bs [] = True"
| "uniform bs [d] = (int (length d) \<le> bs)"
| "uniform bs (d # ds) = (int (length d) = bs \<and> uniform bs ds)"

definition effective_bs :: "int \<Rightarrow> int" where
  "effective_bs bs = (if bs \<le> 0 then 4096 else bs)"

text \<open>The entry's blocks are in the store and put together are \<open>content\<close>: with recorded sizes
  block by block, else in blocks of the state's block size.\<close>

definition stored :: "store \<Rightarrow> int \<Rightarrow> file_entry \<Rightarrow> bytes \<Rightarrow> bool" where
  "stored st bs f content \<longleftrightarrow>
     fe_link f = '''' \<and> fe_size f = int (length content) \<and> int (length content) < 2 ^ 63 \<and>
     (case block_data st (fe_blocks f) of
        None \<Rightarrow> False
      | Some ds \<Rightarrow> content = concat ds \<and>
          (if length (fe_block_sizes f) = length (fe_blocks f) \<and> fe_blocks f \<noteq> []
           then fe_block_sizes f = map (int \<circ> length) ds
           else uniform (effective_bs bs) ds))"

lemma block_data_Cons:
  "block_data st (b # bs) = Some ds \<longleftrightarrow>
     (\<exists>d ds'. ds = d # ds' \<and> st b = Inr d \<and> block_data st bs = Some ds')"
  by (auto simp: block_data_def split: sum.splits)

lemma block_data_length: "block_data st bs = Some ds \<Longrightarrow> length ds = length bs"
  by (induction bs arbitrary: ds) (auto simp: block_data_Cons, simp add: block_data_def)

lemma block_data_drop:
  "block_data st bs = Some ds \<Longrightarrow> block_data st (drop k bs) = Some (drop k ds)"
proof (induction bs arbitrary: ds k)
  case Nil
  then show ?case by (simp add: block_data_def)
next
  case (Cons b bs)
  then show ?case by (cases k) (auto simp: block_data_Cons)
qed

lemma uniform_Cons:
  "uniform bs (d # ds) \<longleftrightarrow> (if ds = [] then int (length d) \<le> bs else int (length d) = bs \<and> uniform bs ds)"
  by (cases ds) simp_all

lemma uniform_drop: "uniform bs ds \<Longrightarrow> uniform bs (drop k ds)"
proof (induction ds arbitrary: k)
  case (Cons d ds)
  then show ?case by (cases k; cases ds) (auto simp: uniform_Cons)
qed simp

lemma uniform_take:
  "uniform bs ds \<Longrightarrow> k < length ds \<Longrightarrow> int (length (concat (take k ds))) = int k * bs"
proof (induction ds arbitrary: k)
  case (Cons d ds)
  then show ?case
    by (cases k; cases ds) (auto simp: uniform_Cons algebra_simps)
qed simp

lemma uniform_total: "uniform bs ds \<Longrightarrow> int (length (concat ds)) \<le> int (length ds) * bs"
proof (induction ds)
  case (Cons d ds)
  then show ?case by (cases ds) (auto simp: uniform_Cons algebra_simps)
qed simp

lemma holds_fixed:
  "block_data st blocks = Some ds \<Longrightarrow> uniform bs ds \<Longrightarrow> 0 < bs \<Longrightarrow> 0 \<le> bi \<Longrightarrow>
     bi * bs + int (length (concat ds)) < 2 ^ 63 \<Longrightarrow> holds st (fixed_starts bs bi blocks) ds (bi * bs)"
proof (induction blocks arbitrary: ds bi)
  case Nil
  then show ?case by (simp add: block_data_def)
next
  case (Cons b blocks)
  obtain d ds' where d: "ds = d # ds'" "st b = Inr d" "block_data st blocks = Some ds'"
    using Cons.prems(1) by (auto simp: block_data_Cons)
  have "0 \<le> bi * bs" using Cons.prems by simp
  then have s: "i64 (bi * bs) = bi * bs" using Cons.prems(5) d by (intro i64_nat_id) auto
  have "holds st (fixed_starts bs (bi + 1) blocks) ds' (bi * bs + int (length d))"
  proof (cases "ds' = []")
    case True
    then show ?thesis using block_data_length [OF d(3)] by simp
  next
    case False
    then have "uniform bs ds'" "int (length d) = bs"
      using Cons.prems(2) d by (simp_all add: uniform_Cons)
    then show ?thesis
      using Cons.IH [OF d(3), of "bi + 1"] Cons.prems d by (simp add: algebra_simps)
  qed
  then show ?case using d s by simp
qed

lemma slice_tail:
  assumes "length (concat (take k ds)) = m" and "m \<le> off" and "off \<le> end"
  shows "drop (off - m) (take (end - m) (concat (drop k ds))) = drop off (take end (concat ds))"
proof -
  have "concat ds = concat (take k ds) @ concat (drop k ds)"
    by (simp flip: concat_append)
  then show ?thesis using assms by simp
qed

definition starts_of :: "bytes list \<Rightarrow> int list" where
  "starts_of ds = map (\<lambda>i. int (length (concat (take i ds)))) [0..<length ds]"

lemma offsets_from_starts:
  "0 \<le> s \<Longrightarrow> s + int (length (concat ds)) < 2 ^ 63 \<Longrightarrow>
     offsets_from s (map (int \<circ> length) ds) = map (\<lambda>p. s + p) (starts_of ds)"
proof (induction ds arbitrary: s)
  case (Cons d ds)
  have s: "i64 (s + int (length d)) = s + int (length d)"
    using Cons.prems by (intro i64_nat_id) auto
  have "starts_of (d # ds) = 0 # map (\<lambda>p. int (length d) + p) (starts_of ds)"
    by (simp add: starts_of_def map_upt_Suc del: upt_Suc)
  then show ?case using Cons s by (simp add: comp_def add.assoc)
qed (simp add: starts_of_def)

lemma holds_starts:
  "block_data st blocks = Some ds \<Longrightarrow> holds st (zip (map (\<lambda>p. s + p) (starts_of ds)) blocks) ds s"
proof (induction blocks arbitrary: ds s)
  case Nil
  then show ?case by (simp add: block_data_def starts_of_def)
next
  case (Cons b blocks)
  obtain d ds' where d: "ds = d # ds'" "st b = Inr d" "block_data st blocks = Some ds'"
    using Cons.prems by (auto simp: block_data_Cons)
  have "starts_of (d # ds') = 0 # map (\<lambda>p. int (length d) + p) (starts_of ds')"
    by (simp add: starts_of_def map_upt_Suc del: upt_Suc)
  then show ?case
    using Cons.IH [OF d(3), of "s + int (length d)"] d by (simp add: comp_def add.assoc)
qed

lemma holds_drop:
  "holds st starts ds s \<Longrightarrow> holds st (drop k starts) (drop k ds) (s + int (length (concat (take k ds))))"
proof (induction st starts ds s arbitrary: k rule: holds.induct)
  case (2 st p b rest d ds s)
  then show ?case by (cases k) (auto simp: add.assoc)
qed simp_all

section \<open>Reads return the stored bytes\<close>

lemma read_fixed_stored:
  assumes ds: "block_data st blocks = Some ds" and u: "uniform bs ds" and bs: "0 < bs"
    and off: "0 \<le> off" "off < int (length (concat ds))" "off \<le> end"
    and small: "int (length (concat ds)) < 2 ^ 63" "end < 2 ^ 63"
  shows "read_fixed st bs off end (off div bs) (drop (nat (off div bs)) blocks) [] =
    Inr (drop (nat off) (take (nat end) (concat ds)))"
proof -
  let ?k = "nat (off div bs)"
  have k: "int ?k = off div bs" using off bs by (simp add: pos_imp_zdiv_nonneg_iff)
  have dm: "off div bs * bs + off mod bs = off" "0 \<le> off mod bs" "off mod bs < bs"
    using bs by simp_all
  have lower: "int ?k * bs \<le> off" unfolding k using dm by linarith
  have upper: "off < (int ?k + 1) * bs" unfolding k distrib_right using dm by linarith
  have "off < int (length ds) * bs" using uniform_total [OF u] off by simp
  then have "int ?k * bs < int (length ds) * bs" using lower by simp
  then have "int ?k < int (length ds)" using mult_right_less_imp_less bs by fastforce
  then have less: "?k < length ds" by (simp only: of_nat_less_iff)
  have total: "int (length (concat (take ?k ds))) = int ?k * bs"
    by (rule uniform_take [OF u less])
  have split: "length (concat ds) = length (concat (take ?k ds)) + length (concat (drop ?k ds))"
    by (metis append_take_drop_id concat_append length_append)
  have ne: "drop ?k ds = hd (drop ?k ds) # tl (drop ?k ds)" using less by (cases "drop ?k ds") auto
  have head: "off \<le> int ?k * bs + int (length (hd (drop ?k ds)))"
  proof (cases "tl (drop ?k ds) = []")
    case True
    then have "length (concat (drop ?k ds)) = length (hd (drop ?k ds))"
      by (subst ne) simp
    then show ?thesis using split total off by linarith
  next
    case False
    then have "int (length (hd (drop ?k ds))) = bs"
      using uniform_drop [OF u, of ?k] ne uniform_Cons by metis
    then show ?thesis using upper by (simp add: algebra_simps)
  qed
  have "holds st (fixed_starts bs (int ?k) (drop ?k blocks)) (drop ?k ds) (int ?k * bs)"
    by (rule holds_fixed [OF block_data_drop [OF ds] uniform_drop [OF u] bs])
      (use split total small in auto)
  then have rv: "read_variable st off end (int ?k) (fixed_starts bs (int ?k) (drop ?k blocks)) [] =
      Inr ([] @ drop (nat (off - int ?k * bs)) (take (nat (end - int ?k * bs)) (concat (drop ?k ds))))"
    by (rule read_variable_ok) (use off head split total small bs in auto)
  let ?m = "length (concat (take ?k ds))"
  have m: "nat (off - int ?k * bs) = nat off - ?m" "nat (end - int ?k * bs) = nat end - ?m"
    using total by (simp_all add: nat_diff_distrib' flip: total)
  have "?m \<le> nat off" "nat off \<le> nat end" using lower total off by linarith+
  then have "read_fixed st bs off end (int ?k) (drop ?k blocks) [] =
      Inr (drop (nat off) (take (nat end) (concat ds)))"
    unfolding read_fixed_variable rv m using slice_tail [of ?k ds ?m "nat off" "nat end"] by simp
  then show ?thesis by (simp only: k)
qed

lemma starts_nth: "i < length ds \<Longrightarrow> starts_of ds ! i = int (length (concat (take i ds)))"
  by (simp add: starts_of_def)

lemma concat_take_mono: "i \<le> j \<Longrightarrow> length (concat (take i ds)) \<le> length (concat (take j ds))"
  by (metis append_take_drop_id concat_append length_append le_add1 take_take min.absorb_iff1)

lemma read_variable_stored:
  assumes ds: "block_data st blocks = Some ds" and ne: "blocks \<noteq> []"
    and off: "0 \<le> off" "off < int (length (concat ds))" "off \<le> end"
    and small: "int (length (concat ds)) < 2 ^ 63" "end < 2 ^ 63"
  defines "bi \<equiv> search (\<lambda>i. starts_of ds ! i > off) 0 (length ds) - 1"
  shows "read_variable st off end (int bi) (drop bi (zip (starts_of ds) blocks)) [] =
    Inr (drop (nat off) (take (nat end) (concat ds)))"
proof -
  let ?f = "\<lambda>i. starts_of ds ! i > off" and ?s = "search (\<lambda>i. starts_of ds ! i > off) 0 (length ds)"
  have "?s \<le> length ds \<and> (\<forall>k < ?s. \<not> ?f k) \<and> (\<forall>k. ?s \<le> k \<longrightarrow> k < length ds \<longrightarrow> ?f k)"
  proof (rule search_all)
    fix a b assume "a \<le> b" "b < length ds" "?f a"
    then show "?f b" using concat_take_mono [of a b ds] by (simp add: starts_nth)
  qed
  then have s: "?s \<le> length ds" "\<And>k. k < ?s \<Longrightarrow> \<not> ?f k"
    "\<And>k. ?s \<le> k \<Longrightarrow> k < length ds \<Longrightarrow> ?f k" by blast+
  have len: "0 < length ds" using block_data_length [OF ds] ne by simp
  have "\<not> ?f 0" using starts_nth [OF len] off by simp
  then have pos: "0 < ?s" using s(3) [of 0] len by (cases "?s = 0") auto
  then have bi: "bi < length ds" "bi < ?s" "Suc bi = ?s" using s(1) by (auto simp: bi_def)
  have lower: "int (length (concat (take bi ds))) \<le> off"
    using s(2) [OF bi(2)] starts_nth [OF bi(1)] by simp
  have hd: "drop bi ds = ds ! bi # drop (Suc bi) ds" using bi(1) by (simp add: Cons_nth_drop_Suc)
  have step: "length (concat (take (Suc bi) ds)) =
      length (concat (take bi ds)) + length (ds ! bi)"
    using bi(1) by (simp add: take_Suc_conv_app_nth)
  have head: "off \<le> int (length (concat (take (Suc bi) ds)))"
  proof (cases "Suc bi < length ds")
    case True
    then show ?thesis using s(3) [of "Suc bi"] bi starts_nth [OF True] by simp
  next
    case False
    then show ?thesis using off by simp
  qed
  have split: "length (concat ds) = length (concat (take bi ds)) + length (concat (drop bi ds))"
    by (metis append_take_drop_id concat_append length_append)
  have "holds st (zip (map (\<lambda>p. 0 + p) (starts_of ds)) blocks) ds 0" by (rule holds_starts [OF ds])
  then have "holds st (drop bi (zip (starts_of ds) blocks)) (drop bi ds)
      (0 + int (length (concat (take bi ds))))"
    by (intro holds_drop) simp
  then have "read_variable st off end (int bi) (drop bi (zip (starts_of ds) blocks)) [] =
      Inr ([] @ drop (nat (off - (0 + int (length (concat (take bi ds))))))
        (take (nat (end - (0 + int (length (concat (take bi ds)))))) (concat (drop bi ds))))"
    by (rule read_variable_ok) (use off head split small hd step in auto)
  moreover have "length (concat (take bi ds)) \<le> nat off" using lower by simp
  ultimately show ?thesis
    using slice_tail [OF refl, of bi ds "nat off" "nat end"] off by (simp add: nat_diff_distrib')
qed

lemma read_at_leaf:
  assumes "stored (t_store t) (t_block_size t) f content"
    and "0 \<le> off" and "off + len < 2 ^ 63"
    and n: "n_is_dir n = False" "n_size n = int (length content)" "n_blocks n = fe_blocks f"
      "n_offsets n = n_offsets (leaf_node 0 '''' f)"
  shows "read_at t n off len = Inr (take (nat len) (drop (nat off) content))"
proof (cases "off \<ge> int (length content) \<or> len \<le> 0")
  case True
  then show ?thesis using n by (auto simp: read_at_def)
next
  case False
  define "end" where "end = (if off + len > int (length content) then int (length content) else off + len)"
  obtain ds where ds: "block_data (t_store t) (fe_blocks f) = Some ds" "content = concat ds"
    using assms(1) by (auto simp: stored_def split: option.splits)
  have range: "off < int (length (concat ds))" "off \<le> end" "end < 2 ^ 63"
      "int (length (concat ds)) < 2 ^ 63"
    using False assms(1-3) ds by (auto simp: end_def stored_def)
  have e: "i64 (off + len) = off + len" using assms(2,3) False by (intro i64_nat_id) auto
  have slice: "drop (nat off) (take (nat end) (concat ds)) = take (nat len) (drop (nat off) content)"
    using assms(2) False ds(2) by (auto simp: end_def drop_take nat_add_distrib)
  have end_eq: "(if i64 (off + len) > n_size n then n_size n else i64 (off + len)) = end"
    using e n by (simp add: end_def)
  have unfold: "read_at t n off len =
      (case n_offsets n of
         Some offsets \<Rightarrow> read_at_variable t n offsets off end
       | None \<Rightarrow>
           (let bs = effective_bs (t_block_size t) in
            read_fixed (t_store t) bs off end (off div bs) (drop (nat (off div bs)) (n_blocks n)) []))"
    unfolding read_at_def Let_def end_eq effective_bs_def using False assms(2) n by simp
  show ?thesis
  proof (cases "length (fe_block_sizes f) = length (fe_blocks f) \<and> fe_blocks f \<noteq> []")
    case True
    then have sizes: "fe_block_sizes f = map (int \<circ> length) ds"
      using assms(1) ds by (auto simp: stored_def)
    have "offsets_from 0 (map (int \<circ> length) ds) = starts_of ds"
      using offsets_from_starts [of 0 ds] range(4) by simp
    then have "n_offsets n = Some (starts_of ds)"
      using n(4) True sizes by (simp add: leaf_node_def)
    moreover have "length (starts_of ds) = length ds" by (simp add: starts_of_def)
    ultimately show ?thesis
      using read_variable_stored [OF ds(1) conjunct2 [OF True] assms(2) range(1,2,4,3)]
        n slice
      by (simp add: unfold read_at_variable_def Let_def)
  next
    case fixed: False
    then have u: "uniform (effective_bs (t_block_size t)) ds"
      using assms(1) ds by (auto simp: stored_def)
    have "n_offsets n = None" using n(4) fixed by (auto simp: leaf_node_def)
    moreover have "0 < effective_bs (t_block_size t)" by (simp add: effective_bs_def)
    ultimately show ?thesis
      using read_fixed_stored [OF ds(1) u _ assms(2) range(1,2,4,3)] n slice
      by (simp add: unfold Let_def)
  qed
qed

lemma read_fixed_cong:
  "(\<And>j. j < length blocks \<Longrightarrow> i64 ((bi + int j) * bs) < end \<Longrightarrow> st' (blocks ! j) = st (blocks ! j)) \<Longrightarrow>
     read_fixed st' bs off end bi blocks out = read_fixed st bs off end bi blocks out"
proof (induction blocks arbitrary: bi out)
  case (Cons b blocks)
  have "read_fixed st' bs off end (bi + 1) blocks out' = read_fixed st bs off end (bi + 1) blocks out'"
    for out'
    using Cons.prems [of "Suc _"] by (intro Cons.IH) (simp add: add.assoc)
  moreover have "i64 (bi * bs) < end \<Longrightarrow> st' b = st b" using Cons.prems [of 0] by simp
  ultimately show ?case by (auto simp: Let_def split: sum.splits)
qed simp

lemma read_fixed_missing:
  "j < length blocks \<Longrightarrow> st (blocks ! j) = Inl e \<Longrightarrow>
     (\<And>k. k \<le> j \<Longrightarrow> i64 ((bi + int k) * bs) < end) \<Longrightarrow>
     \<exists>e'. read_fixed st bs off end bi blocks out = Inl e'"
proof (induction blocks arbitrary: bi j out)
  case (Cons b blocks)
  have first: "i64 (bi * bs) < end" using Cons.prems(3) [of 0] by simp
  show ?case
  proof (cases j)
    case 0
    then show ?thesis using Cons.prems(2) first by (simp add: Let_def)
  next
    case (Suc i)
    have "\<exists>e'. read_fixed st bs off end (bi + 1) blocks out' = Inl e'" for out'
      using Cons.prems(1,2) Cons.prems(3) [of "Suc _"] Suc
      by (intro Cons.IH [of i]) (simp_all add: add.assoc)
    then show ?thesis using first by (auto simp: Let_def split: sum.splits)
  qed
qed simp

lemma read_at_fixed:
  fixes t :: fs_tree
  assumes "\<not> n_is_dir n" "n_offsets n = None" "0 \<le> off" "off < n_size n" "0 < len"
    and "off + len < 2 ^ 63"
  defines "bs \<equiv> effective_bs (t_block_size t)"
  shows "read_at t n off len = read_fixed (t_store t) bs off (min (n_size n) (off + len))
    (off div bs) (drop (nat (off div bs)) (n_blocks n)) []"
proof -
  have "i64 (off + len) = off + len" using assms by (intro i64_nat_id) auto
  then have "(if i64 (off + len) > n_size n then n_size n else i64 (off + len)) =
      min (n_size n) (off + len)" by (simp add: min_def)
  then show ?thesis
    unfolding read_at_def Let_def bs_def effective_bs_def using assms by auto
qed

lemma div_block_range:
  assumes "0 \<le> off" and "0 < (bs :: int)"
  shows "int (nat (off div bs)) = off div bs" "0 \<le> off div bs" "off div bs * bs \<le> off"
    "off < (off div bs + 1) * bs"
proof -
  have dm: "off div bs * bs + off mod bs = off" "0 \<le> off mod bs" "off mod bs < bs"
    using assms by simp_all
  show "int (nat (off div bs)) = off div bs" "0 \<le> off div bs"
    using assms by (simp_all add: pos_imp_zdiv_nonneg_iff)
  show "off div bs * bs \<le> off" "off < (off div bs + 1) * bs"
    using dm unfolding distrib_right by linarith+
qed

section \<open>Properties\<close>

text \<open>C7: a read of a file through the built tree returns exactly the bytes of the file in the
  range, cut at the end of the file, for both block layouts, wherever the entry is the last word
  about its path and its blocks are in the store.\<close>

theorem read_built_file:
  assumes "view_of files (comps p) = Some (VLeaf f)" and "stored st bs f content"
    and "0 \<le> off" and "off + len < 2 ^ 63"
  shows "\<exists>n. lookup_tree_path (build_tree st bs files) p = Some n \<and>
    read_at (build_tree st bs files) n off len = Inr (take (nat len) (drop (nat off) content))"
proof -
  let ?t = "build_tree st bs files"
  have "map_option erase (lookup_tree_path ?t p) = Some (leaf_node 0 (last (comps p)) f)"
    unfolding lookup_tree_path_comps view_nodes_def [symmetric] view_nodes_build using assms(1) by simp
  then obtain n where n: "lookup_tree_path ?t p = Some n" "erase n = leaf_node 0 (last (comps p)) f"
    by auto
  have t: "t_store ?t = st" "t_block_size ?t = bs" by (simp_all add: build_tree_def)
  have "n_is_dir n = n_is_dir (erase n)" "n_size n = n_size (erase n)"
    "n_blocks n = n_blocks (erase n)" "n_offsets n = n_offsets (erase n)"
    by (simp_all add: erase_def)
  then have "n_is_dir n = False" "n_size n = int (length content)" "n_blocks n = fe_blocks f"
    "n_offsets n = n_offsets (leaf_node 0 '''' f)"
    unfolding n(2) using assms(2) by (simp_all add: leaf_node_def stored_def)
  then show ?thesis using n(1) assms(2-4) by (auto simp: t intro!: read_at_leaf)
qed

definition demo_store :: store where
  "demo_store b = (if b = ''b1'' then Inr ''abcd'' else if b = ''b2'' then Inr ''ef'' else Inl BlockNotFound)"

definition demo_file :: file_entry where
  "demo_file = (file_at ''d/f'')\<lparr>fe_size := 6, fe_blocks := [''b1'', ''b2'']\<rparr>"

theorem read_built_file_witness:
  "\<exists>n. lookup_tree_path (build_tree demo_store 4 [demo_file]) ''d/f'' = Some n \<and>
    read_at (build_tree demo_store 4 [demo_file]) n 3 100 = Inr ''def''"
proof -
  have "view_of [demo_file] (comps ''d/f'') = Some (VLeaf demo_file)" by code_simp
  moreover have "stored demo_store 4 demo_file ''abcdef''" by code_simp
  ultimately show ?thesis
    using read_built_file [of "[demo_file]" "''d/f''" demo_file demo_store 4 "''abcdef''" 3 100]
    by simp
qed

text \<open>The bytes of the file that the block \<open>i\<close> holds, in either layout.\<close>

definition block_from :: "fs_tree \<Rightarrow> file_node \<Rightarrow> nat \<Rightarrow> int" where
  "block_from t n i =
     (case n_offsets n of
        None \<Rightarrow> int i * effective_bs (t_block_size t)
      | Some offsets \<Rightarrow> offsets ! i)"

definition block_to :: "fs_tree \<Rightarrow> file_node \<Rightarrow> nat \<Rightarrow> int" where
  "block_to t n i =
     (case n_offsets n of
        None \<Rightarrow> (int i + 1) * effective_bs (t_block_size t)
      | Some offsets \<Rightarrow> if Suc i < length offsets then offsets ! Suc i else n_size n)"

lemma read_variable_cong:
  "(\<And>p b. (p, b) \<in> set blocks \<Longrightarrow> p < end \<Longrightarrow> st' b = st b) \<Longrightarrow>
     read_variable st' off end bi blocks out = read_variable st off end bi blocks out"
proof (induction blocks arbitrary: bi out)
  case (Cons x blocks)
  obtain p b where x: "x = (p, b)" by force
  have "read_variable st' off end (bi + 1) blocks out' = read_variable st off end (bi + 1) blocks out'" for out'
    by (rule Cons.IH) (use Cons.prems in auto)
  moreover have "p < end \<Longrightarrow> st' b = st b" using Cons.prems x by auto
  ultimately show ?case unfolding x by (auto split: sum.splits)
qed simp

text \<open>The binary search starts at the block that holds the first byte.\<close>

lemma read_variable_overlapping:
  assumes os: "n_offsets n = Some offsets" "length offsets = length (n_blocks n)" "sorted offsets"
    and off: "off < n_size n" "end \<le> off + len"
    and same: "\<And>i. i < length (n_blocks n) \<Longrightarrow> block_from t n i < off + len \<Longrightarrow> off < block_to t n i \<Longrightarrow>
      st' (n_blocks n ! i) = t_store t (n_blocks n ! i)"
  shows "read_at_variable (t\<lparr>t_store := st'\<rparr>) n offsets off end = read_at_variable t n offsets off end"
proof -
  let ?s = "search (\<lambda>i. offsets ! i > off) 0 (length offsets)"
  let ?bi = "?s - 1"
  have s: "\<And>k. ?s \<le> k \<Longrightarrow> k < length offsets \<Longrightarrow> offsets ! k > off"
    using search_all [of "length offsets" "\<lambda>i. offsets ! i > off"] os(3) by (meson order_less_le_trans sorted_nth_mono)
  have "st' b = t_store t b" if e: "(p, b) \<in> set (drop ?bi (zip offsets (n_blocks n)))" "p < end" for p b
  proof -
    obtain j where j: "j < length (drop ?bi (zip offsets (n_blocks n)))" "drop ?bi (zip offsets (n_blocks n)) ! j = (p, b)"
      using e(1) unfolding in_set_conv_nth by blast
    let ?i = "?bi + j"
    have i: "?i < length (n_blocks n)" "p = offsets ! ?i" "b = n_blocks n ! ?i" using j os(2) by auto
    have "off < block_to t n ?i" using s [of "Suc ?i"] off(1) os by (simp add: block_to_def)
    moreover have "block_from t n ?i < off + len" using i(2) e(2) off(2) os by (simp add: block_from_def)
    ultimately show ?thesis unfolding i(3) using same i(1) by blast
  qed
  then show ?thesis unfolding read_at_variable_def Let_def by (simp, intro read_variable_cong) auto
qed

lemma read_fixed_overlapping:
  assumes n: "n_offsets n = None" and "0 \<le> off" and small: "int (length (n_blocks n)) * effective_bs (t_block_size t) < 2 ^ 63"
    and stop: "stop \<le> off + len"
    and same: "\<And>i. i < length (n_blocks n) \<Longrightarrow> block_from t n i < off + len \<Longrightarrow> off < block_to t n i \<Longrightarrow>
      st' (n_blocks n ! i) = t_store t (n_blocks n ! i)"
  defines "bs \<equiv> effective_bs (t_block_size t)"
  shows "read_fixed st' bs off stop (off div bs) (drop (nat (off div bs)) (n_blocks n)) [] =
    read_fixed (t_store t) bs off stop (off div bs) (drop (nat (off div bs)) (n_blocks n)) []"
proof (rule read_fixed_cong)
  have bs: "0 < bs" by (simp add: bs_def effective_bs_def)
  note dr = div_block_range [OF assms(2) bs]
  fix j assume j: "j < length (drop (nat (off div bs)) (n_blocks n))" and s: "i64 ((off div bs + int j) * bs) < stop"
  let ?i = "nat (off div bs) + j"
  have i: "?i < length (n_blocks n)" using j by simp
  have ii: "int ?i = off div bs + int j" using dr(1) by simp
  have "int ?i * bs \<le> int (length (n_blocks n)) * bs" using i bs by (intro mult_right_mono) auto
  then have "i64 (int ?i * bs) = int ?i * bs" using small bs unfolding bs_def [symmetric] by (intro i64_nat_id) (simp, linarith)
  then have begins: "block_from t n ?i < off + len" using s stop dr(2) unfolding ii by (simp add: block_from_def n bs_def [symmetric])
  have "(off div bs + 1) * bs \<le> (int ?i + 1) * bs" using ii bs by (intro mult_right_mono) auto
  then have "off < block_to t n ?i" using dr(4) by (simp add: block_to_def n bs_def [symmetric])
  then have "st' (n_blocks n ! ?i) = t_store t (n_blocks n ! ?i)" using same i begins by blast
  then show "st' (drop (nat (off div bs)) (n_blocks n) ! j) = t_store t (drop (nat (off div bs)) (n_blocks n) ! j)"
    using j by simp
qed

text \<open>C32: a read fetches only the blocks that overlap the range, in the layout with blocks of one size
  and in the one with a size per block, whose first block is found by binary search: two stores that
  agree on the overlapping blocks give the same result. The offsets of the second layout increase, as
  they do when no size is negative.\<close>

theorem read_at_overlapping:
  assumes "0 \<le> off" and "off + len < 2 ^ 63"
    and "case n_offsets n of
        None \<Rightarrow> int (length (n_blocks n)) * effective_bs (t_block_size t) < 2 ^ 63
      | Some offsets \<Rightarrow> length offsets = length (n_blocks n) \<and> sorted offsets"
    and same: "\<And>i. i < length (n_blocks n) \<Longrightarrow> block_from t n i < off + len \<Longrightarrow> off < block_to t n i \<Longrightarrow>
      st' (n_blocks n ! i) = t_store t (n_blocks n ! i)"
  shows "read_at (t\<lparr>t_store := st'\<rparr>) n off len = read_at t n off len"
proof (cases "n_is_dir n \<or> off \<ge> n_size n \<or> len \<le> 0")
  case False
  have e: "i64 (off + len) = off + len" using assms(1,2) False by (intro i64_nat_id) auto
  show ?thesis
  proof (cases "n_offsets n")
    case None
    then show ?thesis
      using False assms(1-3) read_fixed_overlapping [where t = t and n = n and st' = st' and off = off and len = len,
          OF None assms(1) _ _ same, of "min (n_size n) (off + len)"]
      by (simp add: read_at_fixed)
  next
    case (Some offsets)
    let ?stop = "if off + len > n_size n then n_size n else off + len"
    have "read_at_variable (t\<lparr>t_store := st'\<rparr>) n offsets off ?stop = read_at_variable t n offsets off ?stop"
      by (rule read_variable_overlapping [OF Some _ _ _ _ same]) (use assms(3) Some False in auto)
    then show ?thesis using False assms(1) Some e by (simp add: read_at_def Let_def)
  qed
qed (auto simp: read_at_def)

text \<open>A file whose second block is lost, read in its first block, in both layouts.\<close>

definition torn_file :: "int list \<Rightarrow> file_node" where
  "torn_file sizes = leaf_node 2 ''f'' (demo_file\<lparr>fe_blocks := [''b1'', ''lost''], fe_block_sizes := sizes\<rparr>)"

theorem read_at_overlapping_witness:
  "read_at (build_tree demo_store 4 []) (torn_file []) 1 2 = Inr ''bc'' \<and>
   read_at (build_tree demo_store 4 []) (torn_file [4, 2]) 1 2 = Inr ''bc'' \<and>
   isl (read_at (build_tree demo_store 4 []) (torn_file [4, 2]) 1 4)"
proof -
  let ?t = "build_tree demo_store 4 []" and ?st = "\<lambda>b. if b = ''lost'' then Inr ''xy'' else demo_store b"
  have f: "n_blocks (torn_file sizes) = [''b1'', ''lost'']" for sizes
    by (simp add: torn_file_def leaf_node_def demo_file_def)
  have o: "n_offsets (torn_file []) = None" "n_offsets (torn_file [4, 2]) = Some [0, 4]" by code_simp+
  have bs: "effective_bs (t_block_size ?t) = 4" "t_store ?t = demo_store" by (simp_all add: build_tree_def effective_bs_def)
  have "read_at (?t\<lparr>t_store := ?st\<rparr>) (torn_file []) 1 2 = read_at ?t (torn_file []) 1 2"
    by (rule read_at_overlapping) (auto simp: f o bs block_from_def less_Suc_eq_0_disj nth_Cons')
  moreover have "read_at (?t\<lparr>t_store := ?st\<rparr>) (torn_file [4, 2]) 1 2 = read_at ?t (torn_file [4, 2]) 1 2"
    by (rule read_at_overlapping) (auto simp: f o bs block_from_def less_Suc_eq_0_disj nth_Cons')
  moreover have "read_at (?t\<lparr>t_store := ?st\<rparr>) (torn_file []) 1 2 = Inr ''bc''"
    "read_at (?t\<lparr>t_store := ?st\<rparr>) (torn_file [4, 2]) 1 2 = Inr ''bc''"
    "isl (read_at ?t (torn_file [4, 2]) 1 4)" by code_simp+
  ultimately show ?thesis by simp
qed

text \<open>A read whose range overlaps a block the store does not have is an error; it never
  returns the bytes it could get.\<close>

theorem read_at_missing_block:
  assumes "\<not> n_is_dir n" and "n_offsets n = None" and "0 \<le> off" and "0 < len"
    and "off + len < 2 ^ 63" and "int (length (n_blocks n)) * effective_bs (t_block_size t) < 2 ^ 63"
    and i: "i < length (n_blocks n)" "t_store t (n_blocks n ! i) = Inl e"
      "int i * effective_bs (t_block_size t) < min (n_size n) (off + len)"
      "off < (int i + 1) * effective_bs (t_block_size t)" "off < n_size n"
  shows "\<exists>e'. read_at t n off len = Inl e'"
proof -
  let ?bs = "effective_bs (t_block_size t)" and ?stop = "min (n_size n) (off + len)"
  have bs: "0 < ?bs" by (simp add: effective_bs_def)
  note dr = div_block_range [OF assms(3) bs]
  have "off div ?bs * ?bs < (int i + 1) * ?bs" using dr(3) i(4) by linarith
  then have le: "nat (off div ?bs) \<le> i"
    using mult_right_less_imp_less [of "off div ?bs" ?bs "int i + 1"] bs by simp
  have e: "i64 (off + len) = off + len" using assms(3-5) by (intro i64_nat_id) auto
  have "\<exists>e'. read_fixed (t_store t) ?bs off ?stop (off div ?bs)
      (drop (nat (off div ?bs)) (n_blocks n)) [] = Inl e'"
  proof (rule read_fixed_missing [of "i - nat (off div ?bs)"])
    show "i - nat (off div ?bs) < length (drop (nat (off div ?bs)) (n_blocks n))"
      using i(1) le by simp
    show "t_store t (drop (nat (off div ?bs)) (n_blocks n) ! (i - nat (off div ?bs))) = Inl e"
      using i(1,2) le by simp
    fix k assume k: "k \<le> i - nat (off div ?bs)"
    then have "off div ?bs + int k \<le> int i" using le dr(1) by linarith
    then have "(off div ?bs + int k) * ?bs \<le> int i * ?bs" using bs by (intro mult_right_mono) auto
    moreover have "0 \<le> (off div ?bs + int k) * ?bs" using dr(2) bs by simp
    moreover have "int i * ?bs \<le> int (length (n_blocks n)) * ?bs"
      using i(1) bs by (intro mult_right_mono) auto
    ultimately show "i64 ((off div ?bs + int k) * ?bs) < ?stop"
      using i(3) assms(6) i64_nat_id [of "(off div ?bs + int k) * ?bs"] by linarith
  qed
  then show ?thesis using assms(1-5) i(5) by (simp add: read_at_fixed)
qed

theorem read_at_missing_block_witness:
  "\<exists>e. read_at (build_tree demo_store 4 [])
      (leaf_node 2 ''f'' (demo_file\<lparr>fe_blocks := [''b1'', ''lost'']\<rparr>)) 1 5 = Inl e"
  by (rule read_at_missing_block [where i = 1 and e = BlockNotFound])
    (simp_all add: leaf_node_def demo_file_def file_at_def build_tree_def effective_bs_def
      demo_store_def)

text \<open>The stacked block store answers with the first store that has the block, and fails
  only when every store fails.\<close>

theorem multi_store_get:
  "multi_store ss b =
     (case filter (\<lambda>s. \<exists>d. s b = Inr d) ss of
        s # _ \<Rightarrow> s b
      | [] \<Rightarrow> Inl (case ss of [] \<Rightarrow> BlockNotFound | _ \<Rightarrow> projl (last ss b)))"
proof -
  have "multi_store_from err ss b =
     (case filter (\<lambda>s. \<exists>d. s b = Inr d) ss of
        s # _ \<Rightarrow> s b
      | [] \<Rightarrow> Inl (case ss of [] \<Rightarrow> (case err of None \<Rightarrow> BlockNotFound | Some e \<Rightarrow> e)
          | _ \<Rightarrow> projl (last ss b)))" for err
    by (induction ss arbitrary: err) (auto split: sum.splits list.splits)
  from this [of None] show ?thesis unfolding multi_store_def option.case .
qed

end
