(* ===== verification/Overlay.thy ===== *)
theory Overlay
  imports UpperDir ReadAt
begin

text \<open>
  The mounted file system (fuse.go): the lower tree of a committed state under a writable upper
  directory of the host, with whiteout files for what was deleted. One definition per FUSE
  operation; an operation gets the path of its node (go-fuse computes it from the inodes) and
  the state of the host's file system, and returns an error number or its result.

  The go-fuse library is a parameter, the record \<open>fuse_lib\<close>: the translation of Go errors to
  error numbers, the copy of a stat buffer into an attribute, the operations on an open host
  file, and the conversion of times. The daemon serves one operation at a time (the mutex of
  \<open>fuseState\<close>), so an operation is one step.
\<close>

section \<open>State\<close>

record fuse_attr =
  at_ino :: nat
  at_mode :: u32
  at_nlink :: nat
  at_uid :: u32
  at_gid :: u32
  at_size :: int
  at_atime :: int
  at_mtime :: int
  at_ctime :: int

record stable_attr =
  sa_mode :: u32
  sa_ino :: nat
  sa_gen :: nat

record setattr_in =
  in_mode :: "u32 option"
  in_uid :: "u32 option"
  in_gid :: "u32 option"
  in_mtime :: "int option"
  in_atime :: "int option"
  in_size :: "int option"

text \<open>An open file: one of the host, by the node it refers to, or one of the lower tree.\<close>

datatype handle = Loopback path | LowerFile file_node

record fuse_lib =
  fl_errno :: "gerror \<Rightarrow> errno"
  fl_from_stat :: "unode \<Rightarrow> fuse_attr"
  fl_fgetattr :: "path \<Rightarrow> os \<Rightarrow> errno + fuse_attr"
  fl_fsetattr :: "path \<Rightarrow> setattr_in \<Rightarrow> fuse_attr oscall"
  fl_fread :: "path \<Rightarrow> int \<Rightarrow> int \<Rightarrow> os \<Rightarrow> errno + bytes"
  fl_timespec :: "int \<Rightarrow> gerror + int"

record fuse_state =
  fs_lower :: "fs_tree option"
  fs_upper :: string
  fs_uid :: u32
  fs_gid :: u32
  fs_mtime :: int
  fs_clear :: bool

record path_info =
  pi_lower :: "file_node option"
  pi_upper :: "unode option"

definition new_fuse_root :: "os \<Rightarrow> fs_tree option \<Rightarrow> string \<Rightarrow> bool \<Rightarrow> fuse_state" where
  "new_fuse_root s lower upper clear =
     \<lparr>fs_lower = lower, fs_upper = upper, fs_uid = os_uid s, fs_gid = os_gid s,
      fs_mtime = os_clock s, fs_clear = clear\<rparr>"

section \<open>Finding a path\<close>

definition writable :: "fuse_state \<Rightarrow> bool" where
  "writable st \<longleftrightarrow> fs_upper st \<noteq> ''''"

definition upper_path :: "fuse_state \<Rightarrow> string \<Rightarrow> string" where
  "upper_path st p = path_join [fs_upper st, p]"

definition lower_node :: "fuse_state \<Rightarrow> string \<Rightarrow> file_node option" where
  "lower_node st p =
     (case fs_lower st of
        None \<Rightarrow> None
      | Some t \<Rightarrow>
          if p = '''' then get_node t 1 else node_at_path (t_nodes t) (split_on slash p))"

definition has_whiteout :: "fuse_state \<Rightarrow> os \<Rightarrow> string \<Rightarrow> string \<Rightarrow> bool" where
  "has_whiteout st s parent base \<longleftrightarrow>
     writable st \<and>
     (case os_lstat s (upper_path st (join_path parent (whiteout_prefix @ base))) of
        Inr _ \<Rightarrow> True
      | Inl _ \<Rightarrow> False)"

definition stat :: "fuse_state \<Rightarrow> os \<Rightarrow> string \<Rightarrow> path_info" where
  "stat st s p =
     (if p \<noteq> '''' \<and> (case split_path p of (parent, base) \<Rightarrow> has_whiteout st s parent base)
      then \<lparr>pi_lower = None, pi_upper = None\<rparr>
      else if writable st then
        (case os_lstat s (upper_path st p) of
           Inr n \<Rightarrow> \<lparr>pi_lower = lower_node st p, pi_upper = Some n\<rparr>
         | Inl _ \<Rightarrow> \<lparr>pi_lower = lower_node st p, pi_upper = None\<rparr>)
      else \<lparr>pi_lower = lower_node st p, pi_upper = None\<rparr>)"

definition exists_pi :: "path_info \<Rightarrow> bool" where
  "exists_pi i \<longleftrightarrow> pi_upper i \<noteq> None \<or> pi_lower i \<noteq> None"

section \<open>Modes and attributes\<close>

definition S_IFMT :: u32 where "S_IFMT = 0xF000"
definition S_IFDIR :: u32 where "S_IFDIR = 0x4000"
definition S_IFLNK :: u32 where "S_IFLNK = 0xA000"
definition S_IFIFO :: u32 where "S_IFIFO = 0x1000"
definition S_IFREG :: u32 where "S_IFREG = 0x8000"
definition S_ISUID :: u32 where "S_ISUID = 0x800"
definition S_ISGID :: u32 where "S_ISGID = 0x400"

text \<open>The mode of a stat buffer: the type of the node and its permission bits.\<close>

definition stat_mode :: "unode \<Rightarrow> u32" where
  "stat_mode n =
     (case u_body n of BDir \<Rightarrow> S_IFDIR | BReg _ \<Rightarrow> S_IFREG | BLink _ \<Rightarrow> S_IFLNK
      | BOther t \<Rightarrow> (if t AND S_IFMT = S_IFDIR \<or> t AND S_IFMT = S_IFLNK then S_IFIFO
          else t AND S_IFMT))
     OR (u_mode n AND 0xFFF)"

definition pi_mode :: "path_info \<Rightarrow> u32" where
  "pi_mode i =
     (case pi_upper i of
        Some n \<Rightarrow> stat_mode n
      | None \<Rightarrow>
          (case pi_lower i of
             None \<Rightarrow> 0
           | Some n \<Rightarrow>
               if n_is_dir n then S_IFDIR OR (n_mode n AND 0xFFF)
               else if n_kind n = ''symlink'' \<or> n_link n \<noteq> '''' then S_IFLNK OR 0x1FF
               else if n_kind n = ''fifo'' then S_IFIFO OR (n_mode n AND 0xFFF)
               else S_IFREG OR (n_mode n AND 0xFFF)))"

definition is_dir_pi :: "path_info \<Rightarrow> bool" where
  "is_dir_pi i \<longleftrightarrow> pi_mode i AND S_IFMT = S_IFDIR"

definition is_link_pi :: "path_info \<Rightarrow> bool" where
  "is_link_pi i \<longleftrightarrow> pi_mode i AND S_IFMT = S_IFLNK"

definition mode_of :: "fuse_state \<Rightarrow> path_info \<Rightarrow> u32" where
  "mode_of st i =
     (if fs_clear st then pi_mode i AND NOT (S_ISUID OR S_ISGID) else pi_mode i)"

definition fill_attr :: "fuse_lib \<Rightarrow> fuse_state \<Rightarrow> path_info \<Rightarrow> fuse_attr" where
  "fill_attr lib st i =
     (case pi_upper i of
        Some n \<Rightarrow> fl_from_stat lib n
      | None \<Rightarrow>
          (let a = \<lparr>at_ino = 0, at_mode = mode_of st i, at_nlink = 1, at_uid = fs_uid st,
               at_gid = fs_gid st, at_size = 0, at_atime = fs_mtime st, at_mtime = fs_mtime st,
               at_ctime = fs_mtime st\<rparr> in
           case pi_lower i of
             None \<Rightarrow> a
           | Some n \<Rightarrow> a\<lparr>at_ino := n_ino n, at_size := n_size n,
               at_nlink := (if n_is_dir n then 2 else 1)\<rparr>))"

definition stable_of :: "path_info \<Rightarrow> stable_attr" where
  "stable_of i =
     (case pi_upper i of
        Some n \<Rightarrow> \<lparr>sa_mode = pi_mode i AND S_IFMT, sa_ino = u_ino n, sa_gen = 2\<rparr>
      | None \<Rightarrow>
          (case pi_lower i of
             Some n \<Rightarrow> \<lparr>sa_mode = pi_mode i AND S_IFMT, sa_ino = n_ino n, sa_gen = 1\<rparr>
           | None \<Rightarrow> \<lparr>sa_mode = pi_mode i AND S_IFMT, sa_ino = 0, sa_gen = 0\<rparr>))"

section \<open>Operations that read\<close>

text \<open>An inode handed to the kernel: its stable attributes and its attributes.\<close>

type_synonym entry_out = "stable_attr \<times> fuse_attr"

definition fuse_lookup ::
    "fuse_lib \<Rightarrow> fuse_state \<Rightarrow> string \<Rightarrow> string \<Rightarrow> os \<Rightarrow> errno + entry_out" where
  "fuse_lookup lib st parent name s =
     (if \<not> valid_name name then Inl EINVAL
      else
        (let i = stat st s (join_path parent name) in
         if \<not> exists_pi i then Inl ENOENT else Inr (stable_of i, fill_attr lib st i)))"

definition fuse_getattr ::
    "fuse_lib \<Rightarrow> fuse_state \<Rightarrow> string \<Rightarrow> handle option \<Rightarrow> os \<Rightarrow> errno + fuse_attr" where
  "fuse_getattr lib st p fh s =
     (case fh of
        Some (Loopback q) \<Rightarrow> fl_fgetattr lib q s
      | _ \<Rightarrow>
          (let i = stat st s p in
           if \<not> exists_pi i then Inl ENOENT else Inr (fill_attr lib st i)))"

text \<open>\<open>dirEntries\<close>: the names are collected in a set (a list here), sorted, and looked up again.\<close>

definition dir_names :: "fuse_lib \<Rightarrow> fuse_state \<Rightarrow> os \<Rightarrow> string \<Rightarrow> errno + string list" where
  "dir_names lib st s p =
     (let i = stat st s p;
          lower = (case pi_lower i of
              Some n \<Rightarrow> if n_is_dir n
                then filter (\<lambda>name. \<not> has_whiteout st s p name) (map fst (n_children n)) else []
            | None \<Rightarrow> []) in
      if \<not> writable st then Inr lower
      else (case os_readdir s (upper_path st p) of
              Inr entries \<Rightarrow>
                Inr (lower @ filter (\<lambda>name. \<not> prefix whiteout_prefix name) entries)
            | Inl e \<Rightarrow> if e = ENOENT then Inr lower else Inl (fl_errno lib (Errno e))))"

definition dir_entries ::
    "fuse_lib \<Rightarrow> fuse_state \<Rightarrow> os \<Rightarrow> string \<Rightarrow> errno + (string \<times> u32 \<times> nat) list" where
  "dir_entries lib st s p =
     (let i = stat st s p in
      if \<not> exists_pi i then Inl ENOENT
      else if \<not> is_dir_pi i then Inl ENOTDIR
      else (case dir_names lib st s p of
              Inl e \<Rightarrow> Inl e
            | Inr names \<Rightarrow>
                Inr (concat (map (\<lambda>name.
                  (let c = stat st s (join_path p name) in
                   if exists_pi c then [(name, mode_of st c, sa_ino (stable_of c))] else []))
                  (sort (remdups names))))))"

definition fuse_readdir ::
    "fuse_lib \<Rightarrow> fuse_state \<Rightarrow> string \<Rightarrow> os \<Rightarrow> errno + (string \<times> u32 \<times> nat) list" where
  "fuse_readdir lib st p s = dir_entries lib st s p"

definition fuse_readlink :: "fuse_lib \<Rightarrow> fuse_state \<Rightarrow> string \<Rightarrow> os \<Rightarrow> errno + string" where
  "fuse_readlink lib st p s =
     (let i = stat st s p in
      if \<not> exists_pi i \<or> \<not> is_link_pi i then Inl EINVAL
      else (case pi_upper i of
              Some _ \<Rightarrow>
                (case os_readlink s (upper_path st p) of
                   Inl e \<Rightarrow> Inl (fl_errno lib (Errno e))
                 | Inr target \<Rightarrow> Inr target)
            | None \<Rightarrow> Inr (case pi_lower i of Some n \<Rightarrow> n_link n | None \<Rightarrow> '''')))"

definition lower_read :: "fuse_state \<Rightarrow> file_node \<Rightarrow> int \<Rightarrow> int \<Rightarrow> errno + bytes" where
  "lower_read st n off len =
     (case fs_lower st of
        None \<Rightarrow> Inl EIO
      | Some t \<Rightarrow> (case read_at t n off len of Inl _ \<Rightarrow> Inl EIO | Inr data \<Rightarrow> Inr data))"

definition fuse_read ::
    "fuse_lib \<Rightarrow> fuse_state \<Rightarrow> handle option \<Rightarrow> int \<Rightarrow> int \<Rightarrow> os \<Rightarrow> errno + bytes" where
  "fuse_read lib st fh off len s =
     (case fh of
        Some (Loopback q) \<Rightarrow> fl_fread lib q off len s
      | Some (LowerFile n) \<Rightarrow> lower_read st n off len
      | None \<Rightarrow> Inl EBADF)"

section \<open>Copying a lower file up\<close>

text \<open>The loop of \<open>copyUp\<close>, from offset \<open>off\<close> on, a mebibyte at a time.\<close>

function copy_data :: "fs_tree \<Rightarrow> file_node \<Rightarrow> path \<Rightarrow> int \<Rightarrow> os \<Rightarrow> (gerror + unit) \<times> os" where
  "copy_data t n f off s =
     (if off \<ge> n_size n then (Inr (), s)
      else (case read_at t n off 0x100000 of
              Inl e \<Rightarrow> (Inl e, s)
            | Inr data \<Rightarrow>
                if data = [] then (Inl UnexpectedEOF, s)
                else (case os_write f data s of
                        (Inl e, s') \<Rightarrow> (Inl (Errno e), s')
                      | (Inr written, s') \<Rightarrow>
                          if written \<noteq> length data then (Inl ShortWrite, s')
                          else copy_data t n f (off + int (length data)) s')))"
  by pat_completeness auto
termination
  by (relation "measure (\<lambda>(t, n, f, off, s). nat (n_size n - off))") auto

declare copy_data.simps [simp del]

definition copy_up :: "fuse_state \<Rightarrow> string \<Rightarrow> os \<Rightarrow> (gerror + unit) \<times> os" where
  "copy_up st p s =
     (case os_lstat s (upper_path st p) of
        Inr _ \<Rightarrow> (Inr (), s)
      | Inl _ \<Rightarrow>
          (case (fs_lower st, lower_node st p) of
             (Some t, Some n) \<Rightarrow>
               if n_is_dir n then (Inr (), s)
               else (let up = upper_path st p in
                 case os_mkdir_all (path_dir up) 0x1ED s of
                   (Inl e, s1) \<Rightarrow> (Inl (Errno e), s1)
                 | (Inr _, s1) \<Rightarrow>
                     if n_link n \<noteq> '''' then
                       (case os_symlink (n_link n) up s1 of
                          (Inl e, s2) \<Rightarrow> (Inl (Errno e), s2)
                        | (Inr _, s2) \<Rightarrow> (Inr (), s2))
                     else
                       (let mode0 = n_mode n AND 0xFFF;
                            mode = (if fs_clear st then mode0 AND NOT (S_ISUID OR S_ISGID)
                              else mode0) in
                        case os_open_file up (O_CREAT OR O_EXCL OR O_WRONLY) mode s1 of
                          (Inl e, s2) \<Rightarrow> (Inl (Errno e), s2)
                        | (Inr f, s2) \<Rightarrow>
                            (case copy_data t n f 0 s2 of
                               (Inl e, s3) \<Rightarrow>
                                 (Inl e, snd (os_remove up (snd (os_close f s3))))
                             | (Inr _, s3) \<Rightarrow>
                                 (case os_close f s3 of
                                    (Inl e, s4) \<Rightarrow> (Inl (Errno e), snd (os_remove up s4))
                                  | (Inr _, s4) \<Rightarrow> (Inr (), s4)))))
           | _ \<Rightarrow> (Inr (), s)))"

definition FMODE_EXEC :: u32 where "FMODE_EXEC = 0x20"

definition open_loopback :: "fuse_lib \<Rightarrow> string \<Rightarrow> u32 \<Rightarrow> u32 \<Rightarrow> os \<Rightarrow> (errno + handle) \<times> os" where
  "open_loopback lib p flags mode s =
     (case sys_open p (flags AND NOT (O_APPEND OR FMODE_EXEC)) mode s of
        (Inl e, s') \<Rightarrow> (Inl (fl_errno lib (Errno e)), s')
      | (Inr q, s') \<Rightarrow> (Inr (Loopback q), s'))"

text \<open>In its last case \<open>fuse_open\<close> found a node, copied it up, and then found nothing: a whiteout would
  have to appear in between, while the daemon holds its mutex. Go returns a handle without a node,
  whose reads panic; the model answers \<open>EIO\<close>.\<close>

definition fuse_open ::
    "fuse_lib \<Rightarrow> fuse_state \<Rightarrow> string \<Rightarrow> u32 \<Rightarrow> os \<Rightarrow> (errno + handle) \<times> os" where
  "fuse_open lib st p flags s =
     (let i = stat st s p; wr = (flags AND O_ACCMODE \<noteq> O_RDONLY) in
      if \<not> exists_pi i then (Inl ENOENT, s)
      else if wr \<and> \<not> writable st then (Inl EROFS, s)
      else
        (case (if wr \<and> pi_upper i = None then copy_up st p s else (Inr (), s)) of
           (Inl e, s1) \<Rightarrow> (Inl (fl_errno lib e), s1)
         | (Inr _, s1) \<Rightarrow>
             (let j = (if wr \<and> pi_upper i = None then stat st s1 p else i) in
              case (pi_upper j, pi_lower j) of
                (Some _, _) \<Rightarrow> open_loopback lib (upper_path st p) flags 0 s1
              | (None, Some n) \<Rightarrow> (Inr (LowerFile n), s1)
              | (None, None) \<Rightarrow> (Inl EIO, s1))))"

section \<open>Setattr\<close>

text \<open>The changes one after the other; the first error ends the operation.\<close>

definition setattr_mode :: "string \<Rightarrow> setattr_in \<Rightarrow> unit oscall" where
  "setattr_mode up inp s =
     (case in_mode inp of None \<Rightarrow> (Inr (), s) | Some m \<Rightarrow> sys_chmod up m s)"

definition setattr_owner :: "string \<Rightarrow> setattr_in \<Rightarrow> unit oscall" where
  "setattr_owner up inp s =
     (if in_uid inp = None \<and> in_gid inp = None then (Inr (), s)
      else sys_lchown up (in_uid inp) (in_gid inp) s)"

definition setattr_times ::
    "fuse_lib \<Rightarrow> string \<Rightarrow> setattr_in \<Rightarrow> os \<Rightarrow> (gerror + unit) \<times> os" where
  "setattr_times lib up inp s =
     (if in_mtime inp = None \<and> in_atime inp = None then (Inr (), s)
      else
        (case (case in_atime inp of None \<Rightarrow> Inr None | Some t \<Rightarrow> map_sum id Some (fl_timespec lib t)) of
           Inl e \<Rightarrow> (Inl e, s)
         | Inr atime \<Rightarrow>
             (case (case in_mtime inp of None \<Rightarrow> Inr None
                 | Some t \<Rightarrow> map_sum id Some (fl_timespec lib t)) of
                Inl e \<Rightarrow> (Inl e, s)
              | Inr mtime \<Rightarrow>
                  (case sys_lutimes up atime mtime s of
                     (Inl e, s') \<Rightarrow> (Inl (Errno e), s')
                   | (Inr _, s') \<Rightarrow> (Inr (), s')))))"

definition setattr_size :: "string \<Rightarrow> setattr_in \<Rightarrow> unit oscall" where
  "setattr_size up inp s =
     (case in_size inp of None \<Rightarrow> (Inr (), s) | Some sz \<Rightarrow> sys_truncate up sz s)"

definition fuse_setattr ::
    "fuse_lib \<Rightarrow> fuse_state \<Rightarrow> string \<Rightarrow> handle option \<Rightarrow> setattr_in \<Rightarrow> os \<Rightarrow>
     (errno + fuse_attr) \<times> os" where
  "fuse_setattr lib st p fh inp s =
     (case fh of
        Some (Loopback q) \<Rightarrow> fl_fsetattr lib q inp s
      | _ \<Rightarrow>
          if \<not> writable st then (Inl EROFS, s)
          else
            (case copy_up st p s of
               (Inl e, s1) \<Rightarrow> (Inl (fl_errno lib e), s1)
             | (Inr _, s1) \<Rightarrow>
                 (let up = upper_path st p in
                  case setattr_mode up inp s1 of
                    (Inl e, s2) \<Rightarrow> (Inl (fl_errno lib (Errno e)), s2)
                  | (Inr _, s2) \<Rightarrow>
                  (case setattr_owner up inp s2 of
                     (Inl e, s3) \<Rightarrow> (Inl (fl_errno lib (Errno e)), s3)
                   | (Inr _, s3) \<Rightarrow>
                  (case setattr_times lib up inp s3 of
                     (Inl e, s4) \<Rightarrow> (Inl (fl_errno lib e), s4)
                   | (Inr _, s4) \<Rightarrow>
                  (case setattr_size up inp s4 of
                     (Inl e, s5) \<Rightarrow> (Inl (fl_errno lib (Errno e)), s5)
                   | (Inr _, s5) \<Rightarrow>
                       (let i = stat st s5 p in
                        if \<not> exists_pi i then (Inl ENOENT, s5)
                        else (Inr (fill_attr lib st i), s5))))))))"

section \<open>Whiteouts\<close>

definition whiteout_path :: "fuse_state \<Rightarrow> string \<Rightarrow> string \<Rightarrow> string" where
  "whiteout_path st parent base = upper_path st (join_path parent (whiteout_prefix @ base))"

definition clear_whiteout :: "fuse_state \<Rightarrow> string \<Rightarrow> string \<Rightarrow> unit oscall" where
  "clear_whiteout st parent base s =
     (case os_remove (whiteout_path st parent base) s of
        (Inl e, s') \<Rightarrow> if e = ENOENT then (Inr (), s') else (Inl e, s')
      | (Inr _, s') \<Rightarrow> (Inr (), s'))"

definition make_whiteout :: "fuse_state \<Rightarrow> string \<Rightarrow> string \<Rightarrow> unit oscall" where
  "make_whiteout st parent base s =
     (case os_mkdir_all (upper_path st parent) 0x1ED s of
        (Inl e, s1) \<Rightarrow> (Inl e, s1)
      | (Inr _, s1) \<Rightarrow>
          (case os_open_file (whiteout_path st parent base) (O_CREAT OR O_WRONLY) 0x1A4 s1 of
             (Inl e, s2) \<Rightarrow> (Inl e, s2)
           | (Inr f, s2) \<Rightarrow> os_close f s2))"

section \<open>Operations that create\<close>

definition fuse_create ::
    "fuse_lib \<Rightarrow> fuse_state \<Rightarrow> string \<Rightarrow> string \<Rightarrow> u32 \<Rightarrow> u32 \<Rightarrow> os \<Rightarrow>
     (errno + entry_out \<times> handle) \<times> os" where
  "fuse_create lib st parent name flags mode s =
     (if \<not> valid_name name then (Inl EINVAL, s)
      else if \<not> writable st then (Inl EROFS, s)
      else
        (case os_mkdir_all (upper_path st parent) 0x1ED s of
           (Inl e, s1) \<Rightarrow> (Inl (fl_errno lib (Errno e)), s1)
         | (Inr _, s1) \<Rightarrow>
             (let had = has_whiteout st s1 parent name in
              case clear_whiteout st parent name s1 of
                (Inl e, s2) \<Rightarrow> (Inl (fl_errno lib (Errno e)), s2)
              | (Inr _, s2) \<Rightarrow>
                  (let p = join_path parent name in
                   case open_loopback lib (upper_path st p) (flags OR O_CREAT) (mode AND 0xFFF) s2 of
                     (Inl e, s3) \<Rightarrow>
                       (Inl e, if had then snd (make_whiteout st parent name s3) else s3)
                   | (Inr fh, s3) \<Rightarrow>
                       (let i = stat st s3 p in (Inr ((stable_of i, fill_attr lib st i), fh), s3))))))"

definition fuse_mkdir ::
    "fuse_lib \<Rightarrow> fuse_state \<Rightarrow> string \<Rightarrow> string \<Rightarrow> u32 \<Rightarrow> os \<Rightarrow> (errno + entry_out) \<times> os" where
  "fuse_mkdir lib st parent name mode s =
     (if \<not> valid_name name then (Inl EINVAL, s)
      else if \<not> writable st then (Inl EROFS, s)
      else
        (case os_mkdir_all (upper_path st parent) 0x1ED s of
           (Inl e, s1) \<Rightarrow> (Inl (fl_errno lib (Errno e)), s1)
         | (Inr _, s1) \<Rightarrow>
             (let had = has_whiteout st s1 parent name in
              case clear_whiteout st parent name s1 of
                (Inl e, s2) \<Rightarrow> (Inl (fl_errno lib (Errno e)), s2)
              | (Inr _, s2) \<Rightarrow>
                  (let p = join_path parent name in
                   case os_mkdir (upper_path st p) (mode AND 0xFFF) s2 of
                     (Inl e, s3) \<Rightarrow>
                       (Inl (fl_errno lib (Errno e)),
                        if had then snd (make_whiteout st parent name s3) else s3)
                   | (Inr _, s3) \<Rightarrow>
                       (let i = stat st s3 p in (Inr (stable_of i, fill_attr lib st i), s3))))))"

definition fuse_symlink ::
    "fuse_lib \<Rightarrow> fuse_state \<Rightarrow> string \<Rightarrow> string \<Rightarrow> string \<Rightarrow> os \<Rightarrow> (errno + entry_out) \<times> os" where
  "fuse_symlink lib st parent target name s =
     (if \<not> valid_name name then (Inl EINVAL, s)
      else if \<not> writable st then (Inl EROFS, s)
      else
        (case os_mkdir_all (upper_path st parent) 0x1ED s of
           (Inl e, s1) \<Rightarrow> (Inl (fl_errno lib (Errno e)), s1)
         | (Inr _, s1) \<Rightarrow>
             (let had = has_whiteout st s1 parent name in
              case clear_whiteout st parent name s1 of
                (Inl e, s2) \<Rightarrow> (Inl (fl_errno lib (Errno e)), s2)
              | (Inr _, s2) \<Rightarrow>
                  (let p = join_path parent name in
                   case os_symlink target (upper_path st p) s2 of
                     (Inl e, s3) \<Rightarrow>
                       (Inl (fl_errno lib (Errno e)),
                        if had then snd (make_whiteout st parent name s3) else s3)
                   | (Inr _, s3) \<Rightarrow>
                       (let i = stat st s3 p in (Inr (stable_of i, fill_attr lib st i), s3))))))"

section \<open>Operations that remove and rename\<close>

definition fuse_remove ::
    "fuse_lib \<Rightarrow> fuse_state \<Rightarrow> string \<Rightarrow> string \<Rightarrow> bool \<Rightarrow> os \<Rightarrow> (errno + unit) \<times> os" where
  "fuse_remove lib st parent name dir s =
     (if \<not> valid_name name then (Inl EINVAL, s)
      else if \<not> writable st then (Inl EROFS, s)
      else
        (let p = join_path parent name; i = stat st s p in
         if \<not> exists_pi i then (Inl ENOENT, s)
         else if dir \<noteq> is_dir_pi i then (Inl (if dir then ENOTDIR else EISDIR), s)
         else
           (case (if dir then dir_entries lib st s p else Inr []) of
              Inl e \<Rightarrow> (Inl e, s)
            | Inr entries \<Rightarrow>
                if entries \<noteq> [] then (Inl ENOTEMPTY, s)
                else
                  (let whiteout = (pi_lower i \<noteq> None) in
                   case (if whiteout then make_whiteout st parent name s else (Inr (), s)) of
                     (Inl e, s1) \<Rightarrow> (Inl (fl_errno lib (Errno e)), s1)
                   | (Inr _, s1) \<Rightarrow>
                       if pi_upper i = None then (Inr (), s1)
                       else (case os_remove (upper_path st p) s1 of
                               (Inl e, s2) \<Rightarrow>
                                 (Inl (fl_errno lib (Errno e)),
                                  if whiteout then snd (clear_whiteout st parent name s2) else s2)
                             | (Inr _, s2) \<Rightarrow> (Inr (), s2))))))"

definition fuse_unlink where
  "fuse_unlink lib st parent name = fuse_remove lib st parent name False"

definition fuse_rmdir where
  "fuse_rmdir lib st parent name = fuse_remove lib st parent name True"

text \<open>\<open>other_fs\<close> says that the new parent is not a node of the same mount.\<close>

definition fuse_rename ::
    "fuse_lib \<Rightarrow> fuse_state \<Rightarrow> string \<Rightarrow> string \<Rightarrow> bool \<Rightarrow> string \<Rightarrow> string \<Rightarrow> u32 \<Rightarrow> os \<Rightarrow>
     (errno + unit) \<times> os" where
  "fuse_rename lib st old_parent name other_fs new_parent new_name flags s =
     (if \<not> valid_name name \<or> \<not> valid_name new_name then (Inl EINVAL, s)
      else if other_fs then (Inl EXDEV, s)
      else if flags \<noteq> 0 then (Inl EINVAL, s)
      else if \<not> writable st then (Inl EROFS, s)
      else
        (let src = join_path old_parent name; dst = join_path new_parent new_name;
             i = stat st s src in
         if src = dst then (Inr (), s)
         else if \<not> exists_pi i then (Inl ENOENT, s)
         else
           (case copy_up st src s of
              (Inl e, s1) \<Rightarrow> (Inl (fl_errno lib e), s1)
            | (Inr _, s1) \<Rightarrow>
           (case os_lstat s1 (upper_path st src) of
              Inl _ \<Rightarrow> (Inl EXDEV, s1)
            | Inr _ \<Rightarrow>
           (case os_mkdir_all (upper_path st new_parent) 0x1ED s1 of
              (Inl e, s2) \<Rightarrow> (Inl (fl_errno lib (Errno e)), s2)
            | (Inr _, s2) \<Rightarrow>
           (let source_wh = (pi_lower i \<noteq> None) in
            case (if source_wh then make_whiteout st old_parent name s2 else (Inr (), s2)) of
              (Inl e, s3) \<Rightarrow> (Inl (fl_errno lib (Errno e)), s3)
            | (Inr _, s3) \<Rightarrow>
           (let dest_wh = has_whiteout st s3 new_parent new_name in
            case (if dest_wh then clear_whiteout st new_parent new_name s3 else (Inr (), s3)) of
              (Inl e, s4) \<Rightarrow>
                (Inl (fl_errno lib (Errno e)),
                 if source_wh then snd (clear_whiteout st old_parent name s4) else s4)
            | (Inr _, s4) \<Rightarrow>
           (case os_rename (upper_path st src) (upper_path st dst) s4 of
              (Inl e, s5) \<Rightarrow>
                (let s6 = (if source_wh then snd (clear_whiteout st old_parent name s5) else s5) in
                 (Inl (fl_errno lib (Errno e)),
                  if dest_wh then snd (make_whiteout st new_parent new_name s6) else s6))
            | (Inr _, s5) \<Rightarrow> (Inr (), s5)))))))))"

section \<open>The merged view\<close>

text \<open>
  A mount whose upper directory is the directory \<open>U\<close> of the host. Statements name paths by their
  components; \<open>plain\<close> says that the upper directory has no symbolic link on the way, as is the
  case when the kernel walked there through directories of the mount.
\<close>

definition mounted :: "fuse_state \<Rightarrow> path \<Rightarrow> os \<Rightarrow> bool" where
  "mounted st U s \<longleftrightarrow>
     fs_upper st = abs_of U \<and> valid_path U \<and> wf_os s \<and> is_dir_at s U"

lemma mountedD:
  assumes "mounted st U s"
  shows mounted_upper: "fs_upper st = abs_of U" and mounted_valid: "valid_path U"
    and mounted_wf: "wf_os s" and mounted_dir: "is_dir_at s U" and mounted_plain: "plain s U"
    and mounted_writable: "writable st"
  using assms dir_plain [of s U] by (simp_all add: mounted_def writable_def)

abbreviation wh :: "string \<Rightarrow> string" where
  "wh c \<equiv> whiteout_prefix @ c"

lemma valid_wh [simp]: "valid_name c \<Longrightarrow> valid_name (wh c)"
  by (rule valid_name_whiteout) (simp add: valid_name_def)

lemma wh_ne [simp]: "wh c \<noteq> c" "c \<noteq> wh c" "whiteout_prefix \<noteq> []"
  by (simp_all add: whiteout_prefix_def)

lemma upper_path_of:
  "mounted st U s \<Longrightarrow> valid_path cs \<Longrightarrow> upper_path st (of_comps cs) = abs_of (U @ cs)"
  by (simp add: upper_path_def mounted_upper mounted_valid path_join_abs_of)

lemma upper_path_name:
  "mounted st U s \<Longrightarrow> valid_path cs \<Longrightarrow> valid_name c \<Longrightarrow>
     upper_path st (join_path (of_comps cs) c) = abs_of ((U @ cs) @ [c])"
  using upper_path_of [of st U s "cs @ [c]"] by (simp add: join_path_of_comps)

lemma whiteout_path_of:
  "mounted st U s \<Longrightarrow> valid_path cs \<Longrightarrow> valid_name c \<Longrightarrow>
     whiteout_path st (of_comps cs) c = abs_of ((U @ cs) @ [wh c])"
  by (simp add: whiteout_path_def upper_path_name)

lemma has_whiteout_iff:
  assumes m: "mounted st U s" and "valid_path cs" and "valid_name c" and "plain s (U @ cs)"
  shows "has_whiteout st s (of_comps cs) c \<longleftrightarrow> look s ((U @ cs) @ [wh c]) \<noteq> None"
proof -
  have "(case os_lstat s (abs_of ((U @ cs) @ [wh c])) of Inr _ \<Rightarrow> True | Inl _ \<Rightarrow> False) \<longleftrightarrow>
      look s ((U @ cs) @ [wh c]) \<noteq> None"
    using assms by (intro lstat_look) (simp_all add: mountedD [OF m])
  moreover have "upper_path st (join_path (of_comps cs) (wh c)) = abs_of ((U @ cs) @ [wh c])"
    using assms by (intro upper_path_name [OF m]) simp_all
  ultimately show ?thesis by (simp add: has_whiteout_def mountedD [OF m])
qed

text \<open>\<open>entry st s U cs c\<close> is the merged view at a name: a whiteout, else the upper node, else the
  lower one.\<close>

definition entry :: "fuse_state \<Rightarrow> os \<Rightarrow> path \<Rightarrow> path \<Rightarrow> string \<Rightarrow> path_info" where
  "entry st s U cs c =
     (if look s (U @ cs @ [wh c]) \<noteq> None then \<lparr>pi_lower = None, pi_upper = None\<rparr>
      else \<lparr>pi_lower = lower_node st (of_comps (cs @ [c])), pi_upper = look s (U @ cs @ [c])\<rparr>)"

lemma of_comps_snoc_ne [simp]: "valid_name c \<Longrightarrow> of_comps (cs @ [c]) \<noteq> ''''"
  by (cases "cs = []") (auto simp: of_comps_def valid_name_def join_with_append)

lemma split_path_of: "valid_path cs \<Longrightarrow> valid_name c \<Longrightarrow> split_path (of_comps (cs @ [c])) = (of_comps cs, c)"
  using split_join_path [of c "of_comps cs"] by (simp add: join_path_of_comps valid_name_def)

lemma stat_entry:
  assumes m: "mounted st U s" and v: "valid_path cs" "valid_name c" and pl: "plain s (U @ cs)"
  shows "stat st s (of_comps (cs @ [c])) = entry st s U cs c"
proof -
  have "(case os_lstat s (abs_of ((U @ cs) @ [c])) of Inr n \<Rightarrow> Some n | Inl _ \<Rightarrow> None) =
      look s ((U @ cs) @ [c])"
    using v pl by (intro lstat_look) (simp_all add: mountedD [OF m])
  moreover have "upper_path st (of_comps (cs @ [c])) = abs_of ((U @ cs) @ [c])"
    using upper_path_of [OF m, of "cs @ [c]"] v by simp
  ultimately show ?thesis
    using v has_whiteout_iff [OF m v pl] mounted_writable [OF m]
    by (simp add: stat_def entry_def split_path_of split: sum.splits)
qed

lemma stat_join:
  "mounted st U s \<Longrightarrow> valid_path cs \<Longrightarrow> valid_name c \<Longrightarrow> plain s (U @ cs) \<Longrightarrow>
     stat st s (join_path (of_comps cs) c) = entry st s U cs c"
  by (simp add: join_path_of_comps stat_entry)

lemma entry_cong:
  "look s' (U @ cs @ [wh c]) = look s (U @ cs @ [wh c]) \<Longrightarrow>
     look s' (U @ cs @ [c]) = look s (U @ cs @ [c]) \<Longrightarrow> entry st s' U cs c = entry st s U cs c"
  by (simp add: entry_def)

lemma mounted_grown:
  "mounted st U s \<Longrightarrow> wf_os s' \<Longrightarrow> grown s m q s' \<Longrightarrow> mounted st U s'"
  by (auto simp: mounted_def grown_dir)

lemma type_bits: "(a OR (m AND 0xFFF)) AND S_IFMT = a AND S_IFMT" for a m :: u32
proof -
  have "(a OR (m AND 0xFFF)) AND S_IFMT = (a AND S_IFMT) OR (m AND (0xFFF AND S_IFMT))"
    by (simp only: bit.conj_disj_distrib2 and.assoc)
  moreover have "(0xFFF :: u32) AND S_IFMT = 0" by (simp add: S_IFMT_def)
  ultimately show ?thesis by simp
qed

lemma is_dir_upper [simp]:
  "pi_upper i = Some n \<Longrightarrow> is_dir_pi i \<longleftrightarrow> u_body n = BDir"
proof -
  assume "pi_upper i = Some n"
  then show ?thesis
    by (cases "u_body n")
      (auto simp: is_dir_pi_def pi_mode_def stat_mode_def type_bits and.assoc,
       auto simp: S_IFDIR_def S_IFREG_def S_IFLNK_def S_IFIFO_def S_IFMT_def)
qed

section \<open>Whiteouts\<close>

lemma clear_whiteout_spec:
  assumes m: "mounted st U s" and v: "valid_path cs" "valid_name c" and d: "is_dir_at s (U @ cs)"
    and run: "clear_whiteout st (of_comps cs) c s = (r, s')"
  shows "same_host s s' \<and> wf_os s' \<and>
    (case r of
       Inl _ \<Rightarrow> look s' = look s
     | Inr _ \<Rightarrow> look s' = (look s)(U @ cs @ [wh c] := None)) \<and>
    (quiet s \<longrightarrow> (\<forall>n. look s (U @ cs @ [wh c]) = Some n \<longrightarrow> u_body n \<noteq> BDir) \<longrightarrow> r = Inr ())"
proof -
  obtain r1 where rm: "os_remove (abs_of ((U @ cs) @ [wh c])) s = (r1, s')"
    and r: "r = (case r1 of Inl e \<Rightarrow> if e = ENOENT then Inr () else Inl e | Inr _ \<Rightarrow> Inr ())"
    using run whiteout_path_of [OF m v]
    by (auto simp: clear_whiteout_def split: prod.splits sum.splits if_splits)
  note sp = remove_spec [OF mounted_wf [OF m] d valid_wh [OF v(2)] rm]
  have "wf_os s'" by (rule keeps_wfD [OF keeps_wf_remove mounted_wf [OF m] rm]) simp
  moreover have "look s (U @ cs @ [wh c]) = None \<Longrightarrow> look s = (look s)(U @ cs @ [wh c] := None)"
    by (auto simp: fun_eq_iff)
  ultimately show ?thesis
    using sp r by (auto split: sum.splits option.splits if_splits)
qed

text \<open>\<open>marked s q w s'\<close>: the whiteout \<open>w\<close> is there, and missing directories of \<open>q\<close> were made.\<close>

definition made_dirs :: "os \<Rightarrow> path \<Rightarrow> os \<Rightarrow> path \<Rightarrow> bool" where
  "made_dirs s q s' k \<longleftrightarrow>
     look s' k = look s k \<or> (look s k = None \<and> prefix k q \<and> is_dir_at s' k)"

definition marked :: "os \<Rightarrow> path \<Rightarrow> path \<Rightarrow> os \<Rightarrow> bool" where
  "marked s q w s' \<longleftrightarrow>
     (\<forall>k. k \<noteq> w \<longrightarrow> made_dirs s q s' k) \<and> (\<exists>n. look s' w = Some n \<and> u_body n = BReg [])"

lemma grown_made_dirs: "grown s m q s' \<Longrightarrow> made_dirs s q s' k"
proof (cases "look s' k = look s k")
  case False
  moreover assume "grown s m q s'"
  ultimately obtain n where "look s k = None" "prefix k q" "look s' k = Some n" "u_body n = BDir"
    unfolding grown_def mk_node_def by blast
  then show ?thesis by (simp add: made_dirs_def is_dir_at_def)
qed (simp add: made_dirs_def)

lemma made_dirs_same: "look s2 k = look s1 k \<Longrightarrow> made_dirs s q s2 k = made_dirs s q s1 k"
  by (simp add: made_dirs_def is_dir_at_def)

lemma made_dirs_cong: "look s2 = look s1 \<Longrightarrow> made_dirs s q s2 k = made_dirs s q s1 k"
  by (simp add: made_dirs_def is_dir_at_def)

lemma made_dirs_link: "made_dirs s q s' k \<Longrightarrow> is_link_at s' k \<Longrightarrow> is_link_at s k"
proof (cases "look s' k = look s k")
  case False
  moreover assume "made_dirs s q s' k" "is_link_at s' k"
  ultimately show ?thesis using dir_not_link unfolding made_dirs_def by blast
qed (simp add: is_link_at_def)

lemma made_dirs_dir: "made_dirs s q s' k \<Longrightarrow> is_dir_at s k \<Longrightarrow> is_dir_at s' k"
  unfolding made_dirs_def is_dir_at_def by auto

lemma marked_link:
  assumes "marked s q w s'" and "is_link_at s' k"
  shows "is_link_at s k"
proof (cases "k = w")
  case True
  then show ?thesis using assms by (auto simp: marked_def is_link_at_def)
next
  case False
  then show ?thesis using assms made_dirs_link unfolding marked_def by blast
qed

lemma marked_plain: "marked s q w s' \<Longrightarrow> plain s k \<Longrightarrow> plain s' k"
  by (auto simp: plain_def dest: marked_link)

lemma masks_0644: "has_flag (O_CREAT OR O_WRONLY) O_CREAT"
  by (simp add: has_flag_def O_CREAT_def O_WRONLY_def)

lemma make_whiteout_spec:
  assumes m: "mounted st U s" and v: "valid_path cs" "valid_name c" and pl: "plain s (U @ cs)"
    and new: "look s (U @ cs @ [wh c]) = None"
    and run: "make_whiteout st (of_comps cs) c s = (r, s')"
  shows "same_host s s' \<and> wf_os s' \<and>
    (case r of
       Inr _ \<Rightarrow> is_dir_at s' (U @ cs) \<and> marked s (U @ cs) (U @ cs @ [wh c]) s'
     | Inl _ \<Rightarrow> (\<forall>k. made_dirs s (U @ cs) s' k) \<or> marked s (U @ cs) (U @ cs @ [wh c]) s') \<and>
    (quiet s \<longrightarrow> (\<forall>p. prefix p (U @ cs) \<longrightarrow> look s p = None \<or> is_dir_at s p) \<longrightarrow> r = Inr ())"
proof -
  note wf = mounted_wf [OF m]
  have vq: "valid_path (U @ cs)" using mounted_valid [OF m] v by simp
  obtain r1 s1 where one: "os_mkdir_all (abs_of (U @ cs)) 0x1ED s = (r1, s1)" by force
  note s1 = mkdir_all_spec [OF wf vq pl one]
  have up: "upper_path st (of_comps cs) = abs_of (U @ cs)" by (rule upper_path_of [OF m v(1)])
  show ?thesis
  proof (cases r1)
    case (Inl e)
    then have "r = Inl e" "s' = s1" using run one up by (simp_all add: make_whiteout_def)
    moreover have "\<forall>k. made_dirs s (U @ cs) s1 k" using grown_made_dirs [OF s1(3)] by blast
    moreover have "\<not> (quiet s \<and> (\<forall>p. prefix p (U @ cs) \<longrightarrow> look s p = None \<or> is_dir_at s p))"
      using s1(5) Inl by blast
    ultimately show ?thesis using s1(1,2) by auto
  next
    case (Inr u)
    then have d1: "is_dir_at s1 (U @ cs)" using s1(4) by simp
    have w1: "look s1 ((U @ cs) @ [wh c]) = None"
      using new grown_other [OF s1(3), of "(U @ cs) @ [wh c]"] by simp
    obtain r2 s2 where two: "os_open_file (abs_of ((U @ cs) @ [wh c])) (O_CREAT OR O_WRONLY) 0x1A4 s1 = (r2, s2)"
      by force
    note op = open_new_spec [OF s1(2) d1 valid_wh [OF v(2)] w1 masks_0644 two [unfolded os_open_file_def]]
    have wf2: "wf_os s2" by (rule keeps_wfD [OF keeps_wf_open_file s1(2) two]) simp
    show ?thesis
    proof (cases r2)
      case (Inl e)
      then have rs: "r = Inl e" "s' = s2"
        using run one two up \<open>r1 = Inr u\<close> whiteout_path_of [OF m v]
        by (simp_all add: make_whiteout_def)
      have "\<forall>k. made_dirs s (U @ cs) s2 k"
        using grown_made_dirs [OF s1(3)] made_dirs_cong [of s2 s1] op Inl by simp
      moreover have "same_host s s2" using same_host_trans [OF s1(1)] op by blast
      moreover have "\<not> quiet s" using op Inl same_host_quiet [OF s1(1)] by auto
      ultimately show ?thesis using rs wf2 by auto
    next
      case (Inr f)
      obtain n where n: "mk_node s1 (masked s1 (go_perm 0x1A4)) (BReg []) n"
        "look s2 = (look s1)(U @ cs @ [wh c] \<mapsto> n)"
        using op Inr by auto
      have cl: "os_close f s2 = (r, s')"
        using run one two up \<open>r1 = Inr u\<close> Inr whiteout_path_of [OF m v]
        by (simp add: make_whiteout_def)
      note clo = close_spec [OF cl]
      have wf': "wf_os s'" by (rule keeps_wfD [OF keeps_wf_close wf2 cl])
      have d: "is_dir_at s' (U @ cs)" using d1 n clo by (simp add: is_dir_at_def)
      have "made_dirs s (U @ cs) s' k" if "k \<noteq> U @ cs @ [wh c]" for k
        using grown_made_dirs [OF s1(3), of k] that n clo by (simp add: made_dirs_def is_dir_at_def)
      then have "marked s (U @ cs) (U @ cs @ [wh c]) s'"
        using n clo by (auto simp: marked_def mk_node_def)
      moreover have "same_host s s'"
        using same_host_trans [OF same_host_trans [OF s1(1)]] op clo by blast
      moreover have "quiet s \<Longrightarrow> r = Inr ()"
        using same_host_quiet [OF same_host_trans [OF s1(1)]] op clo less_faults_quiet by blast
      ultimately show ?thesis using d wf' by (cases r) auto
    qed
  qed
qed

lemma made_in_dir:
  assumes wf: "wf_os s" and d: "is_dir_at s q" and md: "made_dirs s q t k"
  shows "look t k = look s k"
proof (rule ccontr)
  assume "look t k \<noteq> look s k"
  then have k: "look s k = None" "prefix k q" using md by (auto simp: made_dirs_def)
  then obtain r where "q = k @ r" by (auto simp: prefix_def)
  then show False using wf_prefix_dir [OF wf, of k r] is_dir_look [OF d] is_dir_look [of s k] k(1) by (cases "r = []") auto
qed

text \<open>In a directory that is there, a whiteout comes and nothing else changes.\<close>

lemma make_whiteout_in_dir:
  assumes m: "mounted st U s" and v: "valid_path cs" "valid_name c" and d: "is_dir_at s (U @ cs)"
    and new: "look s (U @ cs @ [wh c]) = None" and run: "make_whiteout st (of_comps cs) c s = (r, s')"
  shows "mounted st U s'" and "same_host s s'" and "k \<noteq> U @ cs @ [wh c] \<Longrightarrow> look s' k = look s k"
    and "\<not> is_dir_at s' (U @ cs @ [wh c])" and "r = Inr () \<Longrightarrow> look s' (U @ cs @ [wh c]) \<noteq> None"
    and "quiet s \<Longrightarrow> r = Inr ()"
proof -
  let ?w = "U @ cs @ [wh c]"
  note wf = mounted_wf [OF m]
  note mw = make_whiteout_spec [OF m v dir_plain [OF wf d] new run]
  have same: "look s' k = look s k" if "k \<noteq> ?w" for k
    by (rule made_in_dir [OF wf d]) (use mw that in \<open>auto simp: marked_def split: sum.splits\<close>)
  then show "k \<noteq> ?w \<Longrightarrow> look s' k = look s k" .
  have "is_dir_at s' U" using mounted_dir [OF m] same [of U] by (simp add: is_dir_at_def)
  then show "mounted st U s'" "same_host s s'" using mw m by (simp_all add: mounted_def)
  have "look s' ?w = None \<or> (\<exists>n. look s' ?w = Some n \<and> u_body n = BReg [])"
    using mw made_in_dir [OF wf d, of s' ?w] new by (cases r) (auto simp: marked_def)
  then show "\<not> is_dir_at s' ?w" by (auto simp: is_dir_at_def)
  show "r = Inr () \<Longrightarrow> look s' ?w \<noteq> None" using mw by (auto simp: marked_def)
  have "look s p = None \<or> is_dir_at s p" if "prefix p (U @ cs)" for p
    using that wf_prefix_dir [OF wf, of p] is_dir_look [OF d] d by (auto simp: prefix_def) (metis append_Nil2 append_assoc)
  then show "quiet s \<Longrightarrow> r = Inr ()" using mw by blast
qed

text \<open>A whiteout written again, if there was one.\<close>

lemma whiteout_back:
  assumes m: "mounted st U s" and v: "valid_path cs" "valid_name c" and d: "is_dir_at s (U @ cs)"
    and new: "look s (U @ cs @ [wh c]) = None"
    and t: "t = (if had then snd (make_whiteout st (of_comps cs) c s) else s)"
  shows "mounted st U t" and "k \<noteq> U @ cs @ [wh c] \<Longrightarrow> look t k = look s k"
    and "\<not> is_dir_at t (U @ cs @ [wh c])" and "quiet s \<Longrightarrow> look t (U @ cs @ [wh c]) = None \<longleftrightarrow> \<not> had"
proof -
  have wh: "had \<Longrightarrow> make_whiteout st (of_comps cs) c s = (fst (make_whiteout st (of_comps cs) c s), t)" using t by simp
  note mw = make_whiteout_in_dir [OF m v d new wh]
  show "mounted st U t" "k \<noteq> U @ cs @ [wh c] \<Longrightarrow> look t k = look s k"
    "\<not> is_dir_at t (U @ cs @ [wh c])" "quiet s \<Longrightarrow> look t (U @ cs @ [wh c]) = None \<longleftrightarrow> \<not> had"
    using mw(1,3,4,5,6) t m new by (cases had; simp add: is_dir_at_def)+
qed

section \<open>Removing\<close>

lemma entry_none_iff: "exists_pi (entry st s U cs c) \<longleftrightarrow>
    look s (U @ cs @ [wh c]) = None \<and>
    (look s (U @ cs @ [c]) \<noteq> None \<or> lower_node st (of_comps (cs @ [c])) \<noteq> None)"
  by (simp add: exists_pi_def entry_def)

lemma entry_upper: "pi_upper (entry st s U cs c) = Some n \<Longrightarrow> look s (U @ cs @ [c]) = Some n"
  by (simp add: entry_def split: if_splits)

lemma known_parent: "wf_os s \<Longrightarrow> look s (q @ [c]) \<noteq> None \<Longrightarrow> is_dir_at s q"
  using wf_parent by blast

lemma mounted_made_dirs:
  assumes "mounted st U s" and "wf_os s'" and "made_dirs s q s' U"
  shows "mounted st U s'"
  using assms made_dirs_dir [of s q s' U] by (simp add: mounted_def)

text \<open>The first step of a removal: a whiteout, when the name is in the layers below.\<close>

lemma remove_marked:
  assumes m: "mounted st U s" and v: "valid_path cs" "valid_name c" and pl: "plain s (U @ cs)"
    and nw: "look s (U @ cs @ [wh c]) = None"
    and one: "(if lo then make_whiteout st (of_comps cs) c s else (Inr (), s)) = (r1, s1)"
  shows "mounted st U s1" and "same_host s s1" and "k \<noteq> U @ cs @ [wh c] \<Longrightarrow> made_dirs s (U @ cs) s1 k"
    and "\<forall>n. look s1 (U @ cs @ [wh c]) = Some n \<longrightarrow> u_body n = BReg []"
    and "lo \<Longrightarrow> r1 = Inr () \<Longrightarrow> is_dir_at s1 (U @ cs) \<and> look s1 (U @ cs @ [wh c]) \<noteq> None"
    and "\<not> lo \<Longrightarrow> r1 = Inr () \<and> s1 = s"
    and "quiet s \<Longrightarrow> (\<And>p. prefix p (U @ cs) \<Longrightarrow> look s p = None \<or> is_dir_at s p) \<Longrightarrow> r1 = Inr ()"
proof -
  let ?w = "U @ cs @ [wh c]"
  have "mounted st U s1 \<and> same_host s s1 \<and> (\<forall>k. k \<noteq> ?w \<longrightarrow> made_dirs s (U @ cs) s1 k) \<and>
    (\<forall>n. look s1 ?w = Some n \<longrightarrow> u_body n = BReg []) \<and>
    (lo \<longrightarrow> r1 = Inr () \<longrightarrow> is_dir_at s1 (U @ cs) \<and> look s1 ?w \<noteq> None) \<and>
    (quiet s \<longrightarrow> (\<forall>p. prefix p (U @ cs) \<longrightarrow> look s p = None \<or> is_dir_at s p) \<longrightarrow> r1 = Inr ())"
  proof (cases lo)
    case False
    then show ?thesis using one m nw by (auto simp: made_dirs_def)
  next
    case True
    then have "make_whiteout st (of_comps cs) c s = (r1, s1)" using one by simp
    note sp = make_whiteout_spec [OF m v pl nw this]
    have md: "made_dirs s (U @ cs) s1 k" if "k \<noteq> ?w" for k
      using sp that by (cases r1) (auto simp: marked_def)
    then have "mounted st U s1" using sp mounted_made_dirs [OF m, of s1 "U @ cs"] by simp
    moreover have "\<not> prefix ?w (U @ cs)" by (auto dest: prefix_length_le)
    then have "(\<forall>k. made_dirs s (U @ cs) s1 k) \<Longrightarrow> look s1 ?w = None"
      using nw unfolding made_dirs_def by metis
    ultimately show ?thesis using sp md by (cases r1) (auto simp: marked_def)
  qed
  then show "mounted st U s1" "same_host s s1" "k \<noteq> ?w \<Longrightarrow> made_dirs s (U @ cs) s1 k"
    "\<forall>n. look s1 ?w = Some n \<longrightarrow> u_body n = BReg []"
    "lo \<Longrightarrow> r1 = Inr () \<Longrightarrow> is_dir_at s1 (U @ cs) \<and> look s1 ?w \<noteq> None"
    "quiet s \<Longrightarrow> (\<And>p. prefix p (U @ cs) \<Longrightarrow> look s p = None \<or> is_dir_at s p) \<Longrightarrow> r1 = Inr ()"
    by blast+
  show "\<not> lo \<Longrightarrow> r1 = Inr () \<and> s1 = s" using one by simp
qed

text \<open>The course of a removal that does not refuse at once.\<close>

lemma remove_course:
  assumes m: "mounted st U s" and v: "valid_path cs" "valid_name c" and pl: "plain s (U @ cs)"
    and run: "fuse_remove lib st (of_comps cs) c dir s = (r, s')" and ch: "r = Inr () \<or> s' \<noteq> s"
  obtains r1 s1 lo where "exists_pi (entry st s U cs c)" "look s (U @ cs @ [wh c]) = None"
    "lo \<longleftrightarrow> lower_node st (of_comps (cs @ [c])) \<noteq> None"
    "(if lo then make_whiteout st (of_comps cs) c s else (Inr (), s)) = (r1, s1)"
    "(case r1 of
        Inl e \<Rightarrow> (Inl (fl_errno lib (Errno e)), s1)
      | Inr _ \<Rightarrow> if look s (U @ cs @ [c]) = None then (Inr (), s1)
          else (case os_remove (abs_of ((U @ cs) @ [c])) s1 of
             (Inl e, s2) \<Rightarrow> (Inl (fl_errno lib (Errno e)), if lo then snd (clear_whiteout st (of_comps cs) c s2) else s2)
           | (Inr _, s2) \<Rightarrow> (Inr (), s2))) = (r, s')"
proof -
  let ?i = "entry st s U cs c" and ?lo = "lower_node st (of_comps (cs @ [c])) \<noteq> None"
  have st: "stat st s (join_path (of_comps cs) c) = ?i" by (rule stat_join [OF m v pl])
  note run = run [unfolded fuse_remove_def Let_def st upper_path_name [OF m v]]
  have ex: "exists_pi ?i" using run ch mounted_writable [OF m] v(2) by (auto split: if_splits)
  then have nw: "look s (U @ cs @ [wh c]) = None" by (simp add: entry_none_iff)
  then have e: "pi_upper ?i = look s (U @ cs @ [c])" "pi_lower ?i = lower_node st (of_comps (cs @ [c]))"
    by (simp_all add: entry_def)
  obtain r1 s1 where one: "(if ?lo then make_whiteout st (of_comps cs) c s else (Inr (), s)) = (r1, s1)" by force
  let ?ls = "if dir then dir_entries lib st s (join_path (of_comps cs) c) else Inr []"
  have g: "valid_name c" "writable st" "dir = is_dir_pi ?i" "?ls = Inr []"
    using run ch ex mounted_writable [OF m] v(2) by (auto split: if_splits sum.splits)
  show thesis
    by (rule that [OF ex nw refl one])
      (use run [unfolded e g(4) one] g(1-3) ex one in \<open>simp split: sum.splits if_splits\<close>)
qed

text \<open>What an operation that succeeded in removing a name did to the upper directory.\<close>

lemma remove_success:
  assumes m: "mounted st U s" and v: "valid_path cs" "valid_name c" and pl: "plain s (U @ cs)"
    and run: "fuse_remove lib st (of_comps cs) c dir s = (Inr (), s')"
  shows "mounted st U s' \<and> exists_pi (entry st s U cs c) \<and>
    look s' (U @ cs @ [c]) = None \<and> \<not> is_dir_at s' (U @ cs @ [wh c]) \<and>
    (lower_node st (of_comps (cs @ [c])) \<noteq> None \<longrightarrow> look s' (U @ cs @ [wh c]) \<noteq> None) \<and>
    (\<forall>k. k \<noteq> U @ cs @ [c] \<longrightarrow> k \<noteq> U @ cs @ [wh c] \<longrightarrow> made_dirs s (U @ cs) s' k)"
proof -
  let ?w = "U @ cs @ [wh c]" and ?p = "U @ cs @ [c]"
  obtain r1 s1 lo where ex: "exists_pi (entry st s U cs c)" and nw: "look s ?w = None"
    and lo: "lo \<longleftrightarrow> lower_node st (of_comps (cs @ [c])) \<noteq> None"
    and one: "(if lo then make_whiteout st (of_comps cs) c s else (Inr (), s)) = (r1, s1)"
    and rest: "(case r1 of
        Inl e \<Rightarrow> (Inl (fl_errno lib (Errno e)), s1)
      | Inr _ \<Rightarrow> if look s ?p = None then (Inr (), s1)
          else (case os_remove (abs_of ((U @ cs) @ [c])) s1 of
             (Inl e, s2) \<Rightarrow> (Inl (fl_errno lib (Errno e)), if lo then snd (clear_whiteout st (of_comps cs) c s2) else s2)
           | (Inr _, s2) \<Rightarrow> (Inr (), s2))) = (Inr (), s')"
    by (rule remove_course [OF m v pl run]) simp_all
  have r1: "r1 = Inr ()" using rest by (cases r1) auto
  note s1 = remove_marked [OF m v pl nw one]
  have w1: "\<not> is_dir_at s1 ?w" "lo \<Longrightarrow> look s1 ?w \<noteq> None"
    using s1(4,5) r1 by (auto simp: is_dir_at_def split: option.splits)
  show ?thesis
  proof (cases "look s ?p = None")
    case True
    have "look s1 ?p = None" using s1(3) [of ?p] True by (auto simp: made_dirs_def)
    moreover have "s' = s1" using rest r1 True by simp
    ultimately show ?thesis using s1(1,3) w1 ex lo by simp
  next
    case False
    have d1: "is_dir_at s1 (U @ cs)"
      using s1(5,6) r1 known_parent [OF mounted_wf [OF m], of "U @ cs" c] False by (cases lo) auto
    have two: "os_remove (abs_of ((U @ cs) @ [c])) s1 = (Inr (), s')"
      using rest r1 False by (auto split: sum.splits prod.splits)
    have l2: "look s' = (look s1)(?p := None)"
      using remove_spec [OF mounted_wf [OF s1(1)] d1 v(2) two] by simp
    have "wf_os s'" by (rule keeps_wfD [OF keeps_wf_remove mounted_wf [OF s1(1)] two]) simp
    then have "mounted st U s'" using s1(1) l2 by (auto simp: mounted_def is_dir_at_def)
    moreover have "made_dirs s (U @ cs) s' k" if "k \<noteq> ?p" "k \<noteq> ?w" for k
      using s1(3) [of k] that l2 by (simp add: made_dirs_def is_dir_at_def)
    moreover have "\<not> is_dir_at s' ?w" using w1 l2 by (simp add: is_dir_at_def)
    ultimately show ?thesis using l2 w1 ex lo by simp
  qed
qed

text \<open>Names that the daemon does not use for whiteouts itself.\<close>

definition clean_names :: "string list \<Rightarrow> bool" where
  "clean_names cs \<longleftrightarrow> (\<forall>c \<in> set cs. \<not> prefix whiteout_prefix c)"

lemma clean_names_simps [simp]:
  "clean_names []"
  "clean_names (cs @ ds) \<longleftrightarrow> clean_names cs \<and> clean_names ds"
  "clean_names [c] \<longleftrightarrow> \<not> prefix whiteout_prefix c"
  by (auto simp: clean_names_def)

lemma clean_ne_wh: "\<not> prefix whiteout_prefix c \<Longrightarrow> c \<noteq> wh d"
  by auto

text \<open>A change of the upper directory at \<open>a\<close> and at whiteouts, besides new directories on the way
  to \<open>q\<close>, leaves the view of every other path that is not above \<open>q\<close>.\<close>

lemma entry_frame:
  assumes ch: "\<And>k. k \<noteq> a \<Longrightarrow> k \<noteq> w \<Longrightarrow> made_dirs s (U @ cs) s' k"
    and "U @ ds @ [d] \<noteq> a" "U @ ds @ [d] \<noteq> w" "U @ ds @ [wh d] \<noteq> a" "U @ ds @ [wh d] \<noteq> w"
    and "\<not> prefix (ds @ [d]) cs" and "\<not> prefix (ds @ [wh d]) cs"
  shows "entry st s' U ds d = entry st s U ds d"
proof (rule entry_cong)
  show "look s' (U @ ds @ [wh d]) = look s (U @ ds @ [wh d])"
    using ch [of "U @ ds @ [wh d]"] assms(4,5,7) by (simp add: made_dirs_def)
  show "look s' (U @ ds @ [d]) = look s (U @ ds @ [d])"
    using ch [of "U @ ds @ [d]"] assms(2,3,6) by (simp add: made_dirs_def)
qed

lemma not_prefix_clean: "clean_names cs \<Longrightarrow> \<not> prefix (ds @ [wh d]) cs"
  by (auto simp: clean_names_def prefix_def)

lemma remove_hides_lemma:
  assumes m: "mounted st U s" and v: "valid_path cs" "valid_name c" and pl: "plain s (U @ cs)"
    and run: "fuse_remove lib st (of_comps cs) c dir s = (Inr (), s')"
    and clean: "clean_names (cs @ [c])"
  shows "\<not> exists_pi (stat st s' (of_comps (cs @ [c])))"
    and "valid_path ds \<Longrightarrow> valid_name d \<Longrightarrow> plain s (U @ ds) \<Longrightarrow> clean_names (ds @ [d]) \<Longrightarrow>
      ds @ [d] \<noteq> cs @ [c] \<Longrightarrow> \<not> prefix (ds @ [d]) cs \<Longrightarrow>
      stat st s' (of_comps (ds @ [d])) = stat st s (of_comps (ds @ [d]))"
proof -
  note r = remove_success [OF m v pl run]
  have ch: "\<And>k. k \<noteq> U @ cs @ [c] \<Longrightarrow> k \<noteq> U @ cs @ [wh c] \<Longrightarrow> made_dirs s (U @ cs) s' k"
    using r by blast
  have m': "mounted st U s'" using r by blast
  have link: "\<not> is_link_at s' k" if "\<not> is_link_at s k" "k \<noteq> U @ cs @ [wh c]" for k
    using that r made_dirs_link [of s "U @ cs" s' k]
    by (cases "k = U @ cs @ [c]") (auto simp: is_link_at_def [of s' "U @ cs @ [c]"])
  have pl': "plain s' (U @ ds)" if "plain s (U @ ds)" "clean_names ds" for ds
    unfolding plain_def
  proof (intro allI impI)
    fix p assume p: "prefix p (U @ ds)"
    have "p \<noteq> U @ cs @ [wh c]"
      using p not_prefix_clean [OF that(2)] by (auto simp: prefix_append)
    then show "\<not> is_link_at s' p" using that(1) p by (intro link) (simp_all add: plain_def)
  qed
  have "entry st s' U cs c = \<lparr>pi_lower = None, pi_upper = None\<rparr> \<or>
      (look s' (U @ cs @ [c]) = None \<and> lower_node st (of_comps (cs @ [c])) = None)"
    using r by (auto simp: entry_def)
  moreover have "stat st s' (of_comps (cs @ [c])) = entry st s' U cs c"
    using clean by (intro stat_entry [OF m' v pl' [OF pl]]) simp
  ultimately show "\<not> exists_pi (stat st s' (of_comps (cs @ [c])))"
    by (auto simp: exists_pi_def entry_def)
  assume d: "valid_path ds" "valid_name d" "plain s (U @ ds)" "clean_names (ds @ [d])"
    "ds @ [d] \<noteq> cs @ [c]" "\<not> prefix (ds @ [d]) cs"
  have "entry st s' U ds d = entry st s U ds d"
  proof (rule entry_frame [OF ch])
    show "U @ ds @ [d] \<noteq> U @ cs @ [c]" using d(5) by simp
    show "U @ ds @ [d] \<noteq> U @ cs @ [wh c]" using d(4) by auto
    show "U @ ds @ [wh d] \<noteq> U @ cs @ [c]" using clean by auto
    show "U @ ds @ [wh d] \<noteq> U @ cs @ [wh c]" using d(5) by simp
    show "\<not> prefix (ds @ [wh d]) cs" using clean by (intro not_prefix_clean) simp
  qed (use d in simp_all)
  then show "stat st s' (of_comps (ds @ [d])) = stat st s (of_comps (ds @ [d]))"
    using d pl' by (simp add: stat_entry [OF m'] stat_entry [OF m])
qed

text \<open>The whiteout of a removal that failed is taken away again, if the host lets it.\<close>

lemma remove_undone:
  assumes m: "mounted st U s" and v: "valid_path cs" "valid_name c" and d: "is_dir_at s (U @ cs)"
    and body: "\<forall>n. look s (U @ cs @ [wh c]) = Some n \<longrightarrow> u_body n = BReg []"
    and t: "t = (if lo then snd (clear_whiteout st (of_comps cs) c s) else s)"
    and none: "lo \<or> look s (U @ cs @ [wh c]) = None"
  shows "mounted st U t" and "k \<noteq> U @ cs @ [wh c] \<Longrightarrow> look t k = look s k" and "\<not> is_link_at t (U @ cs @ [wh c])"
    and "quiet s \<Longrightarrow> look t (U @ cs @ [wh c]) = None"
proof -
  let ?w = "U @ cs @ [wh c]"
  have "mounted st U t \<and> (\<forall>k. k \<noteq> ?w \<longrightarrow> look t k = look s k) \<and> \<not> is_link_at t ?w \<and> (quiet s \<longrightarrow> look t ?w = None)"
  proof (cases lo)
    case False
    then show ?thesis using t m none by (simp add: is_link_at_def)
  next
    case True
    then have "clear_whiteout st (of_comps cs) c s = (fst (clear_whiteout st (of_comps cs) c s), t)" using t by simp
    note cl = clear_whiteout_spec [OF m v d this]
    have same: "look t k = look s k" if "k \<noteq> ?w" for k
      using cl that by (cases "fst (clear_whiteout st (of_comps cs) c s)") auto
    have "is_dir_at t U" using mounted_dir [OF m] same [of U] by (simp add: is_dir_at_def)
    moreover have "\<not> is_link_at t ?w"
      using cl body by (cases "fst (clear_whiteout st (of_comps cs) c s)") (auto simp: is_link_at_def split: option.splits)
    moreover have "quiet s \<Longrightarrow> look t ?w = None" using cl body by auto
    ultimately show ?thesis using cl same m by (simp add: mounted_def)
  qed
  then show "mounted st U t" "k \<noteq> ?w \<Longrightarrow> look t k = look s k" "\<not> is_link_at t ?w" "quiet s \<Longrightarrow> look t ?w = None"
    by blast+
qed

lemma remove_failed:
  assumes m: "mounted st U s" and v: "valid_path cs" "valid_name c" and pl: "plain s (U @ cs)"
    and run: "fuse_remove lib st (of_comps cs) c dir s = (Inl e, s')"
  shows "s' = s \<or>
    (mounted st U s' \<and> look s (U @ cs @ [wh c]) = None \<and>
     (\<forall>k. k \<noteq> U @ cs @ [wh c] \<longrightarrow> made_dirs s (U @ cs) s' k) \<and>
     \<not> is_link_at s' (U @ cs @ [wh c]) \<and>
     (lower_node st (of_comps (cs @ [c])) = None \<or>
      (quiet s \<and> (\<forall>p. prefix p (U @ cs) \<longrightarrow> look s p = None \<or> is_dir_at s p)) \<or>
      (faults s \<le> 1 \<and> \<not> has_entries s (U @ cs @ [c]) \<and> fst (make_whiteout st (of_comps cs) c s) = Inr ()) \<longrightarrow>
        look s' (U @ cs @ [wh c]) = None))"
proof (cases "s' = s")
  case ch: False
  let ?w = "U @ cs @ [wh c]" and ?p = "U @ cs @ [c]"
  let ?one = "faults s \<le> 1 \<and> \<not> has_entries s ?p \<and> fst (make_whiteout st (of_comps cs) c s) = Inr ()"
  obtain r1 s1 lo where "exists_pi (entry st s U cs c)" and nw: "look s ?w = None"
    and lo: "lo \<longleftrightarrow> lower_node st (of_comps (cs @ [c])) \<noteq> None"
    and one: "(if lo then make_whiteout st (of_comps cs) c s else (Inr (), s)) = (r1, s1)"
    and rest: "(case r1 of
        Inl e \<Rightarrow> (Inl (fl_errno lib (Errno e)), s1)
      | Inr _ \<Rightarrow> if look s ?p = None then (Inr (), s1)
          else (case os_remove (abs_of ((U @ cs) @ [c])) s1 of
             (Inl e, s2) \<Rightarrow> (Inl (fl_errno lib (Errno e)), if lo then snd (clear_whiteout st (of_comps cs) c s2) else s2)
           | (Inr _, s2) \<Rightarrow> (Inr (), s2))) = (Inl e, s')"
    by (rule remove_course [OF m v pl run]) (use ch in simp_all)
  note s1 = remove_marked [OF m v pl nw one]
  show ?thesis
  proof (cases r1)
    case (Inl e1)
    then have "s' = s1" using rest by simp
    moreover have "\<not> is_link_at s1 ?w" using s1(4) by (auto simp: is_link_at_def split: option.splits)
    moreover have lo1: "lo" using s1(6) Inl by auto
    moreover have "\<not> ?one" using one lo1 Inl by auto
    ultimately show ?thesis using s1(1,3,7) nw Inl lo by blast
  next
    case (Inr u)
    then have k: "look s ?p \<noteq> None" using rest by (auto split: if_splits)
    have d1: "is_dir_at s1 (U @ cs)"
      using s1(5,6) Inr known_parent [OF mounted_wf [OF m], of "U @ cs" c] k by (cases lo) auto
    obtain r2 s2 where two: "os_remove (abs_of ((U @ cs) @ [c])) s1 = (r2, s2)" by force
    then obtain e2 where r2: "r2 = Inl e2" using rest Inr k by (cases r2) auto
    have s': "s' = (if lo then snd (clear_whiteout st (of_comps cs) c s2) else s2)" using rest Inr k two r2 by simp
    note rm = remove_spec [OF mounted_wf [OF s1(1)] d1 v(2) two]
    have l2: "look s2 = look s1" using rm r2 by simp
    have "wf_os s2" by (rule keeps_wfD [OF keeps_wf_remove mounted_wf [OF s1(1)] two]) simp
    then have m2: "mounted st U s2" and d2: "is_dir_at s2 (U @ cs)"
      using s1(1) d1 l2 by (simp_all add: mounted_def is_dir_at_def)
    have body: "\<forall>n. look s2 ?w = Some n \<longrightarrow> u_body n = BReg []" using s1(4) l2 by simp
    have none: "lo \<or> look s2 ?w = None" using s1(6) nw l2 by (cases lo) simp_all
    note un = remove_undone [OF m2 v d2 body s' none]
    have "made_dirs s (U @ cs) s' k" if "k \<noteq> ?w" for k
      using made_dirs_same [of s' k s1] un(2) [OF that] l2 s1(3) [OF that] by simp
    moreover have "quiet s \<Longrightarrow> quiet s2" using same_host_quiet same_host_trans [OF s1(2)] rm by blast
    moreover have "quiet s2" if ?one
    proof -
      have "is_dir_at s (U @ cs)" using known_parent [OF mounted_wf [OF m], of "U @ cs" c] k by simp
      from made_in_dir [OF mounted_wf [OF m] this s1(3)] have same: "look s1 q = look s q" if "q \<noteq> ?w" for q
        using that by blast
      have "?p @ [x] \<noteq> ?w" for x by simp
      then have "\<not> has_entries s1 ?p" using that same by (simp add: has_entries_iff)
      moreover have "look s1 ?p \<noteq> None" using same [of ?p] k by simp
      ultimately have "faults s2 < faults s1"
        using remove_fails [OF mounted_wf [OF s1(1)] d1 v(2)] two r2 by simp
      then show ?thesis using that same_host_faults [OF s1(2)] by (simp add: quiet_def)
    qed
    moreover have "\<not> lo \<Longrightarrow> look s' ?w = None" using none s' by simp
    ultimately show ?thesis using un nw lo by blast
  qed
qed simp

section \<open>Creating\<close>

text \<open>The common course of \<open>Create\<close>, \<open>Mkdir\<close> and \<open>Symlink\<close> around the call that makes the node.\<close>

definition make_in ::
    "fuse_lib \<Rightarrow> fuse_state \<Rightarrow> string \<Rightarrow> string \<Rightarrow> (string \<Rightarrow> os \<Rightarrow> (errno + 'a) \<times> os) \<Rightarrow> os \<Rightarrow>
     (errno + 'a) \<times> os" where
  "make_in lib st parent name act s =
     (case os_mkdir_all (upper_path st parent) 0x1ED s of
        (Inl e, s1) \<Rightarrow> (Inl (fl_errno lib (Errno e)), s1)
      | (Inr _, s1) \<Rightarrow>
          (case clear_whiteout st parent name s1 of
             (Inl e, s2) \<Rightarrow> (Inl (fl_errno lib (Errno e)), s2)
           | (Inr _, s2) \<Rightarrow>
               (case act (upper_path st (join_path parent name)) s2 of
                  (Inl e, s3) \<Rightarrow>
                    (Inl e, if has_whiteout st s1 parent name
                       then snd (make_whiteout st parent name s3) else s3)
                | (Inr x, s3) \<Rightarrow> (Inr x, s3))))"

text \<open>The directory is made and a whiteout of the name is taken away.\<close>

lemma make_in_prepared:
  assumes m: "mounted st U s" and v: "valid_path cs" "valid_name c" and pl: "plain s (U @ cs)"
    and one: "os_mkdir_all (upper_path st (of_comps cs)) 0x1ED s = (r1, s1)"
    and two: "clear_whiteout st (of_comps cs) c s1 = (r2, s2)"
  shows "mounted st U s1" and "made_dirs s (U @ cs) s1 k" and "look s1 (U @ cs @ [x]) = look s (U @ cs @ [x])"
    and "quiet s \<Longrightarrow> (\<And>q. prefix q (U @ cs) \<Longrightarrow> look s q = None \<or> is_dir_at s q) \<Longrightarrow> r1 = Inr ()"
    and "r1 = Inr () \<Longrightarrow> mounted st U s2 \<and> same_host s s2 \<and> is_dir_at s2 (U @ cs) \<and>
      (\<forall>k. k \<noteq> U @ cs @ [wh c] \<longrightarrow> made_dirs s (U @ cs) s2 k \<and> look s2 k = look s1 k) \<and>
      (has_whiteout st s1 (of_comps cs) c \<longleftrightarrow> look s (U @ cs @ [wh c]) \<noteq> None) \<and>
      look s2 (U @ cs @ [wh c]) = (if r2 = Inr () then None else look s (U @ cs @ [wh c])) \<and>
      (quiet s \<longrightarrow> \<not> is_dir_at s (U @ cs @ [wh c]) \<longrightarrow> r2 = Inr ())"
proof -
  let ?w = "U @ cs @ [wh c]"
  have vq: "valid_path (U @ cs)" using mounted_valid [OF m] v by simp
  note s1 = mkdir_all_spec [OF mounted_wf [OF m] vq pl one [unfolded upper_path_of [OF m v(1)]]]
  show m1: "mounted st U s1" by (rule mounted_grown [OF m s1(2,3)])
  show md1: "made_dirs s (U @ cs) s1 k" for k by (rule grown_made_dirs [OF s1(3)])
  show x1: "look s1 (U @ cs @ [x]) = look s (U @ cs @ [x])" for x
    using grown_other [OF s1(3), of "U @ cs @ [x]"] by (auto dest: prefix_length_le)
  show "quiet s \<Longrightarrow> (\<And>q. prefix q (U @ cs) \<Longrightarrow> look s q = None \<or> is_dir_at s q) \<Longrightarrow> r1 = Inr ()" by (rule s1(5))
  assume "r1 = Inr ()"
  then have d1: "is_dir_at s1 (U @ cs)" using s1(4) by simp
  note cl = clear_whiteout_spec [OF m1 v d1 two]
  have l2: "look s2 k = look s1 k" if "k \<noteq> ?w" for k using cl that by (cases r2) auto
  have d2: "is_dir_at s2 U" "is_dir_at s2 (U @ cs)"
    using mounted_dir [OF m1] d1 l2 [of U] l2 [of "U @ cs"] by (simp_all add: is_dir_at_def)
  have m2: "mounted st U s2" using m1 cl d2 by (simp add: mounted_def)
  have hw: "has_whiteout st s1 (of_comps cs) c \<longleftrightarrow> look s ?w \<noteq> None"
    using has_whiteout_iff [OF m1 v dir_plain [OF s1(2) d1]] x1 by simp
  have w2: "look s2 ?w = (if r2 = Inr () then None else look s ?w)" using cl x1 by (cases r2) auto
  have q2: "quiet s \<longrightarrow> \<not> is_dir_at s ?w \<longrightarrow> r2 = Inr ()"
    using cl x1 same_host_quiet [OF s1(1)] by (auto simp: is_dir_at_def)
  show "mounted st U s2 \<and> same_host s s2 \<and> is_dir_at s2 (U @ cs) \<and>
      (\<forall>k. k \<noteq> ?w \<longrightarrow> made_dirs s (U @ cs) s2 k \<and> look s2 k = look s1 k) \<and>
      (has_whiteout st s1 (of_comps cs) c \<longleftrightarrow> look s ?w \<noteq> None) \<and>
      look s2 ?w = (if r2 = Inr () then None else look s ?w) \<and>
      (quiet s \<longrightarrow> \<not> is_dir_at s ?w \<longrightarrow> r2 = Inr ())"
    using m2 same_host_trans [OF s1(1)] cl d2 l2 md1 made_dirs_same hw w2 q2 by blast
qed

text \<open>What the operations rely on: the call makes a node at a name of a directory, or fails and
  changes nothing, and it does not fail at a free name without a fault.\<close>

locale node_maker =
  fixes act :: "string \<Rightarrow> os \<Rightarrow> (errno + 'a) \<times> os"
  assumes act_law: "wf_os s \<Longrightarrow> is_dir_at s q \<Longrightarrow> valid_name c \<Longrightarrow> \<not> is_link_at s (q @ [c]) \<Longrightarrow>
      act (abs_of (q @ [c])) s = (r, s') \<Longrightarrow>
      same_host s s' \<and> wf_os s' \<and>
      (case r of
         Inl _ \<Rightarrow> look s' = look s
       | Inr _ \<Rightarrow> \<exists>n. look s' = (look s)(q @ [c] \<mapsto> n)) \<and>
      (look s (q @ [c]) = None \<longrightarrow> r \<in> range Inr \<or> faults s' < faults s)"
begin

lemma act_in_dir:
  assumes m: "mounted st U s" and d: "is_dir_at s (U @ cs)" and c: "valid_name c" "\<not> is_link_at s (U @ cs @ [c])"
    and run: "act (abs_of ((U @ cs) @ [c])) s = (r, s')"
  shows "mounted st U s'" and "same_host s s'" and "k \<noteq> U @ cs @ [c] \<Longrightarrow> look s' k = look s k"
    and "r = Inl e \<Longrightarrow> look s' = look s" and "r = Inr x \<Longrightarrow> look s' (U @ cs @ [c]) \<noteq> None"
    and "look s (U @ cs @ [c]) = None \<Longrightarrow> r \<in> range Inr \<or> faults s' < faults s"
proof -
  note law = act_law [OF mounted_wf [OF m] d c(1) _ run]
  have same: "look s' k = look s k" if "k \<noteq> U @ cs @ [c]" for k using law c(2) that by (cases r) auto
  then show "k \<noteq> U @ cs @ [c] \<Longrightarrow> look s' k = look s k" .
  have "is_dir_at s' U" using mounted_dir [OF m] same [of U] by (simp add: is_dir_at_def)
  then show "mounted st U s'" "same_host s s'" using law c(2) m by (simp_all add: mounted_def)
  show "r = Inl e \<Longrightarrow> look s' = look s" "r = Inr x \<Longrightarrow> look s' (U @ cs @ [c]) \<noteq> None"
    "look s (U @ cs @ [c]) = None \<Longrightarrow> r \<in> range Inr \<or> faults s' < faults s" using law c(2) by auto
qed

lemma make_in_spec:
  assumes m: "mounted st U s" and v: "valid_path cs" "valid_name c" and pl: "plain s (U @ cs @ [c])"
    and run: "make_in lib st (of_comps cs) c act s = (r, s')"
  defines "w \<equiv> U @ cs @ [wh c]" and "p \<equiv> U @ cs @ [c]"
  shows "mounted st U s'"
    and "\<And>k. k \<noteq> w \<Longrightarrow> k \<noteq> p \<Longrightarrow> made_dirs s (U @ cs) s' k"
    and "r = Inl e \<Longrightarrow> made_dirs s (U @ cs) s' p"
    and "r = Inr x \<Longrightarrow> look s' w = None \<and> look s' p \<noteq> None"
    and "is_dir_at s' w \<Longrightarrow> is_dir_at s w"
    and "quiet s \<Longrightarrow> (\<And>q. prefix q (U @ cs) \<Longrightarrow> look s q = None \<or> is_dir_at s q) \<Longrightarrow>
      \<not> is_dir_at s w \<Longrightarrow> look s p = None \<Longrightarrow> r \<in> range Inr"
    and "r = Inl e \<Longrightarrow> quiet s \<or> look s w = None \<or> (faults s \<le> 1 \<and> look s p = None) \<Longrightarrow>
      look s' w = None \<longleftrightarrow> look s w = None"
proof -
  let ?calm = "quiet s \<or> look s w = None \<or> (faults s \<le> 1 \<and> look s p = None)"
  let ?easy = "quiet s \<and> (\<forall>q. prefix q (U @ cs) \<longrightarrow> look s q = None \<or> is_dir_at s q) \<and> \<not> is_dir_at s w"
  let ?goal = "mounted st U s' \<and> (\<forall>k. k \<noteq> w \<longrightarrow> k \<noteq> p \<longrightarrow> made_dirs s (U @ cs) s' k) \<and>
    (r \<in> range Inl \<longrightarrow> made_dirs s (U @ cs) s' p) \<and>
    (r \<in> range Inr \<longrightarrow> look s' w = None \<and> look s' p \<noteq> None) \<and> (is_dir_at s' w \<longrightarrow> is_dir_at s w) \<and>
    (?easy \<longrightarrow> look s p = None \<longrightarrow> r \<in> range Inr) \<and>
    (r \<in> range Inl \<longrightarrow> ?calm \<longrightarrow> (look s' w = None \<longleftrightarrow> look s w = None))"
  have plq: "plain s (U @ cs)" and nl: "\<not> is_link_at s p" using pl plain_snoc [of s "U @ cs" c] by (simp_all add: p_def)
  have ne: "p \<noteq> w" by (simp add: w_def p_def)
  obtain r1 s1 where one: "os_mkdir_all (upper_path st (of_comps cs)) 0x1ED s = (r1, s1)" by force
  obtain r2 s2 where two: "clear_whiteout st (of_comps cs) c s1 = (r2, s2)" by force
  obtain r3 s3 where three: "act (abs_of ((U @ cs) @ [c])) s2 = (r3, s3)" by force
  note pr = make_in_prepared [OF m v plq one two, folded w_def]
  have w1: "look s1 w = look s w" and p1: "look s1 p = look s p" using pr(3) by (simp_all add: w_def p_def)
  have ?goal
  proof (cases "r1 = Inr () \<and> r2 = Inr ()")
    case False
    have "(r1 \<noteq> Inr () \<and> s' = s1 \<or> r1 = Inr () \<and> s' = s2) \<and> r \<in> range Inl"
      using run False unfolding make_in_def one by (auto simp: two split: sum.splits)
    then show ?thesis
      using pr False w1 ne made_dirs_same [of s1 w s] by (auto simp: is_dir_at_def)
  next
    case True
    then have s2: "mounted st U s2" "same_host s s2" "is_dir_at s2 (U @ cs)" "look s2 w = None"
      "\<And>k. k \<noteq> w \<Longrightarrow> made_dirs s (U @ cs) s2 k" "look s2 p = look s p"
      and had: "has_whiteout st s1 (of_comps cs) c \<longleftrightarrow> look s w \<noteq> None" using pr(5) ne p1 by auto
    have "\<not> is_link_at s2 (U @ cs @ [c])" using nl s2(6) by (simp add: is_link_at_def p_def)
    note ac = act_in_dir [OF s2(1,3) v(2) this three, folded p_def]
    have w3: "look s3 w = None" using ac(3) s2(4) ne by simp
    show ?thesis
    proof (cases r3)
      case (Inr x)
      then have "r = Inr x" "s' = s3"
        using run one two three True upper_path_name [OF m v] by (simp_all add: make_in_def)
      moreover have "made_dirs s (U @ cs) s3 k" if "k \<noteq> w" "k \<noteq> p" for k
        using made_dirs_same [of s3 k s2] ac(3) [OF that(2)] s2(5) [OF that(1)] by simp
      moreover have "look s3 p \<noteq> None" "\<not> is_dir_at s3 w" using ac(5) [OF Inr] w3 by (simp_all add: is_dir_at_def)
      ultimately show ?thesis using ac(1) w3 by auto
    next
      case (Inl e)
      define t where "t = (if look s w \<noteq> None then snd (make_whiteout st (of_comps cs) c s3) else s3)"
      have rs: "r = Inl e" "s' = t"
        using run one two three True upper_path_name [OF m v] Inl had by (simp_all add: make_in_def t_def)
      have l3: "look s3 = look s2" by (rule ac(4) [OF Inl])
      have "is_dir_at s3 (U @ cs)" using s2(3) l3 by (simp add: is_dir_at_def)
      note bk = whiteout_back [OF ac(1) v this w3 [unfolded w_def] t_def, folded w_def]
      have "made_dirs s (U @ cs) t k" if "k \<noteq> w" for k
        using made_dirs_same [of t k s2] bk(2) [OF that] l3 s2(5) [OF that] by simp
      moreover have "quiet s \<Longrightarrow> look s p \<noteq> None"
        using ac(6) Inl s2(6) same_host_faults [OF s2(2)] by (auto simp: quiet_def)
      moreover have "look s w = None \<or> quiet s3" if ?calm
        using that ac(6) Inl s2(6) same_host_faults [OF s2(2)] same_host_faults [OF ac(2)] by (auto simp: quiet_def)
      then have "look t w = None \<longleftrightarrow> look s w = None" if ?calm using that bk(4) w3 t_def by auto
      ultimately show ?thesis using rs bk(1-3) ne by auto
    qed
  qed
  then show "mounted st U s'" "\<And>k. k \<noteq> w \<Longrightarrow> k \<noteq> p \<Longrightarrow> made_dirs s (U @ cs) s' k"
    "r = Inl e \<Longrightarrow> made_dirs s (U @ cs) s' p" "r = Inr x \<Longrightarrow> look s' w = None \<and> look s' p \<noteq> None"
    "is_dir_at s' w \<Longrightarrow> is_dir_at s w"
    "quiet s \<Longrightarrow> (\<And>q. prefix q (U @ cs) \<Longrightarrow> look s q = None \<or> is_dir_at s q) \<Longrightarrow> \<not> is_dir_at s w \<Longrightarrow>
      look s p = None \<Longrightarrow> r \<in> range Inr"
    "r = Inl e \<Longrightarrow> ?calm \<Longrightarrow> look s' w = None \<longleftrightarrow> look s w = None"
    by blast+
qed

end

text \<open>The calls of the three operations, with their errors translated.\<close>

definition errno_act :: "fuse_lib \<Rightarrow> (string \<Rightarrow> unit oscall) \<Rightarrow> string \<Rightarrow> unit oscall" where
  "errno_act lib f p s =
     (case f p s of (Inl e, s') \<Rightarrow> (Inl (fl_errno lib (Errno e)), s') | (Inr _, s') \<Rightarrow> (Inr (), s'))"

interpretation mkd: node_maker "errno_act lib (\<lambda>p. os_mkdir p m)" for lib m
proof
  fix s s' :: os and q c r
  assume a: "wf_os s" "is_dir_at s q" "valid_name c"
    and run: "errno_act lib (\<lambda>p. os_mkdir p m) (abs_of (q @ [c])) s = (r, s')"
  obtain r1 where one: "os_mkdir (abs_of (q @ [c])) m s = (r1, s')"
    and r: "r = (case r1 of Inl e \<Rightarrow> Inl (fl_errno lib (Errno e)) | Inr _ \<Rightarrow> Inr ())"
    using run by (auto simp: errno_act_def split: prod.splits sum.splits)
  have "wf_os s'" by (rule keeps_wfD [OF keeps_wf_mkdir a(1) one]) simp
  then show "same_host s s' \<and> wf_os s' \<and>
      (case r of Inl _ \<Rightarrow> look s' = look s | Inr _ \<Rightarrow> \<exists>n. look s' = (look s)(q @ [c] \<mapsto> n)) \<and>
      (look s (q @ [c]) = None \<longrightarrow> r \<in> range Inr \<or> faults s' < faults s)"
    using mkdir_spec [OF a one] mkdir_fails [OF a] one r by (cases r1) auto
qed

interpretation sym: node_maker "errno_act lib (os_symlink target)" for lib target
proof
  fix s s' :: os and q c r
  assume a: "wf_os s" "is_dir_at s q" "valid_name c"
    and run: "errno_act lib (os_symlink target) (abs_of (q @ [c])) s = (r, s')"
  obtain r1 where one: "os_symlink target (abs_of (q @ [c])) s = (r1, s')"
    and r: "r = (case r1 of Inl e \<Rightarrow> Inl (fl_errno lib (Errno e)) | Inr _ \<Rightarrow> Inr ())"
    using run by (auto simp: errno_act_def split: prod.splits sum.splits)
  have "wf_os s'" by (rule keeps_wfD [OF keeps_wf_symlink a(1) one]) simp
  then show "same_host s s' \<and> wf_os s' \<and>
      (case r of Inl _ \<Rightarrow> look s' = look s | Inr _ \<Rightarrow> \<exists>n. look s' = (look s)(q @ [c] \<mapsto> n)) \<and>
      (look s (q @ [c]) = None \<longrightarrow> r \<in> range Inr \<or> faults s' < faults s)"
    using symlink_spec [OF a one] symlink_fails [OF a] one r by (cases r1) auto
qed

lemma creat_flag: "has_flag ((flags OR O_CREAT) AND NOT (O_APPEND OR FMODE_EXEC)) O_CREAT"
proof -
  have "((flags OR O_CREAT) AND NOT (O_APPEND OR FMODE_EXEC)) AND O_CREAT =
      (flags OR O_CREAT) AND (NOT (O_APPEND OR FMODE_EXEC) AND O_CREAT)"
    by (simp only: and.assoc)
  also have "NOT (O_APPEND OR FMODE_EXEC) AND O_CREAT = O_CREAT"
    by (simp add: O_APPEND_def FMODE_EXEC_def O_CREAT_def)
  also have "(flags OR O_CREAT) AND O_CREAT = O_CREAT" by (simp add: bit.conj_disj_distrib2)
  finally show ?thesis by (simp add: has_flag_def O_CREAT_def)
qed

interpretation cre: node_maker "\<lambda>p. open_loopback lib p (flags OR O_CREAT) m" for lib flags m
proof
  fix s s' :: os and q c r
  assume a: "wf_os s" "is_dir_at s q" "valid_name c" "\<not> is_link_at s (q @ [c])"
    and run: "open_loopback lib (abs_of (q @ [c])) (flags OR O_CREAT) m s = (r, s')"
  let ?fl = "(flags OR O_CREAT) AND NOT (O_APPEND OR FMODE_EXEC)"
  obtain r1 where one: "sys_open (abs_of (q @ [c])) ?fl m s = (r1, s')"
    and r: "r = (case r1 of Inl e \<Rightarrow> Inl (fl_errno lib (Errno e)) | Inr q \<Rightarrow> Inr (Loopback q))"
    using run by (auto simp: open_loopback_def split: prod.splits sum.splits)
  have "wf_os s'" by (rule keeps_wfD [OF keeps_wf_open a(1) one]) simp
  then show "same_host s s' \<and> wf_os s' \<and>
      (case r of Inl _ \<Rightarrow> look s' = look s | Inr _ \<Rightarrow> \<exists>n. look s' = (look s)(q @ [c] \<mapsto> n)) \<and>
      (look s (q @ [c]) = None \<longrightarrow> r \<in> range Inr \<or> faults s' < faults s)"
    using open_spec [OF a one] open_fails [OF a(1-3) _ creat_flag] one r by (cases r1) auto
qed

definition finish_make ::
    "fuse_lib \<Rightarrow> fuse_state \<Rightarrow> string \<Rightarrow> ('a \<Rightarrow> entry_out \<Rightarrow> 'b) \<Rightarrow> (errno + 'a) \<times> os \<Rightarrow> (errno + 'b) \<times> os"
  where
  "finish_make lib st p f rs =
     (case rs of
        (Inl e, s') \<Rightarrow> (Inl e, s')
      | (Inr x, s') \<Rightarrow> (let i = stat st s' p in (Inr (f x (stable_of i, fill_attr lib st i)), s')))"

lemma fuse_mkdir_make:
  "valid_name c \<Longrightarrow> writable st \<Longrightarrow> fuse_mkdir lib st parent c mode s =
     finish_make lib st (join_path parent c) (\<lambda>_ e. e)
       (make_in lib st parent c (errno_act lib (\<lambda>p. os_mkdir p (mode AND 0xFFF))) s)"
  by (auto simp: fuse_mkdir_def make_in_def finish_make_def errno_act_def Let_def
      split: prod.splits sum.splits)

lemma fuse_symlink_make:
  "valid_name c \<Longrightarrow> writable st \<Longrightarrow> fuse_symlink lib st parent target c s =
     finish_make lib st (join_path parent c) (\<lambda>_ e. e)
       (make_in lib st parent c (errno_act lib (os_symlink target)) s)"
  by (auto simp: fuse_symlink_def make_in_def finish_make_def errno_act_def Let_def
      split: prod.splits sum.splits)

lemma fuse_create_make:
  "valid_name c \<Longrightarrow> writable st \<Longrightarrow> fuse_create lib st parent c flags mode s =
     finish_make lib st (join_path parent c) (\<lambda>fh e. (e, fh))
       (make_in lib st parent c (\<lambda>p. open_loopback lib p (flags OR O_CREAT) (mode AND 0xFFF)) s)"
  by (auto simp: fuse_create_def make_in_def finish_make_def Let_def
      split: prod.splits sum.splits)

text \<open>The view elsewhere after a change at the name \<open>c\<close> of \<open>cs\<close>.\<close>

lemma stat_elsewhere:
  assumes m: "mounted st U s" and m': "mounted st U s'"
    and ch: "\<And>k. k \<noteq> U @ cs @ [wh c] \<Longrightarrow> k \<noteq> U @ cs @ [c] \<Longrightarrow> made_dirs s (U @ cs) s' k"
    and clean: "clean_names (cs @ [c])" "clean_names (ds @ [d])"
    and d: "valid_path ds" "valid_name d" "plain s (U @ ds)" "ds @ [d] \<noteq> cs @ [c]"
      "\<not> prefix (ds @ [d]) cs" "\<not> prefix (cs @ [c]) ds"
  shows "stat st s' (of_comps (ds @ [d])) = stat st s (of_comps (ds @ [d]))"
proof -
  have "plain s' (U @ ds)"
    unfolding plain_def
  proof (intro allI impI)
    fix p assume p: "prefix p (U @ ds)"
    have "p \<noteq> U @ cs @ [wh c]" using p clean(2) not_prefix_clean [of ds cs c] by (auto simp: prefix_append)
    moreover have "p \<noteq> U @ cs @ [c]" using p d(6) by (auto simp: prefix_append)
    ultimately show "\<not> is_link_at s' p"
      using made_dirs_link [OF ch] d(3) p by (auto simp: plain_def)
  qed
  moreover have "entry st s' U ds d = entry st s U ds d"
  proof (rule entry_frame [OF ch])
    show "\<not> prefix (ds @ [wh d]) cs" using clean(1) by (intro not_prefix_clean) simp
  qed (use d clean in auto)
  ultimately show ?thesis using d by (simp add: stat_entry [OF m'] stat_entry [OF m])
qed

lemma plain_changed:
  assumes "plain s (U @ cs)" and "clean_names cs"
    and ch: "\<And>k. k \<noteq> U @ cs @ [wh c] \<Longrightarrow> k \<noteq> U @ cs @ [c] \<Longrightarrow> made_dirs s (U @ cs) s' k"
  shows "plain s' (U @ cs)"
  unfolding plain_def
proof (intro allI impI)
  fix p assume p: "prefix p (U @ cs)"
  then have "p \<noteq> U @ cs @ [wh c]" "p \<noteq> U @ cs @ [c]" by (auto dest: prefix_length_le)
  then show "\<not> is_link_at s' p" using made_dirs_link [OF ch] assms(1) p by (auto simp: plain_def)
qed

text \<open>The three ways to make a name, as one relation on the state.\<close>

definition makes :: "fuse_lib \<Rightarrow> fuse_state \<Rightarrow> string \<Rightarrow> string \<Rightarrow> bool \<Rightarrow> os \<Rightarrow> os \<Rightarrow> bool" where
  "makes lib st parent name ok s s' \<longleftrightarrow>
     (\<exists>flags mode r. fuse_create lib st parent name flags mode s = (r, s') \<and> isl r \<noteq> ok) \<or>
     (\<exists>mode r. fuse_mkdir lib st parent name mode s = (r, s') \<and> isl r \<noteq> ok) \<or>
     (\<exists>target r. fuse_symlink lib st parent target name s = (r, s') \<and> isl r \<noteq> ok)"

lemma finish_make_cases:
  "finish_make lib st p f (r, s') = (r', t) \<Longrightarrow> t = s' \<and> isl r' = isl r"
  by (auto simp: finish_make_def Let_def split: sum.splits)

lemma makes_spec:
  assumes m: "mounted st U s" and v: "valid_path cs" "valid_name c" and pl: "plain s (U @ cs @ [c])"
    and mk: "makes lib st (of_comps cs) c ok s s'"
  shows "mounted st U s' \<and>
    (\<forall>k. k \<noteq> U @ cs @ [wh c] \<longrightarrow> k \<noteq> U @ cs @ [c] \<longrightarrow> made_dirs s (U @ cs) s' k) \<and>
    (\<not> ok \<longrightarrow> made_dirs s (U @ cs) s' (U @ cs @ [c])) \<and>
    (ok \<longrightarrow> look s' (U @ cs @ [wh c]) = None \<and> look s' (U @ cs @ [c]) \<noteq> None) \<and>
    (is_dir_at s' (U @ cs @ [wh c]) \<longrightarrow> is_dir_at s (U @ cs @ [wh c])) \<and>
    (quiet s \<longrightarrow> (\<forall>q. prefix q (U @ cs) \<longrightarrow> look s q = None \<or> is_dir_at s q) \<longrightarrow>
      \<not> is_dir_at s (U @ cs @ [wh c]) \<longrightarrow> look s (U @ cs @ [c]) = None \<longrightarrow> ok) \<and>
    (\<not> ok \<longrightarrow> quiet s \<or> look s (U @ cs @ [wh c]) = None \<or> (faults s \<le> 1 \<and> look s (U @ cs @ [c]) = None) \<longrightarrow>
      (look s' (U @ cs @ [wh c]) = None \<longleftrightarrow> look s (U @ cs @ [wh c]) = None))"
proof -
  note w = mounted_writable [OF m]
  consider (create) flags mode r where "fuse_create lib st (of_comps cs) c flags mode s = (r, s')" "isl r \<noteq> ok"
    | (mkdir) mode r where "fuse_mkdir lib st (of_comps cs) c mode s = (r, s')" "isl r \<noteq> ok"
    | (symlink) target r where "fuse_symlink lib st (of_comps cs) target c s = (r, s')" "isl r \<noteq> ok"
    using mk unfolding makes_def by blast
  then show ?thesis
  proof cases
    case create
    obtain r1 s1 where one: "make_in lib st (of_comps cs) c
        (\<lambda>p. open_loopback lib p (flags OR O_CREAT) (mode AND 0xFFF)) s = (r1, s1)" by force
    then have "s1 = s'" "isl r1 \<noteq> ok"
      using create finish_make_cases fuse_create_make [OF v(2) w] by metis+
    then show ?thesis
      using cre.make_in_spec [OF m v pl one] by (cases r1) (simp_all, blast+)
  next
    case mkdir
    obtain r1 s1 where one: "make_in lib st (of_comps cs) c
        (errno_act lib (\<lambda>p. os_mkdir p (mode AND 0xFFF))) s = (r1, s1)" by force
    then have "s1 = s'" "isl r1 \<noteq> ok"
      using mkdir finish_make_cases fuse_mkdir_make [OF v(2) w] by metis+
    then show ?thesis
      using mkd.make_in_spec [OF m v pl one] by (cases r1) (simp_all, blast+)
  next
    case symlink
    obtain r1 s1 where one: "make_in lib st (of_comps cs) c
        (errno_act lib (os_symlink target)) s = (r1, s1)" by force
    then have "s1 = s'" "isl r1 \<noteq> ok"
      using symlink finish_make_cases fuse_symlink_make [OF v(2) w] by metis+
    then show ?thesis
      using sym.make_in_spec [OF m v pl one] by (cases r1) (simp_all, blast+)
  qed
qed

end
