(* ===== verification/OverlayCopy.thy ===== *)
theory OverlayCopy
  imports Overlay
begin

text \<open>
  Copying a lower file into the upper directory, and renaming: the lemmas and properties of
  \<open>copyUp\<close> and \<open>Rename\<close> of fuse.go.
\<close>

section \<open>The copy loop\<close>

text \<open>What the loop needs of the lower file: its reads return its content.\<close>

definition readable :: "fs_tree \<Rightarrow> file_node \<Rightarrow> bytes \<Rightarrow> bool" where
  "readable t n content \<longleftrightarrow>
     n_size n = int (length content) \<and>
     (\<forall>off. 0 \<le> off \<longrightarrow> off < n_size n \<longrightarrow>
        read_at t n off 0x100000 = Inr (take 0x100000 (drop (nat off) content)))"

lemma copy_data_spec:
  "readable t n content \<Longrightarrow> 0 \<le> off \<Longrightarrow> off \<le> n_size n \<Longrightarrow>
     look s f = Some nd \<Longrightarrow> u_body nd = BReg (take (nat off) content) \<Longrightarrow>
     copy_data t n f off s = (r, s') \<Longrightarrow>
     same_host s s' \<and> (r = Inr () \<or> faults s' < faults s) \<and>
     (\<exists>b. look s' = (look s)(f \<mapsto> nd\<lparr>u_body := BReg b\<rparr>) \<and> (r = Inr () \<longrightarrow> b = content))"
proof (induction t n f off s arbitrary: nd r s' rule: copy_data.induct)
  case (1 t n f off s)
  have self: "look s = (look s)(f \<mapsto> nd\<lparr>u_body := BReg (take (nat off) content)\<rparr>)"
    using "1.prems"(4,5) by (cases nd) (auto simp: fun_eq_iff)
  show ?case
  proof (cases "off \<ge> n_size n")
    case True
    then have "r = Inr ()" "s' = s" using "1.prems"(6) by (simp_all add: copy_data.simps [of t n f off s])
    moreover have "take (nat off) content = content"
      using True "1.prems"(1) by (simp add: readable_def)
    then have "look s = (look s)(f \<mapsto> nd\<lparr>u_body := BReg content\<rparr>)"
      using self by (simp only:)
    ultimately show ?thesis using same_host_refl by blast
  next
    case False
    define data where "data = take 0x100000 (drop (nat off) content)"
    have rd: "read_at t n off 0x100000 = Inr data"
      using "1.prems"(1,2) False by (simp add: readable_def data_def)
    have size: "n_size n = int (length content)" using "1.prems"(1) by (simp add: readable_def)
    have ne: "data \<noteq> []" using False size "1.prems"(2) by (auto simp: data_def)
    obtain r1 s1 where one: "os_write f data s = (r1, s1)" by force
    note wr = write_spec [OF "1.prems"(4,5) one]
    show ?thesis
    proof (cases r1)
      case (Inl e)
      then have "r = Inl (Errno e)" "s' = s1"
        using "1.prems"(6) False rd ne one by (simp_all add: copy_data.simps [of t n f off s])
      moreover have "look s1 = (look s)(f \<mapsto> nd\<lparr>u_body := BReg (take (nat off) content)\<rparr>)"
        using wr Inl self by (simp only: sum.case)
      moreover have "same_host s s1" "faults s1 < faults s" using wr Inl by simp_all
      ultimately show ?thesis by blast
    next
      case (Inr w)
      then have w: "w = length data" using wr by simp
      have l1: "look s1 = (look s)(f \<mapsto> nd\<lparr>u_body := BReg (take (nat off) content @ data)\<rparr>)"
        using wr Inr by simp
      have run: "copy_data t n f (off + int (length data)) s1 = (r, s')"
        using "1.prems"(6) False rd ne one Inr w by (simp add: copy_data.simps [of t n f off s])
      have len: "off + int (length data) \<le> n_size n"
        using size False "1.prems"(2) by (auto simp: data_def)
      have body: "take (nat off) content @ data = take (nat (off + int (length data))) content"
        using "1.prems"(2) by (simp add: data_def nat_add_distrib take_add min_def)
      have "same_host s1 s' \<and> (r = Inr () \<or> faults s' < faults s1) \<and>
        (\<exists>b. look s' = (look s1)(f \<mapsto> (nd\<lparr>u_body := BReg (take (nat off) content @ data)\<rparr>)
            \<lparr>u_body := BReg b\<rparr>) \<and> (r = Inr () \<longrightarrow> b = content))"
        by (rule "1.IH" [OF False rd ne one [symmetric, unfolded Inr] refl])
          (use "1.prems"(1,2) len l1 body run w in simp_all)
      then obtain b where b: "look s' = (look s1)(f \<mapsto> (nd\<lparr>u_body := BReg (take (nat off) content @ data)\<rparr>)
          \<lparr>u_body := BReg b\<rparr>)" "r = Inr () \<longrightarrow> b = content"
        and h: "same_host s1 s'" "r = Inr () \<or> faults s' < faults s1" by blast
      have "look s' = (look s)(f \<mapsto> nd\<lparr>u_body := BReg b\<rparr>)" unfolding b(1) l1 by simp
      moreover have "same_host s s1" using wr by blast
      moreover have "same_host s s'" using same_host_trans calculation(2) h(1) by blast
      moreover have "r = Inr () \<or> faults s' < faults s"
        using h(2) same_host_faults [OF calculation(2)] by auto
      ultimately show ?thesis using b(2) by blast
    qed
  qed
qed

lemma keeps_wf_copy_data: "wf_os s \<Longrightarrow> wf_os (snd (copy_data t n f off s))"
proof (induction t n f off s rule: copy_data.induct)
  case (1 t n f off s)
  obtain r1 s1 where one: "os_write f (projr (read_at t n off 0x100000)) s = (r1, s1)" by force
  have "wf_os s1" by (rule keeps_wfD [OF keeps_wf_write "1.prems" one])
  then show ?case
    using 1 one by (subst copy_data.simps) (auto split: sum.splits prod.splits)
qed

section \<open>Copying up\<close>

text \<open>The mode a copy is opened with.\<close>

definition copy_mode :: "fuse_state \<Rightarrow> file_node \<Rightarrow> u32" where
  "copy_mode st n =
     (if fs_clear st then (n_mode n AND 0xFFF) AND NOT (S_ISUID OR S_ISGID) else n_mode n AND 0xFFF)"

lemma excl_flags: "has_flag (O_CREAT OR O_EXCL OR O_WRONLY) O_CREAT"
  by (simp add: has_flag_def O_CREAT_def O_EXCL_def O_WRONLY_def)

lemma copy_up_present:
  assumes m: "mounted st U s" and v: "valid_path cs" "valid_name c" and "plain s (U @ cs)"
    and "look s (U @ cs @ [c]) \<noteq> None"
  shows "copy_up st (of_comps (cs @ [c])) s = (Inr (), s)"
proof -
  have "upper_path st (of_comps (cs @ [c])) = abs_of ((U @ cs) @ [c])"
    using upper_path_of [OF m, of "cs @ [c]"] v by simp
  moreover obtain n where "os_lstat s (abs_of ((U @ cs) @ [c])) = Inr n"
    using assms lstat_snoc [OF mounted_wf [OF m], of "U @ cs" c] mounted_valid [OF m] by auto
  ultimately show ?thesis by (simp add: copy_up_def)
qed

lemma copy_data_frame:
  "look s f = Some nd \<Longrightarrow> u_body nd = BReg d \<Longrightarrow> copy_data t n f off s = (r, s') \<Longrightarrow>
     same_host s s' \<and> (\<forall>k. k \<noteq> f \<longrightarrow> look s' k = look s k) \<and> look s' f \<noteq> None"
proof (induction t n f off s arbitrary: nd d r s' rule: copy_data.induct)
  case (1 t n f off s)
  note unf = copy_data.simps [of t n f off s]
  show ?case
  proof (cases "off \<ge> n_size n \<or> (\<exists>e. read_at t n off 0x100000 = Inl e) \<or> read_at t n off 0x100000 = Inr []")
    case True
    then have "s' = s" using "1.prems"(3) by (auto simp: unf split: if_splits)
    then show ?thesis using "1.prems"(1) by simp
  next
    case False
    then obtain data where rd: "read_at t n off 0x100000 = Inr data" "data \<noteq> []"
      by (cases "read_at t n off 0x100000") auto
    obtain r1 s1 where one: "os_write f data s = (r1, s1)" by force
    note wr = write_spec [OF "1.prems"(1,2) one]
    show ?thesis
    proof (cases r1)
      case (Inl e)
      then have "s' = s1" using "1.prems"(3) False rd one by (simp add: unf)
      then show ?thesis using wr Inl "1.prems"(1) by simp
    next
      case (Inr w)
      then have run: "copy_data t n f (off + int (length data)) s1 = (r, s')"
        using "1.prems"(3) False rd one wr by (simp add: unf)
      have l1: "look s1 = (look s)(f \<mapsto> nd\<lparr>u_body := BReg (d @ data)\<rparr>)" using wr Inr by simp
      have "same_host s1 s' \<and> (\<forall>k. k \<noteq> f \<longrightarrow> look s' k = look s1 k) \<and> look s' f \<noteq> None"
        by (rule "1.IH" [OF _ rd one [symmetric, unfolded Inr]]) (use False wr Inr l1 run in auto)
      moreover have "same_host s s1" using wr by blast
      ultimately show ?thesis using l1 same_host_trans by auto
    qed
  qed
qed

text \<open>The part of \<open>copyUp\<close> that writes the copy of a regular file.\<close>

definition fill_copy :: "fs_tree \<Rightarrow> file_node \<Rightarrow> string \<Rightarrow> u32 \<Rightarrow> os \<Rightarrow> (gerror + unit) \<times> os" where
  "fill_copy t n up mode s1 =
     (case os_open_file up (O_CREAT OR O_EXCL OR O_WRONLY) mode s1 of
        (Inl e, s2) \<Rightarrow> (Inl (Errno e), s2)
      | (Inr f, s2) \<Rightarrow>
          (case copy_data t n f 0 s2 of
             (Inl e, s3) \<Rightarrow> (Inl e, snd (os_remove up (snd (os_close f s3))))
           | (Inr _, s3) \<Rightarrow>
               (case os_close f s3 of
                  (Inl e, s4) \<Rightarrow> (Inl (Errno e), snd (os_remove up s4))
                | (Inr _, s4) \<Rightarrow> (Inr (), s4))))"

lemma copy_up_parts_of:
  assumes "fs_lower st = Some t" and "lower_node st p = Some n" and "\<not> n_is_dir n" and "os_lstat s (upper_path st p) = Inl e0"
  shows "copy_up st p s =
    (case os_mkdir_all (path_dir (upper_path st p)) 0x1ED s of
       (Inl e, s1) \<Rightarrow> (Inl (Errno e), s1)
     | (Inr _, s1) \<Rightarrow>
         if n_link n \<noteq> '''' then map_prod (map_sum Errno id) id (os_symlink (n_link n) (upper_path st p) s1)
         else fill_copy t n (upper_path st p) (copy_mode st n) s1)"
  using assms
  by (simp add: copy_up_def fill_copy_def copy_mode_def Let_def split: sum.splits prod.splits)

lemma fill_copy_cases:
  assumes "fill_copy t n up mode s = (r, s')"
  obtains (unopened) e where "os_open_file up (O_CREAT OR O_EXCL OR O_WRONLY) mode s = (Inl e, s')" "r = Inl (Errno e)"
  | (opened) f s2 r3 s3 r4 s4 where "os_open_file up (O_CREAT OR O_EXCL OR O_WRONLY) mode s = (Inr f, s2)"
    "copy_data t n f 0 s2 = (r3, s3)" "os_close f s3 = (r4, s4)"
    "if r3 = Inr () \<and> r4 = Inr () then r = Inr () \<and> s' = s4 else r \<noteq> Inr () \<and> s' = snd (os_remove up s4)"
proof (cases "os_open_file up (O_CREAT OR O_EXCL OR O_WRONLY) mode s")
  case (Pair r2 s2)
  show thesis
  proof (cases r2)
    case (Inl e)
    then show thesis using unopened Pair assms by (simp add: fill_copy_def)
  next
    case (Inr f)
    obtain r3 s3 r4 s4 where rs: "copy_data t n f 0 s2 = (r3, s3)" "os_close f s3 = (r4, s4)" by fastforce
    have "if r3 = Inr () \<and> r4 = Inr () then r = Inr () \<and> s' = s4 else r \<noteq> Inr () \<and> s' = snd (os_remove up s4)"
      using assms Pair Inr rs by (auto simp: fill_copy_def split: sum.splits)
    then show thesis using opened Pair Inr rs by blast
  qed
qed

text \<open>A run of it, up to the closing of the file.\<close>

lemma copy_written:
  assumes m: "mounted st U s" and d: "is_dir_at s (U @ cs)" and c: "valid_name c" and new: "look s (U @ cs @ [c]) = None"
    and op: "os_open_file (abs_of ((U @ cs) @ [c])) (O_CREAT OR O_EXCL OR O_WRONLY) mode s = (Inr f, s2)"
    and cp: "copy_data t n f 0 s2 = (r3, s3)" and cl: "os_close f s3 = (r4, s4)"
  shows "mounted st U s4" and "same_host s s4" and "k \<noteq> U @ cs @ [c] \<Longrightarrow> look s4 k = look s k" and "is_dir_at s4 (U @ cs)"
    and "\<exists>nd. mk_node s (masked s (go_perm mode)) (BReg []) nd \<and> (\<forall>content. readable t n content \<longrightarrow>
      (\<exists>b. look s4 (U @ cs @ [c]) = Some (nd\<lparr>u_body := BReg b\<rparr>) \<and> (r3 = Inr () \<longrightarrow> b = content) \<and>
        (r3 = Inr () \<and> r4 = Inr () \<or> faults s4 < faults s)))"
proof -
  let ?k = "U @ cs @ [c]"
  note wf = mounted_wf [OF m]
  note o = open_new_spec [OF wf d c _ excl_flags op [unfolded os_open_file_def]]
  obtain nd where nd: "mk_node s (masked s (go_perm mode)) (BReg []) nd" "look s2 = (look s)(?k \<mapsto> nd)"
    and f: "f = ?k" and h2: "same_host s s2" using o new by auto
  have nd2: "look s2 f = Some nd" "u_body nd = BReg []" using nd f by (simp_all add: mk_node_def)
  have fr: "same_host s2 s3" "\<And>k. k \<noteq> f \<Longrightarrow> look s3 k = look s2 k" using copy_data_frame [OF nd2 cp] by blast+
  note cs = close_spec [OF cl]
  have same: "look s4 k = look s k" if "k \<noteq> ?k" for k using cs fr(2) [of k] nd(2) f that by simp
  have wf2: "wf_os s2" by (rule keeps_wfD [OF keeps_wf_open_file wf op]) simp
  have wf3: "wf_os s3" using keeps_wf_copy_data [OF wf2, of t n f 0] cp by simp
  have wf4: "wf_os s4" by (rule keeps_wfD [OF keeps_wf_close wf3 cl])
  have "is_dir_at s4 U" using mounted_dir [OF m] same [of U] by (simp add: is_dir_at_def)
  then show "mounted st U s4" using m wf4 by (simp add: mounted_def)
  show "same_host s s4" using same_host_trans [OF same_host_trans [OF h2 fr(1)]] cs by blast
  show "k \<noteq> ?k \<Longrightarrow> look s4 k = look s k" by (rule same)
  show "is_dir_at s4 (U @ cs)" using d same [of "U @ cs"] by (simp add: is_dir_at_def)
  have "\<exists>b. look s4 ?k = Some (nd\<lparr>u_body := BReg b\<rparr>) \<and> (r3 = Inr () \<longrightarrow> b = content) \<and>
      (r3 = Inr () \<and> r4 = Inr () \<or> faults s4 < faults s)" if rd: "readable t n content" for content
  proof -
    have "0 \<le> n_size n" using rd by (simp add: readable_def)
    then obtain b where "r3 = Inr () \<or> faults s3 < faults s2" "look s3 = (look s2)(f \<mapsto> nd\<lparr>u_body := BReg b\<rparr>)"
        "r3 = Inr () \<Longrightarrow> b = content"
      using copy_data_spec [OF rd _ _ nd2(1) _ cp] nd2(2) by auto
    then show ?thesis
      using cs f same_host_faults [OF h2] same_host_faults [OF fr(1)] same_host_faults [of s3 s4]
      by (intro exI [of _ b]) auto
  qed
  then show "\<exists>nd. mk_node s (masked s (go_perm mode)) (BReg []) nd \<and> (\<forall>content. readable t n content \<longrightarrow>
      (\<exists>b. look s4 ?k = Some (nd\<lparr>u_body := BReg b\<rparr>) \<and> (r3 = Inr () \<longrightarrow> b = content) \<and>
        (r3 = Inr () \<and> r4 = Inr () \<or> faults s4 < faults s)))"
    using nd(1) by blast
qed

lemma fill_copy_spec:
  assumes m: "mounted st U s" and d: "is_dir_at s (U @ cs)" and c: "valid_name c" and new: "look s (U @ cs @ [c]) = None"
    and run: "fill_copy t n (abs_of ((U @ cs) @ [c])) mode s = (r, s')"
  shows "mounted st U s'" and "same_host s s'" and "k \<noteq> U @ cs @ [c] \<Longrightarrow> look s' k = look s k"
    and "readable t n content \<Longrightarrow> r = Inr () \<Longrightarrow> \<exists>nd. look s' (U @ cs @ [c]) = Some nd \<and> u_body nd = BReg content \<and>
      u_mode nd = masked s (go_perm mode) \<and> u_uid nd = os_uid s \<and> u_gid nd = os_gid s"
    and "readable t n content \<Longrightarrow> r \<noteq> Inr () \<Longrightarrow>
      \<not> quiet s \<and> (faults s \<le> 1 \<longrightarrow> look s' (U @ cs @ [c]) = None)"
proof -
  let ?k = "U @ cs @ [c]" and ?up = "abs_of ((U @ cs) @ [c])"
  have "mounted st U s' \<and> same_host s s' \<and> (\<forall>k. k \<noteq> ?k \<longrightarrow> look s' k = look s k) \<and>
    (\<forall>content. readable t n content \<longrightarrow>
      (if r = Inr () then \<exists>nd. look s' ?k = Some nd \<and> u_body nd = BReg content \<and>
         u_mode nd = masked s (go_perm mode) \<and> u_uid nd = os_uid s \<and> u_gid nd = os_gid s
       else \<not> quiet s \<and> (faults s \<le> 1 \<longrightarrow> look s' ?k = None)))"
    using run
  proof (cases rule: fill_copy_cases)
    case (unopened e)
    note o = open_new_spec [OF mounted_wf [OF m] d c _ excl_flags unopened(1) [unfolded os_open_file_def]]
    have "wf_os s'" by (rule keeps_wfD [OF keeps_wf_open_file mounted_wf [OF m] unopened(1)]) simp
    then show ?thesis using o new unopened(2) m by (auto simp: mounted_def is_dir_at_def)
  next
    case (opened f s2 r3 s3 r4 s4)
    note w = copy_written [OF m d c new opened(1-3)]
    obtain nd where nd: "mk_node s (masked s (go_perm mode)) (BReg []) nd" "\<forall>content. readable t n content \<longrightarrow>
      (\<exists>b. look s4 ?k = Some (nd\<lparr>u_body := BReg b\<rparr>) \<and> (r3 = Inr () \<longrightarrow> b = content) \<and>
        (r3 = Inr () \<and> r4 = Inr () \<or> faults s4 < faults s))" using w(5) by blast
    show ?thesis
    proof (cases "r3 = Inr () \<and> r4 = Inr ()")
      case True
      then have "r = Inr ()" "s' = s4" using opened(4) by simp_all
      then show ?thesis using w(1-3) nd True by (fastforce simp: mk_node_def)
    next
      case False
      have r: "r \<noteq> Inr ()" and five: "os_remove ?up s4 = (fst (os_remove ?up s4), s')" using opened(4) False by auto
      note rm = remove_spec [OF mounted_wf [OF w(1)] w(4) c five]
      have wf5: "wf_os s'" by (rule keeps_wfD [OF keeps_wf_remove mounted_wf [OF w(1)] five]) simp
      have l5: "look s' k = look s4 k" if "k \<noteq> ?k" for k using rm that by (cases "fst (os_remove ?up s4)") auto
      have "is_dir_at s' U" using mounted_dir [OF w(1)] l5 [of U] by (simp add: is_dir_at_def)
      then have "mounted st U s'" using m wf5 by (simp add: mounted_def)
      moreover have "same_host s s'" using same_host_trans [OF w(2)] rm by blast
      moreover have "\<not> quiet s \<and> (faults s \<le> 1 \<longrightarrow> look s' ?k = None)" if rd: "readable t n content" for content
      proof -
        obtain b where b: "look s4 ?k = Some (nd\<lparr>u_body := BReg b\<rparr>)" "faults s4 < faults s"
          using nd(2) rd False by blast
        then show ?thesis using rm by (auto simp: quiet_def)
      qed
      ultimately show ?thesis using r w(3) l5 by simp
    qed
  qed
  then show "mounted st U s'" "same_host s s'" "k \<noteq> ?k \<Longrightarrow> look s' k = look s k"
    "readable t n content \<Longrightarrow> r = Inr () \<Longrightarrow> \<exists>nd. look s' ?k = Some nd \<and> u_body nd = BReg content \<and>
      u_mode nd = masked s (go_perm mode) \<and> u_uid nd = os_uid s \<and> u_gid nd = os_gid s"
    "readable t n content \<Longrightarrow> r \<noteq> Inr () \<Longrightarrow> \<not> quiet s \<and> (faults s \<le> 1 \<longrightarrow> look s' ?k = None)"
    by (simp_all only: if_True if_False, blast+)
qed

text \<open>The course of \<open>copyUp\<close> for a name that the upper directory does not have.\<close>

lemma copy_up_course:
  assumes m: "mounted st U s" and v: "valid_path cs" "valid_name c" and pl: "plain s (U @ cs)"
    and new: "look s (U @ cs @ [c]) = None"
    and lo: "fs_lower st = Some t" "lower_node st (of_comps (cs @ [c])) = Some n" "\<not> n_is_dir n"
    and run: "copy_up st (of_comps (cs @ [c])) s = (r, s')"
  obtains r1 s1 where "mounted st U s1" and "same_host s s1" and "\<And>k. made_dirs s (U @ cs) s1 k"
    and "look s1 (U @ cs @ [c]) = None" and "r1 = Inr () \<Longrightarrow> is_dir_at s1 (U @ cs)"
    and "quiet s \<Longrightarrow> (\<And>p. prefix p (U @ cs) \<Longrightarrow> look s p = None \<or> is_dir_at s p) \<Longrightarrow> r1 = Inr ()"
    and "case r1 of Inl e \<Rightarrow> r = Inl (Errno e) \<and> s' = s1
      | Inr _ \<Rightarrow> (if n_link n \<noteq> '''' then map_prod (map_sum Errno id) id (os_symlink (n_link n) (abs_of ((U @ cs) @ [c])) s1)
          else fill_copy t n (abs_of ((U @ cs) @ [c])) (copy_mode st n) s1) = (r, s')"
proof -
  let ?up = "abs_of ((U @ cs) @ [c])"
  have up: "upper_path st (of_comps (cs @ [c])) = ?up" using upper_path_of [OF m, of "cs @ [c]"] v by simp
  have vq: "valid_path (U @ cs)" using mounted_valid [OF m] v by simp
  have "os_lstat s ?up \<noteq> Inr n'" for n'
    using new lstat_snoc [OF mounted_wf [OF m] _ pl, of c n'] vq v by simp
  then obtain e0 where gone: "os_lstat s (upper_path st (of_comps (cs @ [c]))) = Inl e0"
    unfolding up by (cases "os_lstat s ?up") auto
  obtain r1 s1 where one: "os_mkdir_all (abs_of (U @ cs)) 0x1ED s = (r1, s1)" by force
  note s1 = mkdir_all_spec [OF mounted_wf [OF m] vq pl one]
  note run = run [unfolded copy_up_parts_of [OF lo gone] up path_dir_abs_of [OF vq v(2)] one prod.case]
  have "look s1 ((U @ cs) @ [c]) = None"
    using grown_other [OF s1(3), of "(U @ cs) @ [c]"] new by (auto dest: prefix_length_le)
  then show thesis
    using that [of s1 r1] mounted_grown [OF m s1(2,3)] s1 grown_made_dirs [OF s1(3)] run
    by (cases r1) auto
qed

text \<open>A regular lower file that is not in the upper directory.\<close>

lemma copy_up_file:
  assumes m: "mounted st U s" and v: "valid_path cs" "valid_name c" and pl: "plain s (U @ cs)"
    and new: "look s (U @ cs @ [c]) = None"
    and lo: "fs_lower st = Some t" "lower_node st (of_comps (cs @ [c])) = Some n"
      "\<not> n_is_dir n" "n_link n = ''''" "readable t n content"
    and run: "copy_up st (of_comps (cs @ [c])) s = (r, s')"
  shows "mounted st U s' \<and> same_host s s' \<and>
    (\<forall>k. k \<noteq> U @ cs @ [c] \<longrightarrow> made_dirs s (U @ cs) s' k) \<and>
    (r = Inr () \<longrightarrow> is_dir_at s' (U @ cs) \<and>
      (\<exists>nd. look s' (U @ cs @ [c]) = Some nd \<and> u_body nd = BReg content \<and>
        u_mode nd = masked s (go_perm (copy_mode st n)) \<and> u_uid nd = os_uid s \<and> u_gid nd = os_gid s)) \<and>
    (r \<noteq> Inr () \<longrightarrow> faults s \<le> 1 \<longrightarrow> look s' (U @ cs @ [c]) = None) \<and>
    (quiet s \<longrightarrow> (\<forall>p. prefix p (U @ cs) \<longrightarrow> look s p = None \<or> is_dir_at s p) \<longrightarrow> r = Inr ())"
proof (rule copy_up_course [OF m v pl new lo(1-3) run])
  fix r1 :: "errno + unit" and s1
  let ?k = "U @ cs @ [c]"
  assume m1: "mounted st U s1" and h1: "same_host s s1" and md1: "\<And>k. made_dirs s (U @ cs) s1 k"
    and new1: "look s1 ?k = None" and d1: "r1 = Inr () \<Longrightarrow> is_dir_at s1 (U @ cs)"
    and easy: "quiet s \<Longrightarrow> (\<And>p. prefix p (U @ cs) \<Longrightarrow> look s p = None \<or> is_dir_at s p) \<Longrightarrow> r1 = Inr ()"
    and rest: "case r1 of Inl e \<Rightarrow> r = Inl (Errno e) \<and> s' = s1
      | Inr _ \<Rightarrow> (if n_link n \<noteq> '''' then map_prod (map_sum Errno id) id (os_symlink (n_link n) (abs_of ((U @ cs) @ [c])) s1)
          else fill_copy t n (abs_of ((U @ cs) @ [c])) (copy_mode st n) s1) = (r, s')"
  show ?thesis
  proof (cases r1)
    case (Inl e)
    then have "r = Inl (Errno e)" "s' = s1" using rest by simp_all
    moreover have "\<not> (quiet s \<and> (\<forall>p. prefix p (U @ cs) \<longrightarrow> look s p = None \<or> is_dir_at s p))" using easy Inl by blast
    ultimately show ?thesis using m1 h1 md1 new1 by auto
  next
    case (Inr u)
    then have d: "is_dir_at s1 (U @ cs)" and fill: "fill_copy t n (abs_of ((U @ cs) @ [c])) (copy_mode st n) s1 = (r, s')"
      using d1 rest lo(4) by simp_all
    note f = fill_copy_spec [OF m1 d v(2) new1 fill]
    have um: "masked s1 = masked s" "os_uid s1 = os_uid s" "os_gid s1 = os_gid s"
      using h1 by (simp_all add: same_host_def masked_def fun_eq_iff)
    have "made_dirs s (U @ cs) s' k" if "k \<noteq> ?k" for k using made_dirs_same [OF f(3) [OF that]] md1 by simp
    moreover have "is_dir_at s' (U @ cs)" using d f(3) [of "U @ cs"] by (simp add: is_dir_at_def)
    moreover have "faults s1 \<le> faults s" by (rule same_host_faults [OF h1])
    ultimately show ?thesis
      using f(1) same_host_trans [OF h1 f(2)] f(4,5) [OF lo(5)] same_host_quiet [OF h1] by (auto simp: um)
  qed
qed

text \<open>Copying up, whatever the lower node is.\<close>

lemma copy_up_frame:
  assumes m: "mounted st U s" and v: "valid_path cs" "valid_name c" and pl: "plain s (U @ cs)"
    and run: "copy_up st (of_comps (cs @ [c])) s = (r, s')"
  shows "mounted st U s' \<and> same_host s s' \<and>
    (\<forall>k. k \<noteq> U @ cs @ [c] \<longrightarrow> made_dirs s (U @ cs) s' k) \<and>
    (look s (U @ cs @ [c]) \<noteq> None \<longrightarrow> s' = s)"
proof (cases "s' = s")
  case True
  then show ?thesis using m by (simp add: made_dirs_def)
next
  case False
  let ?k = "U @ cs @ [c]" and ?up = "abs_of ((U @ cs) @ [c])"
  have new: "look s ?k = None" using False copy_up_present [OF m v pl] run by (cases "look s ?k") auto
  obtain t n where lo: "fs_lower st = Some t" "lower_node st (of_comps (cs @ [c])) = Some n" "\<not> n_is_dir n"
    using run False by (auto simp: copy_up_def split: sum.splits option.splits if_splits)
  obtain r1 s1 where m1: "mounted st U s1" and h1: "same_host s s1" and md1: "\<And>k. made_dirs s (U @ cs) s1 k"
    and new1: "look s1 ?k = None" and d1: "r1 = Inr () \<Longrightarrow> is_dir_at s1 (U @ cs)"
    and rest: "case r1 of Inl e \<Rightarrow> r = Inl (Errno e) \<and> s' = s1
      | Inr _ \<Rightarrow> (if n_link n \<noteq> '''' then map_prod (map_sum Errno id) id (os_symlink (n_link n) ?up s1)
          else fill_copy t n ?up (copy_mode st n) s1) = (r, s')"
    by (rule copy_up_course [OF m v pl new lo run]) blast
  have "mounted st U s' \<and> same_host s1 s' \<and> (\<forall>k. k \<noteq> ?k \<longrightarrow> look s' k = look s1 k)"
  proof (cases r1)
    case (Inl e)
    then show ?thesis using rest m1 by simp
  next
    case (Inr u)
    then have d: "is_dir_at s1 (U @ cs)" using d1 by simp
    show ?thesis
    proof (cases "n_link n = ''''")
      case True
      then have fill: "fill_copy t n ?up (copy_mode st n) s1 = (r, s')" using rest Inr by simp
      note f = fill_copy_spec [OF m1 d v(2) new1 fill]
      show ?thesis using f(1-3) by blast
    next
      case False
      then obtain r2 where two: "os_symlink (n_link n) ?up s1 = (r2, s')"
        using rest Inr by (cases "os_symlink (n_link n) ?up s1") auto
      have "wf_os s'" by (rule keeps_wfD [OF keeps_wf_symlink mounted_wf [OF m1] two]) simp
      then show ?thesis
        using symlink_spec [OF mounted_wf [OF m1] d v(2) two] m1
        by (cases r2) (auto simp: mounted_def is_dir_at_def)
    qed
  qed
  then show ?thesis using made_dirs_same [of s' _ s1] md1 same_host_trans [OF h1] new by auto
qed

section \<open>Renaming\<close>

lemma strict_below_dir:
  "wf_os s \<Longrightarrow> look s a \<noteq> None \<Longrightarrow> prefix p a \<Longrightarrow> p \<noteq> a \<Longrightarrow> is_dir_at s p"
  using wf_prefix_dir by (auto simp: prefix_def)

lemma same_length_prefix: "length p = length q \<Longrightarrow> prefix p q \<longleftrightarrow> p = q"
  by (auto simp: prefix_def)

text \<open>The move itself, seen from the two names.\<close>

lemma move_names:
  assumes wf: "wf_os s" and v: "valid_name c" "valid_name d" and d: "is_dir_at s q"
    and a: "look s (p @ [c]) \<noteq> None" and ne: "p @ [c] \<noteq> q @ [d]" and apart: "\<not> prefix (p @ [c]) q"
    and clean: "\<not> prefix whiteout_prefix c" "\<not> prefix whiteout_prefix d"
    and run: "os_rename (abs_of (p @ [c])) (abs_of (q @ [d])) s = (Inr (), s')"
  shows "look s' (p @ [c]) = None \<and> look s' (p @ [wh c]) = look s (p @ [wh c]) \<and>
    look s' (q @ [wh d]) = look s (q @ [wh d]) \<and>
    (\<forall>r. look s' (q @ [d] @ r) = look s (p @ [c] @ r)) \<and>
    (\<forall>k. prefix k p \<or> prefix k q \<longrightarrow> look s' k = look s k)"
proof -
  have dp: "is_dir_at s p" using known_parent [OF wf a] .
  note rn = rename_spec [OF wf dp v(1) d v(2) ne run]
  have lk: "look s' k = (if prefix (q @ [d]) k then look s ((p @ [c]) @ drop (length (q @ [d])) k)
      else if prefix (p @ [c]) k then None else look s k)" for k using rn by simp
  have nb: "\<not> is_dir_at s (q @ [d])" and nab: "\<not> prefix (p @ [c]) (q @ [d])" using rn by simp_all
  have nba: "\<not> prefix (q @ [d]) (p @ [c])"
    using strict_below_dir [OF wf a, of "q @ [d]"] nb ne by auto
  have nbp: "\<not> prefix (q @ [d]) k" if "prefix k p \<or> prefix k q" for k
  proof
    assume "prefix (q @ [d]) k"
    then have "prefix (q @ [d]) p \<or> prefix (q @ [d]) q" using that prefix_order.trans by blast
    then show False using nba by (auto simp: prefix_snoc dest: prefix_length_le)
  qed
  have nap: "\<not> prefix (p @ [c]) k" if "prefix k p \<or> prefix k q" for k
  proof
    assume "prefix (p @ [c]) k"
    then have "prefix (p @ [c]) p \<or> prefix (p @ [c]) q" using that prefix_order.trans by blast
    then show False using apart by (auto dest: prefix_length_le)
  qed
  have "\<not> prefix (q @ [d]) (p @ [wh c])" "\<not> prefix (p @ [c]) (p @ [wh c])"
    using nbp [of p] clean by (auto simp: prefix_snoc dest: prefix_length_le)
  then have "look s' (p @ [wh c]) = look s (p @ [wh c])" unfolding lk by (simp only: if_False)
  moreover have "\<not> prefix (q @ [d]) (q @ [wh d])" "\<not> prefix (p @ [c]) (q @ [wh d])"
    using nap [of q] clean by (auto simp: prefix_snoc dest: prefix_length_le)
  then have "look s' (q @ [wh d]) = look s (q @ [wh d])" unfolding lk by (simp only: if_False)
  moreover have "look s' (p @ [c]) = None"
    unfolding lk [of "p @ [c]"] using nba by (simp only: if_False if_True prefix_order.order_refl)
  moreover have "look s' k = look s k" if "prefix k p \<or> prefix k q" for k
    using lk [of k] nbp [OF that] nap [OF that] by simp
  moreover have "look s' (q @ [d] @ r) = look s (p @ [c] @ r)" for r
    using lk [of "(q @ [d]) @ r"] by simp
  ultimately show ?thesis by blast
qed

text \<open>The course of a successful rename up to the move.\<close>

lemma rename_steps:
  assumes m: "mounted st U s" and src: "valid_path cs" "valid_name c" "plain s (U @ cs)"
    and dst: "valid_path ds" "valid_name d" and ne: "cs @ [c] \<noteq> ds @ [d]"
    and run: "fuse_rename lib st (of_comps cs) c False (of_comps ds) d flags s = (Inr (), s')"
  shows "\<exists>s1 s2 s3 s4. exists_pi (entry st s U cs c) \<and>
    copy_up st (of_comps (cs @ [c])) s = (Inr (), s1) \<and>
    os_lstat s1 (abs_of ((U @ cs) @ [c])) \<in> range Inr \<and>
    os_mkdir_all (abs_of (U @ ds)) 0x1ED s1 = (Inr (), s2) \<and>
    (if lower_node st (of_comps (cs @ [c])) \<noteq> None then make_whiteout st (of_comps cs) c s2
     else (Inr (), s2)) = (Inr (), s3) \<and>
    (if has_whiteout st s3 (of_comps ds) d then clear_whiteout st (of_comps ds) d s3
     else (Inr (), s3)) = (Inr (), s4) \<and>
    os_rename (abs_of ((U @ cs) @ [c])) (abs_of ((U @ ds) @ [d])) s4 = (Inr (), s')"
proof -
  let ?i = "entry st s U cs c" and ?lo = "lower_node st (of_comps (cs @ [c]))"
  let ?src = "join_path (of_comps cs) c" and ?dst = "join_path (of_comps ds) d"
  have st: "stat st s ?src = ?i" by (rule stat_join [OF m src])
  have upa: "upper_path st ?src = abs_of ((U @ cs) @ [c])"
    and upb: "upper_path st ?dst = abs_of ((U @ ds) @ [d])"
    by (rule upper_path_name [OF m src(1,2)], rule upper_path_name [OF m dst(1,2)])
  have upd: "upper_path st (of_comps ds) = abs_of (U @ ds)" by (rule upper_path_of [OF m dst(1)])
  have srcdst: "?src \<noteq> ?dst"
    using ne comps_join_path [OF src(2)] comps_join_path [OF dst(2)] comps_of_comps src(1) dst(1) by metis
  have cu: "?src = of_comps (cs @ [c])" using src by (simp add: join_path_of_comps)
  have ex: "exists_pi ?i" and fl: "flags = 0"
    using run mounted_writable [OF m] src(2) dst(2) srcdst st
    by (auto simp: fuse_rename_def Let_def split: if_splits)
  then have nw: "look s (U @ cs @ [wh c]) = None" by (simp add: entry_none_iff)
  then have lo: "pi_lower ?i = ?lo" by (simp add: entry_def)
  note run = run [unfolded fuse_rename_def Let_def st lo upa upb upd,
      simplified mounted_writable [OF m] src(2) dst(2) srcdst ex fl]
  obtain s1 where one: "copy_up st ?src s = (Inr (), s1)"
    using run by (cases "copy_up st ?src s") (auto split: sum.splits)
  note run = run [unfolded one, simplified]
  obtain n where ls: "os_lstat s1 (abs_of ((U @ cs) @ [c])) = Inr n"
    using run by (cases "os_lstat s1 (abs_of ((U @ cs) @ [c]))") auto
  note run = run [folded append_assoc, unfolded ls, simplified]
  obtain s2 where two: "os_mkdir_all (abs_of (U @ ds)) 0x1ED s1 = (Inr (), s2)"
    using run by (cases "os_mkdir_all (abs_of (U @ ds)) 0x1ED s1") (auto split: sum.splits)
  obtain r3 s3 where three: "(if ?lo \<noteq> None then make_whiteout st (of_comps cs) c s2 else (Inr (), s2)) = (r3, s3)"
    by force
  have r3: "r3 = Inr ()" using run two three by (cases r3) auto
  obtain r4 s4 where four: "(if has_whiteout st s3 (of_comps ds) d then clear_whiteout st (of_comps ds) d s3
     else (Inr (), s3)) = (r4, s4)" by force
  have r4: "r4 = Inr ()" using run two three r3 four by (cases r4) auto
  have "os_rename (abs_of ((U @ cs) @ [c])) (abs_of ((U @ ds) @ [d])) s4 = (Inr (), s')"
    using run two three r3 four r4
    by (cases "os_rename (abs_of ((U @ cs) @ [c])) (abs_of ((U @ ds) @ [d])) s4") (auto split: sum.splits)
  then show ?thesis
    using ex one cu ls two three r3 four r4 by auto
qed

text \<open>A rename in three parts: the source comes to the upper directory, its whiteout is made and the one
  of the target taken away, and the node moves.\<close>

lemma rename_brought:
  assumes m: "mounted st U s" and src: "valid_path cs" "valid_name c" "plain s (U @ cs)"
    and dst: "valid_path ds" "plain s (U @ ds)" and clean: "clean_names ds" and apart: "\<not> prefix (cs @ [c]) ds"
    and ex: "exists_pi (entry st s U cs c)" and one: "copy_up st (of_comps (cs @ [c])) s = (r1, s1)"
    and ls: "os_lstat s1 (abs_of ((U @ cs) @ [c])) \<in> range Inr"
    and two: "os_mkdir_all (abs_of (U @ ds)) 0x1ED s1 = (Inr (), s2)"
  shows "mounted st U s2" and "is_dir_at s2 (U @ ds)" and "plain s2 (U @ cs)" and "look s1 (U @ cs @ [c]) \<noteq> None"
    and "look s2 (U @ cs @ [c] @ r) = look s1 (U @ cs @ [c] @ r)" and "look s2 (U @ cs @ [wh c]) = None"
proof -
  let ?a = "U @ cs @ [c]" and ?wa = "U @ cs @ [wh c]"
  have m1: "mounted st U s1" and md1: "k \<noteq> ?a \<Longrightarrow> made_dirs s (U @ cs) s1 k" for k
    using copy_up_frame [OF m src one] by blast+
  have na: "p \<noteq> ?a" if "prefix p (U @ cs)" for p using prefix_length_le [OF that] by auto
  have nb: "p \<noteq> ?a" if "prefix p (U @ ds)" for p using that apart by (auto simp: prefix_append)
  have pl1: "plain s1 (U @ cs)" "plain s1 (U @ ds)"
    unfolding plain_def using src(3) dst(2) na nb made_dirs_link [OF md1] unfolding plain_def by blast+
  show "look s1 ?a \<noteq> None"
    using ls lstat_snoc [OF mounted_wf [OF m1] _ pl1(1), of c] mounted_valid [OF m] src by auto
  have vds: "valid_path (U @ ds)" using mounted_valid [OF m] dst by simp
  note s2 = mkdir_all_spec [OF mounted_wf [OF m1] vds pl1(2) two]
  show "mounted st U s2" by (rule mounted_grown [OF m1 s2(2,3)])
  show "is_dir_at s2 (U @ ds)" using s2(4) by simp
  show "plain s2 (U @ cs)" using pl1(1) grown_plain [OF s2(3)] by simp
  have "\<not> prefix ((cs @ [c]) @ r) ds" for r using apart append_prefixD by blast
  then show "look s2 (U @ cs @ [c] @ r) = look s1 (U @ cs @ [c] @ r)" for r
    by (intro grown_other [OF s2(3)]) (simp add: prefix_append)
  have "look s1 ?wa = None"
    using md1 [of ?wa] ex by (auto simp: made_dirs_def entry_none_iff dest: prefix_length_le)
  moreover have "\<not> prefix ?wa (U @ ds)" using not_prefix_clean [of ds cs c] clean by (auto simp: prefix_append)
  ultimately show "look s2 ?wa = None" using grown_other [OF s2(3)] by simp
qed

lemma rename_marked:
  assumes m: "mounted st U s" and src: "valid_path cs" "valid_name c" "plain s (U @ cs)"
    and dst: "valid_path ds" "valid_name d" "is_dir_at s (U @ ds)"
    and clean: "\<not> prefix whiteout_prefix c" "clean_names ds"
    and ne: "cs @ [c] \<noteq> ds @ [d]" and apart: "\<not> prefix (cs @ [c]) ds" and nw: "look s (U @ cs @ [wh c]) = None"
    and three: "(if lo then make_whiteout st (of_comps cs) c s else (Inr (), s)) = (Inr (), s3)"
    and four: "(if has_whiteout st s3 (of_comps ds) d then clear_whiteout st (of_comps ds) d s3
      else (Inr (), s3)) = (Inr (), s4)"
  shows "wf_os s4" and "is_dir_at s4 (U @ ds)" and "look s4 (U @ ds @ [wh d]) = None"
    and "lo \<Longrightarrow> look s4 (U @ cs @ [wh c]) \<noteq> None" and "look s4 (U @ cs @ [c] @ r) = look s (U @ cs @ [c] @ r)"
proof -
  let ?wa = "U @ cs @ [wh c]" and ?wb = "U @ ds @ [wh d]"
  note s3 = remove_marked [OF m src nw three]
  have "U @ ds \<noteq> ?wa" using clean(2) by (auto simp: clean_names_def)
  then have d3: "is_dir_at s3 (U @ ds)" using made_dirs_dir [OF s3(3) dst(3)] by blast
  have hw: "has_whiteout st s3 (of_comps ds) d \<longleftrightarrow> look s3 ?wb \<noteq> None"
    using has_whiteout_iff [OF s3(1) dst(1,2) dir_plain [OF mounted_wf [OF s3(1)] d3]] by simp
  have l4: "look s4 = (look s3)(?wb := None) \<and> wf_os s4"
  proof (cases "look s3 ?wb = None")
    case True
    then show ?thesis using four hw mounted_wf [OF s3(1)] by (auto simp: fun_eq_iff)
  next
    case False
    then have "clear_whiteout st (of_comps ds) d s3 = (Inr (), s4)" using four hw by simp
    from clear_whiteout_spec [OF s3(1) dst(1,2) d3 this] show ?thesis by simp
  qed
  then show "wf_os s4" "look s4 ?wb = None" "is_dir_at s4 (U @ ds)" using d3 by (simp_all add: is_dir_at_def)
  have "?wa \<noteq> ?wb" using ne by simp
  then show "lo \<Longrightarrow> look s4 ?wa \<noteq> None" using l4 s3(5) by simp
  have "U @ cs @ [c] @ r \<noteq> ?wb" for r
  proof
    assume "U @ cs @ [c] @ r = ?wb"
    then have "ds @ [wh d] = (cs @ [c]) @ r" by simp
    then have "prefix (cs @ [c]) (ds @ [wh d])" by (rule prefixI)
    then show False using apart clean(1) by (auto simp: prefix_snoc)
  qed
  moreover have "look s3 (U @ cs @ [c] @ r) = look s (U @ cs @ [c] @ r)" for r
    using s3(3) [of "U @ cs @ [c] @ r"] clean(1) by (auto simp: made_dirs_def dest: prefix_length_le)
  ultimately show "look s4 (U @ cs @ [c] @ r) = look s (U @ cs @ [c] @ r)" for r using l4 by simp
qed

text \<open>After a successful rename: the source name is gone or hidden, the target name is the node
  the source had in the upper directory once it was copied up, with all that is below it there.\<close>

lemma rename_success:
  assumes m: "mounted st U s" and src: "valid_path cs" "valid_name c" "plain s (U @ cs)"
    and dst: "valid_path ds" "valid_name d" "plain s (U @ ds)"
    and clean: "clean_names (cs @ [c])" "clean_names (ds @ [d])"
    and ne: "cs @ [c] \<noteq> ds @ [d]" and apart: "\<not> prefix (cs @ [c]) ds"
    and run: "fuse_rename lib st (of_comps cs) c False (of_comps ds) d flags s = (Inr (), s')"
  shows "\<exists>s1. copy_up st (of_comps (cs @ [c])) s = (Inr (), s1) \<and>
    mounted st U s' \<and> is_dir_at s' (U @ cs) \<and> is_dir_at s' (U @ ds) \<and>
    exists_pi (entry st s U cs c) \<and> look s1 (U @ cs @ [c]) \<noteq> None \<and>
    look s' (U @ cs @ [c]) = None \<and>
    (lower_node st (of_comps (cs @ [c])) \<noteq> None \<longrightarrow> look s' (U @ cs @ [wh c]) \<noteq> None) \<and>
    look s' (U @ ds @ [wh d]) = None \<and>
    (\<forall>r. look s' (U @ ds @ [d] @ r) = look s1 (U @ cs @ [c] @ r))"
proof -
  let ?a = "(U @ cs) @ [c]"
  obtain s1 s2 s3 s4 where ex: "exists_pi (entry st s U cs c)"
    and one: "copy_up st (of_comps (cs @ [c])) s = (Inr (), s1)"
    and ls: "os_lstat s1 (abs_of ?a) \<in> range Inr"
    and two: "os_mkdir_all (abs_of (U @ ds)) 0x1ED s1 = (Inr (), s2)"
    and three: "(if lower_node st (of_comps (cs @ [c])) \<noteq> None then make_whiteout st (of_comps cs) c s2
      else (Inr (), s2)) = (Inr (), s3)"
    and four: "(if has_whiteout st s3 (of_comps ds) d then clear_whiteout st (of_comps ds) d s3
      else (Inr (), s3)) = (Inr (), s4)"
    and five: "os_rename (abs_of ?a) (abs_of ((U @ ds) @ [d])) s4 = (Inr (), s')"
    using rename_steps [OF m src dst(1,2) ne run] by blast
  have cl: "\<not> prefix whiteout_prefix c" "\<not> prefix whiteout_prefix d" "clean_names ds" using clean by simp_all
  note b = rename_brought [OF m src dst(1,3) cl(3) apart ex one ls two]
  note k = rename_marked [OF b(1) src(1,2) b(3) dst(1,2) b(2) cl(1,3) ne apart b(6) three four]
  have la: "look s4 (U @ cs @ [c] @ r) = look s1 (U @ cs @ [c] @ r)" for r using k(5) b(5) by simp
  then have a4: "look s4 ?a \<noteq> None" using b(4) by (metis append_assoc append_Nil2)
  have "\<not> prefix ?a (U @ ds)" "?a \<noteq> (U @ ds) @ [d]" using apart ne by (auto simp: prefix_append)
  note mv = move_names [OF k(1) src(2) dst(2) k(2) a4 this(2,1) cl(1,2) five]
  have keep: "look s' q = look s4 q" if "prefix q (U @ cs) \<or> prefix q (U @ ds)" for q using mv that by blast
  have "is_dir_at s4 (U @ cs)" "is_dir_at s4 U"
    using known_parent [OF k(1) a4] strict_below_dir [OF k(1) a4, of U] by simp_all
  then have dirs: "is_dir_at s' (U @ cs)" "is_dir_at s' (U @ ds)" "is_dir_at s' U"
    using k(2) keep [of "U @ cs"] keep [of "U @ ds"] keep [of U] by (simp_all add: is_dir_at_def)
  have "wf_os s'" by (rule keeps_wfD [OF keeps_wf_rename k(1) five]) simp_all
  then have "mounted st U s'" using dirs(3) m by (simp add: mounted_def)
  then show ?thesis using one dirs ex b(4) mv k(3,4) la by (intro exI [of _ s1]) simp
qed

end
