(* ===== verification/CallClosed.thy ===== *)
theory CallClosed
  imports OverlayCopy
begin

text \<open>
  Relations between the host before and after a call that every call of a kind respects, and with
  them every operation of fuse.go that is built from such calls: one interface for what the calls
  promise, and the operations once for all relations.
\<close>

section \<open>The rest of a rename\<close>

text \<open>From the point where the source is known to be in the upper directory.\<close>

definition rename_rest ::
    "fuse_lib \<Rightarrow> fuse_state \<Rightarrow> string \<Rightarrow> string \<Rightarrow> string \<Rightarrow> string \<Rightarrow> bool \<Rightarrow> os \<Rightarrow> (errno + unit) \<times> os" where
  "rename_rest lib st old_parent name new_parent new_name source_wh s2 =
     (case (if source_wh then make_whiteout st old_parent name s2 else (Inr (), s2)) of
        (Inl e, s3) \<Rightarrow> (Inl (fl_errno lib (Errno e)), s3)
      | (Inr _, s3) \<Rightarrow>
          (let dest_wh = has_whiteout st s3 new_parent new_name in
           case (if dest_wh then clear_whiteout st new_parent new_name s3 else (Inr (), s3)) of
             (Inl e, s4) \<Rightarrow>
               (Inl (fl_errno lib (Errno e)),
                if source_wh then snd (clear_whiteout st old_parent name s4) else s4)
           | (Inr _, s4) \<Rightarrow>
               (case os_rename (upper_path st (join_path old_parent name)) (upper_path st (join_path new_parent new_name)) s4 of
                  (Inl e, s5) \<Rightarrow>
                    (let s6 = (if source_wh then snd (clear_whiteout st old_parent name s5) else s5) in
                     (Inl (fl_errno lib (Errno e)),
                      if dest_wh then snd (make_whiteout st new_parent new_name s6) else s6))
                | (Inr _, s5) \<Rightarrow> (Inr (), s5))))"

lemma fuse_rename_rest:
  "fuse_rename lib st old_parent name other_fs new_parent new_name flags s =
     (if \<not> valid_name name \<or> \<not> valid_name new_name then (Inl EINVAL, s)
      else if other_fs then (Inl EXDEV, s)
      else if flags \<noteq> 0 then (Inl EINVAL, s)
      else if \<not> writable st then (Inl EROFS, s)
      else if join_path old_parent name = join_path new_parent new_name then (Inr (), s)
      else if \<not> exists_pi (stat st s (join_path old_parent name)) then (Inl ENOENT, s)
      else
        (case copy_up st (join_path old_parent name) s of
           (Inl e, s1) \<Rightarrow> (Inl (fl_errno lib e), s1)
         | (Inr _, s1) \<Rightarrow>
             (case os_lstat s1 (upper_path st (join_path old_parent name)) of
                Inl _ \<Rightarrow> (Inl EXDEV, s1)
              | Inr _ \<Rightarrow>
                  (case os_mkdir_all (upper_path st new_parent) 0x1ED s1 of
                     (Inl e, s2) \<Rightarrow> (Inl (fl_errno lib (Errno e)), s2)
                   | (Inr _, s2) \<Rightarrow>
                       rename_rest lib st old_parent name new_parent new_name
                         (pi_lower (stat st s (join_path old_parent name)) \<noteq> None) s2))))"
  by (simp only: fuse_rename_def rename_rest_def Let_def)

section \<open>Calls that make files and directories\<close>

text \<open>\<open>up\<close> says on which paths the calls keep the relation.\<close>

locale call_closed =
  fixes up :: "string \<Rightarrow> bool" and R :: "os \<Rightarrow> os \<Rightarrow> bool"
  assumes same: "R s s"
    and chain: "R s t \<Longrightarrow> R t u \<Longrightarrow> R s u"
    and after_mkdir_all: "up p \<Longrightarrow> os_mkdir_all p m s = (r, t) \<Longrightarrow> R s t"
    and after_open: "up p \<Longrightarrow> sys_open p fl m s = (r1, t) \<Longrightarrow> R s t"
    and after_remove: "up p \<Longrightarrow> os_remove p s = (r, t) \<Longrightarrow> R s t"
    and after_write: "os_write q d s = (r2, t) \<Longrightarrow> R s t"
    and after_close: "os_close q s = (r, t) \<Longrightarrow> R s t"
begin

lemma after_copy_data: "R s (snd (copy_data t n f off s))"
proof (induction t n f off s rule: copy_data.induct)
  case (1 t n f off s)
  show ?case
  proof (cases "n_size n \<le> off \<or> read_at t n off 0x100000 \<in> range Inl \<or> read_at t n off 0x100000 = Inr []")
    case True
    then show ?thesis by (subst copy_data.simps) (auto simp: same split: sum.splits)
  next
    case False
    then obtain d where d: "read_at t n off 0x100000 = Inr d" "d \<noteq> []" "\<not> n_size n \<le> off"
      by (cases "read_at t n off 0x100000") auto
    obtain r s1 where w: "os_write f d s = (r, s1)" by force
    then have "R s s1" by (rule after_write)
    moreover have "R s1 (snd (copy_data t n f (off + int (length d)) s1))" if "r = Inr w" "w = length d" for w
      using 1 [OF d(3,1,2) w [symmetric]] that by blast
    ultimately show ?thesis
      using d w by (subst copy_data.simps) (auto split: sum.splits intro: chain)
  qed
qed

lemma after_make_whiteout:
  assumes u: "up (upper_path st p)" "up (whiteout_path st p c)" and run: "make_whiteout st p c s = (r, t)"
  shows "R s t"
proof -
  obtain r1 s1 where one: "os_mkdir_all (upper_path st p) 0x1ED s = (r1, s1)" by force
  obtain r2 s2 where two: "os_open_file (whiteout_path st p c) (O_CREAT OR O_WRONLY) 0x1A4 s1 = (r2, s2)" by force
  have "t = s1 \<or> t = s2 \<or> (\<exists>f. os_close f s2 = (r, t))"
    using run one two by (auto simp: make_whiteout_def split: sum.splits)
  moreover have "R s s1" by (rule after_mkdir_all [OF u(1) one])
  moreover have "R s1 s2" by (rule after_open [OF u(2) two [unfolded os_open_file_def]])
  ultimately show ?thesis using after_close chain by blast
qed

lemma after_clear_whiteout:
  assumes "up (whiteout_path st p c)" and "clear_whiteout st p c s = (r, t)"
  shows "R s t"
  using assms(2) after_remove [OF assms(1)]
  by (auto simp: clear_whiteout_def split: sum.splits prod.splits if_splits)

text \<open>Copying up; a link is made only for a lower link.\<close>

lemma after_copy_up:
  assumes u: "up (upper_path st p)" "up (path_dir (upper_path st p))"
    and link: "\<And>n s1 r t. lower_node st p = Some n \<Longrightarrow> \<not> n_is_dir n \<Longrightarrow> n_link n \<noteq> '''' \<Longrightarrow>
      os_symlink (n_link n) (upper_path st p) s1 = (r, t) \<Longrightarrow> R s1 t"
    and run: "copy_up st p s = (r, t)"
  shows "R s t"
proof (cases "t = s")
  case False
  let ?up = "upper_path st p"
  obtain lt n where lo: "fs_lower st = Some lt" "lower_node st p = Some n" "\<not> n_is_dir n"
    using run False by (auto simp: copy_up_def split: sum.splits option.splits if_splits)
  note run = run [unfolded copy_up_def lo option.case prod.case if_not_P [OF lo(3)] Let_def, folded copy_mode_def]
  obtain r1 s1 where one: "os_mkdir_all (path_dir ?up) 0x1ED s = (r1, s1)" by force
  have k1: "R s s1" by (rule after_mkdir_all [OF u(2) one])
  show ?thesis
  proof (cases "n_link n = ''''")
    case False
    obtain r2 s2 where two: "os_symlink (n_link n) ?up s1 = (r2, s2)" by force
    have "t = s1 \<or> t = s2" using run one two False \<open>t \<noteq> s\<close> by (auto split: sum.splits)
    then show ?thesis using k1 chain link [OF lo(2,3) False two] by blast
  next
    case True
    obtain r2 s2 where two: "os_open_file ?up (O_CREAT OR O_EXCL OR O_WRONLY) (copy_mode st n) s1 = (r2, s2)" by force
    have k2: "R s s2" by (rule chain [OF k1 after_open [OF u(1) two [unfolded os_open_file_def]]])
    show ?thesis
    proof (cases r2)
      case (Inl e)
      then have "t = s1 \<or> t = s2" using run one two True \<open>t \<noteq> s\<close> by (auto simp: copy_mode_def split: sum.splits)
      then show ?thesis using k1 k2 by blast
    next
      case (Inr f)
      obtain r3 s3 where three: "copy_data lt n f 0 s2 = (r3, s3)" by force
      obtain r4 s4 where four: "os_close f s3 = (r4, s4)" by force
      obtain r5 s5 where five: "os_remove ?up s4 = (r5, s5)" by force
      have k3: "R s s3" using chain [OF k2 after_copy_data, of lt n f 0] three by simp
      have k4: "R s s4" by (rule chain [OF k3 after_close [OF four]])
      have k5: "R s s5" by (rule chain [OF k4 after_remove [OF u(1) five]])
      have "t = s1 \<or> t = s4 \<or> t = s5"
        using run one two three four five Inr True \<open>t \<noteq> s\<close> by (auto simp: copy_mode_def split: sum.splits)
      then show ?thesis using k1 k4 k5 by blast
    qed
  qed
qed (simp add: same)

end

section \<open>All calls of the operations\<close>

lemma open_loopback_run:
  assumes "open_loopback lib p fl m s = (r, t)"
  shows "\<exists>r1. sys_open p (fl AND NOT (O_APPEND OR FMODE_EXEC)) m s = (r1, t)"
  using assms by (cases "sys_open p (fl AND NOT (O_APPEND OR FMODE_EXEC)) m s") (auto simp: open_loopback_def split: sum.splits)

lemma makes_cases:
  assumes "makes lib st p c ok s t"
  obtains (create) flags mode r where "fuse_create lib st p c flags mode s = (r, t)"
    | (mkdir) mode r where "fuse_mkdir lib st p c mode s = (r, t)"
    | (symlink) target r where "fuse_symlink lib st p target c s = (r, t)"
  using assms unfolding makes_def by blast

lemma makes_refused:
  assumes "makes lib st p c ok s t" and "\<not> (valid_name c \<and> writable st)"
  shows "t = s"
  using assms(1)
proof (cases rule: makes_cases)
  case (create flags mode r)
  then show ?thesis using assms(2) by (cases "valid_name c") (simp_all add: fuse_create_def)
next
  case (mkdir mode r)
  then show ?thesis using assms(2) by (cases "valid_name c") (simp_all add: fuse_mkdir_def)
next
  case (symlink target r)
  then show ?thesis using assms(2) by (cases "valid_name c") (simp_all add: fuse_symlink_def)
qed

text \<open>A change of a node that leaves directories directories and links links.\<close>

definition steady :: "(unode \<Rightarrow> errno + unode) \<Rightarrow> bool" where
  "steady f \<longleftrightarrow> (\<forall>n n'. f n = Inr n' \<longrightarrow>
     (u_body n' = BDir \<longleftrightarrow> u_body n = BDir) \<and> is_link (u_body n') = is_link (u_body n))"

lemma steady_calls [simp]:
  "steady (\<lambda>n. Inr (n\<lparr>u_mode := m\<rparr>))" "steady (\<lambda>n. Inr (n\<lparr>u_uid := f n, u_gid := g n\<rparr>))"
  "steady (\<lambda>n. Inr (n\<lparr>u_atime := h n, u_mtime := i n\<rparr>))"
  "steady (\<lambda>n. if sz < 0 then Inl EINVAL else (case u_body n of BReg d \<Rightarrow> Inr (n\<lparr>u_body := BReg (resize (nat sz) d)\<rparr>)
     | BDir \<Rightarrow> Inl EISDIR | _ \<Rightarrow> Inl EINVAL))"
  by (auto simp: steady_def split: if_splits ubody.splits)

locale op_closed = call_closed +
  assumes after_mkdir: "up p \<Longrightarrow> os_mkdir p m s = (r, t) \<Longrightarrow> R s t"
    and after_symlink: "up p \<Longrightarrow> os_symlink tg p s = (r, t) \<Longrightarrow> R s t"
    and after_rename: "up p \<Longrightarrow> up q \<Longrightarrow> os_rename p q s = (r, t) \<Longrightarrow> R s t"
    and after_update: "up p \<Longrightarrow> steady f \<Longrightarrow> update_at fl p f s = (r, t) \<Longrightarrow> R s t"
begin

lemma after_setattr_steps:
  assumes "up p"
  shows "setattr_mode p inp s = (r1, t) \<Longrightarrow> R s t" and "setattr_owner p inp s = (r2, t) \<Longrightarrow> R s t"
    and "setattr_times lib p inp s = (r3, t) \<Longrightarrow> R s t" and "setattr_size p inp s = (r4, t) \<Longrightarrow> R s t"
proof -
  note up = after_update [OF assms]
  show "setattr_mode p inp s = (r1, t) \<Longrightarrow> R s t"
    using same up [OF steady_calls(1)] unfolding setattr_mode_def sys_chmod_def by (auto split: option.splits)
  show "R s t" if run: "setattr_owner p inp s = (r2, t)"
  proof (cases "t = s")
    case False
    then have "sys_lchown p (in_uid inp) (in_gid inp) s = (r2, t)"
      using run by (simp only: setattr_owner_def split: if_splits) simp
    then show ?thesis unfolding sys_lchown_def by (rule up [OF steady_calls(2)])
  qed (simp add: same)
  show "R s t" if run: "setattr_times lib p inp s = (r3, t)"
  proof (cases "t = s")
    case False
    then obtain a b r where "sys_lutimes p a b s = (r, t)"
      using run by (auto simp: setattr_times_def split: if_splits sum.splits prod.splits)
    then show ?thesis unfolding sys_lutimes_def by (rule up [OF steady_calls(3)])
  qed (simp add: same)
  show "setattr_size p inp s = (r4, t) \<Longrightarrow> R s t"
    using same up [OF steady_calls(4)] unfolding setattr_size_def sys_truncate_def by (auto split: option.splits)
qed

end

text \<open>The same for a mount all of whose paths are of that kind.\<close>

locale mount_closed = op_closed +
  fixes st :: fuse_state
  assumes up_paths: "writable st \<Longrightarrow> up (upper_path st p)" "writable st \<Longrightarrow> up (path_dir (upper_path st p))"
begin

lemma up_whiteout: "writable st \<Longrightarrow> up (whiteout_path st p c)"
  by (simp add: whiteout_path_def up_paths)

lemma after_copy: "writable st \<Longrightarrow> copy_up st p s = (r, t) \<Longrightarrow> R s t"
  by (rule after_copy_up) (simp_all add: up_paths after_symlink [OF up_paths(1)])

lemma after_wh:
  assumes "writable st"
  shows "make_whiteout st p c s = (r, t) \<Longrightarrow> R s t" and "clear_whiteout st p c s = (r, t) \<Longrightarrow> R s t"
    and "R s (snd (make_whiteout st p c s))" and "R s (snd (clear_whiteout st p c s))"
    and "os_mkdir_all (upper_path st p) m s = (r, t) \<Longrightarrow> R s t"
proof -
  note u = up_paths(1) [OF assms] up_whiteout [OF assms]
  show mk: "make_whiteout st p c s = (r, t) \<Longrightarrow> R s t" for r t by (rule after_make_whiteout [OF u])
  show cl: "clear_whiteout st p c s = (r, t) \<Longrightarrow> R s t" for r t by (rule after_clear_whiteout [OF u(2)])
  show "R s (snd (make_whiteout st p c s))" by (rule mk) (rule prod.collapse [symmetric])
  show "R s (snd (clear_whiteout st p c s))" by (rule cl) (rule prod.collapse [symmetric])
  show "os_mkdir_all (upper_path st p) m s = (r, t) \<Longrightarrow> R s t" by (rule after_mkdir_all [OF u(1)])
qed

lemma after_fuse_open:
  assumes run: "fuse_open lib st p flags s = (r, t)"
  shows "R s t"
proof (cases "t = s")
  case False
  then have w: "writable st"
    using run by (auto simp: fuse_open_def Let_def stat_def split: if_splits option.splits)
  let ?wr = "flags AND O_ACCMODE \<noteq> O_RDONLY"
  obtain r1 s1 where one: "(if ?wr \<and> pi_upper (stat st s p) = None then copy_up st p s else (Inr (), s)) = (r1, s1)" by force
  have k1: "R s s1"
    using one after_copy [OF w] same by (simp only: split: if_splits) auto
  obtain r2 s2 where two: "open_loopback lib (upper_path st p) flags 0 s1 = (r2, s2)" by force
  have "R s1 s2"
    using two after_open [OF up_paths(1) [OF w]] by (auto simp: open_loopback_def split: sum.splits prod.splits)
  moreover have "t = s1 \<or> t = s2"
    using run False two unfolding fuse_open_def Let_def one by (auto split: sum.splits option.splits if_splits)
  ultimately show ?thesis using k1 chain by blast
qed (simp add: same)

lemma after_fuse_setattr:
  assumes fh: "\<And>q s r t. fh = Some (Loopback q) \<Longrightarrow> fl_fsetattr lib q inp s = (r, t) \<Longrightarrow> R s t"
    and run: "fuse_setattr lib st p fh inp s = (r, t)"
  shows "R s t"
proof (cases "(\<exists>q. fh = Some (Loopback q)) \<or> t = s")
  case True
  then show ?thesis using fh run same by (auto simp: fuse_setattr_def)
next
  case False
  then have eq: "fuse_setattr lib st p fh inp s = fuse_setattr lib st p None inp s"
    by (cases fh) (auto simp: fuse_setattr_def split: handle.splits)
  then have w: "writable st" using run False by (auto simp: fuse_setattr_def split: if_splits)
  let ?u = "upper_path st p"
  obtain r0 s0 r1 s1 r2 s2 r3 s3 r4 s4 where steps: "copy_up st p s = (r0, s0)" "setattr_mode ?u inp s0 = (r1, s1)"
    "setattr_owner ?u inp s1 = (r2, s2)" "setattr_times lib ?u inp s2 = (r3, s3)" "setattr_size ?u inp s3 = (r4, s4)"
    by (metis prod.exhaust)
  note st = after_setattr_steps [OF up_paths(1) [OF w]]
  have k: "R s s0" "R s0 s1" "R s1 s2" "R s2 s3" "R s3 s4"
    using after_copy [OF w steps(1)] st(1) [OF steps(2)] st(2) [OF steps(3)] st(3) [OF steps(4)] st(4) [OF steps(5)] by blast+
  have "t \<in> {s0, s1, s2, s3, s4}"
    using run steps w unfolding eq by (auto simp: fuse_setattr_def Let_def split: sum.splits if_splits)
  then show ?thesis using k chain by blast
qed

lemma after_make_in:
  assumes w: "writable st" and act: "\<And>s r t. act (upper_path st (join_path p c)) s = (r, t) \<Longrightarrow> R s t"
    and run: "make_in lib st p c act s = (r, t)"
  shows "R s t"
proof -
  obtain r1 s1 where one: "os_mkdir_all (upper_path st p) 0x1ED s = (r1, s1)" by force
  obtain r2 s2 where two: "clear_whiteout st p c s1 = (r2, s2)" by force
  obtain r3 s3 where three: "act (upper_path st (join_path p c)) s2 = (r3, s3)" by force
  have k: "R s s1" "R s1 s2" "R s2 s3" "R s3 (snd (make_whiteout st p c s3))"
    using after_wh(5) [OF w one] after_wh(2) [OF w two] act [OF three] after_wh(3) [OF w] by blast+
  have "t \<in> {s1, s2, s3, snd (make_whiteout st p c s3)}"
    using run one two three by (auto simp: make_in_def split: sum.splits if_splits)
  then show ?thesis using k chain by blast
qed

lemma after_makes:
  assumes mk: "makes lib st p c ok s t"
  shows "R s t"
proof (cases "valid_name c \<and> writable st")
  case False
  then show ?thesis using makes_refused [OF mk] same by simp
next
  case True
  then have c: "valid_name c" and w: "writable st" by simp_all
  note fin = finish_make_cases
  note up = up_paths(1) [OF w]
  have err: "R s t" if "errno_act lib f q s = (r, t)" "\<And>r. f q s = (r, t) \<Longrightarrow> R s t" for f q s r t
    using that by (auto simp: errno_act_def split: prod.splits sum.splits)
  from mk show ?thesis
  proof (cases rule: makes_cases)
    case (create flags mode r)
    obtain r1 s1 where one: "make_in lib st p c (\<lambda>p. open_loopback lib p (flags OR O_CREAT) (mode AND 0xFFF)) s = (r1, s1)"
      by force
    then have "s1 = t" using create by (auto simp: fuse_create_make [OF c w] dest: fin)
    moreover have "R s s1"
    proof (rule after_make_in [OF w _ one])
      fix u r v
      assume "open_loopback lib (upper_path st (join_path p c)) (flags OR O_CREAT) (mode AND 0xFFF) u = (r, v)"
      from open_loopback_run [OF this] show "R u v" by (auto intro: after_open [OF up])
    qed
    ultimately show ?thesis by simp
  next
    case (mkdir mode r)
    obtain r1 s1 where one: "make_in lib st p c (errno_act lib (\<lambda>p. os_mkdir p (mode AND 0xFFF))) s = (r1, s1)" by force
    then have "s1 = t" using mkdir by (auto simp: fuse_mkdir_make [OF c w] dest: fin)
    moreover have "R s s1" by (rule after_make_in [OF w _ one]) (erule err, rule after_mkdir [OF up])
    ultimately show ?thesis by simp
  next
    case (symlink target r)
    obtain r1 s1 where one: "make_in lib st p c (errno_act lib (os_symlink target)) s = (r1, s1)" by force
    then have "s1 = t" using symlink by (auto simp: fuse_symlink_make [OF c w] dest: fin)
    moreover have "R s s1" by (rule after_make_in [OF w _ one]) (erule err, rule after_symlink [OF up])
    ultimately show ?thesis by simp
  qed
qed

lemma after_fuse_remove:
  assumes run: "fuse_remove lib st p c dir s = (r, t)"
  shows "R s t"
proof (cases "t = s")
  case False
  then have w: "writable st" using run by (auto simp: fuse_remove_def split: if_splits)
  let ?i = "stat st s (join_path p c)"
  obtain r1 s1 where one: "(if pi_lower ?i \<noteq> None then make_whiteout st p c s else (Inr (), s)) = (r1, s1)" by force
  have k1: "R s s1" using one after_wh(1) [OF w] same by (simp only: split: if_splits) auto
  obtain r2 s2 where two: "os_remove (upper_path st (join_path p c)) s1 = (r2, s2)" by force
  have k2: "R s1 s2" by (rule after_remove [OF up_paths(1) [OF w] two])
  have "t \<in> {s1, s2, snd (clear_whiteout st p c s2)}"
    using run False w unfolding fuse_remove_def Let_def one by (auto simp: two split: sum.splits if_splits)
  then show ?thesis using k1 k2 chain after_wh(4) [OF w] by blast
qed (simp add: same)

lemma after_rename_rest:
  assumes w: "writable st" and run: "rename_rest lib st p c q d sw s = (r, t)"
  shows "R s t"
proof -
  obtain r3 s3 where three: "(if sw then make_whiteout st p c s else (Inr (), s)) = (r3, s3)" by force
  let ?dw = "has_whiteout st s3 q d"
  obtain r4 s4 where four: "(if ?dw then clear_whiteout st q d s3 else (Inr (), s3)) = (r4, s4)" by force
  obtain r5 s5 where five: "os_rename (upper_path st (join_path p c)) (upper_path st (join_path q d)) s4 = (r5, s5)" by force
  have k: "R s s3" "R s3 s4" "R s4 s5"
    using three after_wh(1) [OF w] same four after_wh(2) [OF w]
      after_rename [OF up_paths(1) [OF w] up_paths(1) [OF w] five] by (auto split: if_splits)
  define undo where "undo u = (if sw then snd (clear_whiteout st p c u) else u)" for u
  have ku: "R u (undo u)" for u using after_wh(4) [OF w] same by (simp add: undo_def)
  note run = run [unfolded rename_rest_def Let_def three prod.case, folded undo_def, unfolded four prod.case five]
  have "t \<in> {s3, undo s4, s5, undo s5, snd (make_whiteout st q d (undo s5))}"
    using run by (auto split: sum.splits if_splits)
  moreover have "R s s4" "R s s5" using chain [OF k(1,2)] chain [OF chain [OF k(1,2)] k(3)] .
  moreover note chain [OF this(1) ku] chain [OF this(2) ku] chain [OF chain [OF this(2) ku] after_wh(3) [OF w, where p = q and c = d]]
  ultimately show ?thesis using k(1) by auto
qed

lemma after_fuse_rename:
  assumes run: "fuse_rename lib st p c other q d flags s = (r, t)"
  shows "R s t"
proof (cases "t = s")
  case False
  then have w: "writable st" using run by (auto simp: fuse_rename_rest split: if_splits)
  let ?src = "join_path p c"
  obtain r1 s1 where one: "copy_up st ?src s = (r1, s1)" by force
  obtain r2 s2 where two: "os_mkdir_all (upper_path st q) 0x1ED s1 = (r2, s2)" by force
  have "t = s1 \<or> t = s2 \<or> rename_rest lib st p c q d (pi_lower (stat st s ?src) \<noteq> None) s2 = (r, t)"
    using run False one two by (auto simp: fuse_rename_rest split: if_splits sum.splits)
  moreover note k1 = after_copy [OF w one]
  moreover note k2 = chain [OF k1 after_wh(5) [OF w two]]
  moreover have "rename_rest lib st p c q d sw s2 = (r, t) \<Longrightarrow> R s t" for sw
    by (rule chain [OF k2 after_rename_rest [OF w]])
  ultimately show ?thesis by blast
qed (simp add: same)

end

end
