(* ===== verification/Containment.thy ===== *)
theory Containment
  imports CallClosed
begin

text \<open>
  What the operations of a mount can reach on the host: a modifies clause for every call and for
  every operation of fuse.go. Whatever its outcome, an operation on a path that leads through
  directories changes nothing outside the upper directory, and only \<open>Symlink\<close>, \<open>Rename\<close> and
  copying a link up bring symbolic links to new places.
\<close>

section \<open>Calls that make no links\<close>

definition no_new_links :: "os \<Rightarrow> os \<Rightarrow> bool" where
  "no_new_links s t \<longleftrightarrow> (\<forall>k. is_link_at t k \<longrightarrow> is_link_at s k)"

definition adds_no_link :: "(os \<Rightarrow> 'a \<times> os) \<Rightarrow> bool" where
  "adds_no_link f \<longleftrightarrow> (\<forall>s. no_new_links s (snd (f s)))"

named_theorems link_intros \<open>calls that make no symbolic link\<close>

lemma no_new_links_refl [simp]: "no_new_links s s"
  by (simp add: no_new_links_def)

lemma no_new_links_trans: "no_new_links s t \<Longrightarrow> no_new_links t u \<Longrightarrow> no_new_links s u"
  by (simp add: no_new_links_def)

lemma adds_no_linkD: "adds_no_link f \<Longrightarrow> f s = (r, t) \<Longrightarrow> no_new_links s t"
  by (auto simp: adds_no_link_def dest: spec [of _ s])

lemma no_new_links_plain: "no_new_links s t \<Longrightarrow> plain s q \<Longrightarrow> plain t q"
  by (auto simp: no_new_links_def plain_def)

lemma no_new_links_nodes [simp]:
  "no_new_links s (s\<lparr>os_faults := fs\<rparr>)"
  "no_new_links (s\<lparr>os_faults := fs\<rparr>) t = no_new_links s t"
  "no_new_links s (del_node s q)"
  by (auto simp: no_new_links_def is_link_at_def look_del_node split: option.splits if_splits)

lemma no_new_links_add: "\<not> is_link b \<Longrightarrow> no_new_links s (add_node s q m b)"
  by (auto simp: no_new_links_def is_link_at_def look_add_node split: option.splits if_splits)

lemma no_new_links_set:
  "look s q = Some n \<Longrightarrow> (is_link (u_body n') \<Longrightarrow> is_link (u_body n)) \<Longrightarrow> no_new_links s (set_node s q n')"
  by (auto simp: no_new_links_def is_link_at_def look_set_node split: option.splits if_splits)

lemma adds_no_link_faulty [link_intros]: "adds_no_link f \<Longrightarrow> adds_no_link (faulty f)"
  unfolding adds_no_link_def
proof
  fix s
  assume f: "\<forall>s. no_new_links s (snd (f s))"
  obtain r t where rt: "faulty f s = (r, t)" by force
  then show "no_new_links s (snd (faulty f s))"
  proof (cases rule: faulty_cases)
    case (run fs)
    then show ?thesis using rt f [rule_format, of "s\<lparr>os_faults := fs\<rparr>"] by simp
  qed (simp add: rt)
qed

lemma adds_no_link_calls [link_intros]:
  "adds_no_link (os_mkdir p m)" "adds_no_link (sys_open p fl m)" "adds_no_link (os_open_file p fl m)"
  "adds_no_link (os_write q d)" "adds_no_link (os_close q)" "adds_no_link (os_remove p)"
proof -
  show "adds_no_link (os_mkdir p m)" unfolding os_mkdir_def
    by (rule adds_no_link_faulty) (auto simp: adds_no_link_def sys_mkdir_at_def intro: no_new_links_add split: sum.splits)
  show op: "adds_no_link (sys_open p fl m)" for fl m unfolding sys_open_def
    by (rule adds_no_link_faulty)
      (auto simp: adds_no_link_def sys_open_at_def intro!: no_new_links_add no_new_links_set
        split: sum.splits option.splits ubody.splits)
  show "adds_no_link (os_open_file p fl m)" using op by (simp add: os_open_file_def [abs_def])
  show "adds_no_link (os_write q d)" unfolding os_write_def
    by (rule adds_no_link_faulty)
      (auto simp: adds_no_link_def intro!: no_new_links_set split: option.splits ubody.splits)
  show "adds_no_link (os_close q)" unfolding os_close_def
    by (rule adds_no_link_faulty) (simp add: adds_no_link_def)
  show "adds_no_link (os_remove p)" unfolding os_remove_def
    by (rule adds_no_link_faulty)
      (auto simp: adds_no_link_def sys_remove_at_def split: sum.splits option.splits)
qed

lemma adds_no_link_update:
  assumes "\<And>n n'. f n = Inr n' \<Longrightarrow> is_link (u_body n') = is_link (u_body n)"
  shows "adds_no_link (update_at fl p f)"
  unfolding update_at_def
  by (rule adds_no_link_faulty)
    (auto simp: adds_no_link_def dest!: assms intro!: no_new_links_set split: sum.splits option.splits)

lemma adds_no_link_mkdir_all [link_intros]: "adds_no_link (os_mkdir_all p m)"
  unfolding adds_no_link_def os_mkdir_all_def
proof
  fix s
  show "no_new_links s (snd (mkdir_all_rev (is_abs p) (rev (path_elems p)) m s))"
    by (rule mkdir_all_rev_closed [of no_new_links])
      (simp, (rule no_new_links_trans; assumption), rule adds_no_linkD [OF adds_no_link_calls(1)])
qed

interpretation links: call_closed "\<lambda>_. True" no_new_links
  by unfold_locales
    (auto intro: no_new_links_trans adds_no_linkD [OF adds_no_link_mkdir_all] adds_no_linkD [OF adds_no_link_calls(2)]
      adds_no_linkD [OF adds_no_link_calls(4)] adds_no_linkD [OF adds_no_link_calls(5)] adds_no_linkD [OF adds_no_link_calls(6)])

section \<open>Calls below a plain path\<close>

text \<open>A call on a path without links on the way acts at that path only.\<close>

definition only_at :: "path \<Rightarrow> os \<Rightarrow> os \<Rightarrow> bool" where
  "only_at q s t \<longleftrightarrow> (\<forall>k. k \<noteq> q \<longrightarrow> look t k = look s k)"

lemma only_at_nodes [simp]:
  "only_at q s s" "only_at q s (s\<lparr>os_faults := fs\<rparr>)"
  "only_at q (s\<lparr>os_faults := fs\<rparr>) t = only_at q s t"
  "only_at q s (add_node s q m b)" "only_at q s (set_node s q n)" "only_at q s (del_node s q)"
  by (simp_all add: only_at_def os_simps)

lemma only_at_walk:
  assumes v: "valid_path q" and pl: "link_free s q" and nl: "fl \<Longrightarrow> \<not> is_link_at s q"
    and act: "\<And>s. only_at q s (snd (g q s))"
    and run: "faulty (\<lambda>s. case walk_path s fl (abs_of q) of Inl e \<Rightarrow> (Inl e, s) | Inr k \<Rightarrow> g k s) s = (r, t)"
  shows "only_at q s t"
  using run
proof (cases rule: faulty_cases)
  case (run fs)
  let ?s = "s\<lparr>os_faults := fs\<rparr>"
  have "link_free ?s q" "fl \<Longrightarrow> \<not> is_link_at ?s q"
    using pl nl by (simp_all add: link_free_def is_link_at_def)
  then have "walk_path ?s fl (abs_of q) = Inr k \<Longrightarrow> k = q" for k
    using walk_link_free [OF v] by blast
  then show ?thesis
    using run(1) act [of ?s] by (cases "walk_path ?s fl (abs_of q)") auto
qed simp

lemma only_at_calls:
  assumes "valid_path q" and "link_free s q"
  shows only_at_mkdir: "os_mkdir (abs_of q) m s = (r, t) \<Longrightarrow> only_at q s t"
    and only_at_symlink: "os_symlink tg (abs_of q) s = (r', t) \<Longrightarrow> only_at q s t"
    and only_at_remove: "os_remove (abs_of q) s = (r'', t) \<Longrightarrow> only_at q s t"
    and only_at_open: "\<not> is_link_at s q \<Longrightarrow> sys_open (abs_of q) fl m s = (r3, t) \<Longrightarrow> only_at q s t"
    and only_at_update: "(follow \<Longrightarrow> \<not> is_link_at s q) \<Longrightarrow> update_at follow (abs_of q) f s = (r4, t) \<Longrightarrow> only_at q s t"
  unfolding os_mkdir_def os_symlink_def os_remove_def sys_open_def update_at_def
  by (erule only_at_walk [OF assms, rotated 2];
      auto simp: sys_mkdir_at_def sys_remove_at_def sys_open_at_def split: option.splits ubody.splits sum.splits)+

section \<open>Changes inside the upper directory\<close>

definition outside_same :: "path \<Rightarrow> os \<Rightarrow> os \<Rightarrow> bool" where
  "outside_same U s t \<longleftrightarrow> (\<forall>k. \<not> prefix U k \<longrightarrow> look t k = look s k)"

lemma outside_same_refl [simp]: "outside_same U s s"
  by (simp add: outside_same_def)

lemma outside_same_trans: "outside_same U s t \<Longrightarrow> outside_same U t u \<Longrightarrow> outside_same U s u"
  by (simp add: outside_same_def)

lemma outside_same_only_at: "only_at q s t \<Longrightarrow> prefix U q \<Longrightarrow> outside_same U s t"
  by (auto simp: outside_same_def only_at_def)

lemma outside_same_made_dirs:
  assumes m: "mounted st U s" and "\<And>k. k \<notin> K \<Longrightarrow> made_dirs s (U @ cs) t k" and "\<And>k. k \<in> K \<Longrightarrow> prefix U k"
  shows "outside_same U s t"
  unfolding outside_same_def
proof (intro allI impI)
  fix k assume k: "\<not> prefix U k"
  then have "made_dirs s (U @ cs) t k" using assms(2,3) by blast
  moreover have "look s k \<noteq> None" if "prefix k (U @ cs)"
  proof -
    have "prefix k U" using that k by (auto simp: prefix_append)
    then obtain r where "U = k @ r" by (auto simp: prefix_def)
    then show ?thesis
      using is_dir_look [OF mounted_dir [OF m]] wf_prefix_dir [OF mounted_wf [OF m], of k r] is_dir_look [of s k]
      by (cases "r = []") auto
  qed
  ultimately show "look t k = look s k" by (auto simp: made_dirs_def)
qed

text \<open>A mount stays a mount with the same outside: what every operation promises. The calls in the
  middle of an operation make no links either.\<close>

definition kept :: "fuse_state \<Rightarrow> path \<Rightarrow> os \<Rightarrow> os \<Rightarrow> bool" where
  "kept st U s t \<longleftrightarrow> mounted st U t \<and> outside_same U s t"

definition tame :: "fuse_state \<Rightarrow> path \<Rightarrow> os \<Rightarrow> os \<Rightarrow> bool" where
  "tame st U s t \<longleftrightarrow> kept st U s t \<and> no_new_links s t"

lemma kept_refl: "mounted st U s \<Longrightarrow> kept st U s s"
  by (simp add: kept_def)

lemma kept_trans: "kept st U s t \<Longrightarrow> kept st U t u \<Longrightarrow> kept st U s u"
  by (auto simp: kept_def intro: outside_same_trans)

lemma tame_refl: "mounted st U s \<Longrightarrow> tame st U s s"
  by (simp add: tame_def kept_refl)

lemma tame_trans: "tame st U s t \<Longrightarrow> tame st U t u \<Longrightarrow> tame st U s u"
  by (auto simp: tame_def intro: kept_trans no_new_links_trans)

lemma tameD:
  assumes "tame st U s t"
  shows tame_kept: "kept st U s t" and tame_mounted: "mounted st U t"
    and tame_plain: "plain s q \<Longrightarrow> plain t q" and tame_link: "\<not> is_link_at s q \<Longrightarrow> \<not> is_link_at t q"
  using assms no_new_links_plain by (auto simp: tame_def kept_def no_new_links_def)

lemma kept_only_at:
  assumes m: "mounted st U s" and "only_at (U @ cs) s t" and "wf_os t" and "cs \<noteq> [] \<or> is_dir_at t U"
  shows "kept st U s t"
proof -
  have "is_dir_at t U"
    using assms mounted_dir [OF m] by (cases "cs = []") (auto simp: only_at_def is_dir_at_def)
  then show ?thesis
    using assms outside_same_only_at [OF assms(2)] by (simp add: kept_def mounted_def)
qed

lemma tame_only_at:
  "mounted st U s \<Longrightarrow> only_at (U @ cs @ [c]) s t \<Longrightarrow> wf_os t \<Longrightarrow> no_new_links s t \<Longrightarrow> tame st U s t"
  by (simp add: tame_def kept_only_at)

section \<open>The parts of the operations\<close>

text \<open>A place of the mount: a mount whose upper directory has no link on the way to \<open>cs\<close>.\<close>

definition place :: "fuse_state \<Rightarrow> path \<Rightarrow> os \<Rightarrow> path \<Rightarrow> bool" where
  "place st U s cs \<longleftrightarrow> mounted st U s \<and> valid_path cs \<and> plain s (U @ cs)"

lemma placeD:
  assumes "place st U s cs"
  shows place_mounted: "mounted st U s" and place_valid: "valid_path cs" and place_plain: "plain s (U @ cs)"
    and place_wf: "wf_os s" and place_full: "valid_path (U @ cs)"
    and place_upper: "upper_path st (of_comps cs) = abs_of (U @ cs)"
    and place_name: "valid_name c \<Longrightarrow> upper_path st (join_path (of_comps cs) c) = abs_of ((U @ cs) @ [c])"
    and place_whiteout: "valid_name c \<Longrightarrow> whiteout_path st (of_comps cs) c = abs_of ((U @ cs) @ [wh c])"
    and place_link_free: "link_free s (U @ cs @ [c])"
  using assms mounted_wf mounted_valid upper_path_of upper_path_name whiteout_path_of link_free_snoc [of s "U @ cs" c]
  by (auto simp: place_def)

lemma place_tame: "place st U s cs \<Longrightarrow> tame st U s t \<Longrightarrow> place st U t cs"
  using tame_mounted tame_plain by (auto simp: place_def)

lemma tame_mkdir_all:
  assumes p: "place st U s cs" and run: "os_mkdir_all (upper_path st (of_comps cs)) m s = (r, t)"
  shows "tame st U s t"
proof -
  note ma = mkdir_all_spec [OF place_wf [OF p] place_full [OF p] place_plain [OF p] run [unfolded place_upper [OF p]]]
  have "mounted st U t" by (rule mounted_grown [OF place_mounted [OF p] ma(2,3)])
  moreover have "outside_same U s t"
    by (rule outside_same_made_dirs [OF place_mounted [OF p], of "{}"])
      (auto intro: grown_made_dirs [OF ma(3)])
  moreover have "no_new_links s t" by (rule adds_no_linkD [OF adds_no_link_mkdir_all run])
  ultimately show ?thesis by (simp add: tame_def kept_def)
qed

lemma tame_open:
  assumes p: "place st U s cs" and c: "valid_name c" and nl: "\<not> is_link_at s (U @ cs @ [c])"
    and run: "sys_open (abs_of ((U @ cs) @ [c])) fl m s = (r, t)"
  shows "tame st U s t"
proof (rule tame_only_at [OF place_mounted [OF p]])
  show "only_at (U @ cs @ [c]) s t"
    using only_at_open [of "(U @ cs) @ [c]" s, OF _ _ _ run] place_full [OF p] place_link_free [OF p] c nl by simp
  show "wf_os t" by (rule keeps_wfD [OF keeps_wf_open place_wf [OF p] run]) simp
  show "no_new_links s t" by (rule adds_no_linkD [OF adds_no_link_calls(2) run])
qed

lemma tame_remove:
  assumes p: "place st U s cs" and c: "valid_name c"
    and run: "os_remove (abs_of ((U @ cs) @ [c])) s = (r, t)"
  shows "tame st U s t"
proof (rule tame_only_at [OF place_mounted [OF p]])
  show "only_at (U @ cs @ [c]) s t"
    using only_at_remove [of "(U @ cs) @ [c]" s, OF _ _ run] place_full [OF p] place_link_free [OF p] c by simp
  show "wf_os t" by (rule keeps_wfD [OF keeps_wf_remove place_wf [OF p] run]) simp
  show "no_new_links s t" by (rule adds_no_linkD [OF adds_no_link_calls(6) run])
qed

lemma tame_host:
  assumes "mounted st U s" and "look t = look s" and "wf_os t"
  shows "tame st U s t"
  using assms by (simp add: tame_def kept_def mounted_def outside_same_def no_new_links_def is_link_at_def is_dir_at_def)

lemma tame_close: "mounted st U s \<Longrightarrow> os_close q s = (r, t) \<Longrightarrow> tame st U s t"
  using close_spec tame_host keeps_wfD [OF keeps_wf_close mounted_wf] by blast

lemma tame_clear_whiteout:
  assumes p: "place st U s cs" and c: "valid_name c" and run: "clear_whiteout st (of_comps cs) c s = (r, t)"
  shows "tame st U s t"
proof -
  obtain r1 where "os_remove (abs_of ((U @ cs) @ [wh c])) s = (r1, t)"
    using run place_whiteout [OF p c]
    by (auto simp: clear_whiteout_def split: prod.splits sum.splits if_splits)
  then show ?thesis by (rule tame_remove [OF p valid_wh [OF c]])
qed

lemma tame_make_whiteout:
  assumes p: "place st U s cs" and c: "valid_name c" and nl: "\<not> is_link_at s (U @ cs @ [wh c])"
    and run: "make_whiteout st (of_comps cs) c s = (r, t)"
  shows "tame st U s t"
proof -
  obtain r1 s1 where one: "os_mkdir_all (upper_path st (of_comps cs)) 0x1ED s = (r1, s1)" by force
  note t1 = tame_mkdir_all [OF p one]
  show ?thesis
  proof (cases r1)
    case (Inl e)
    then show ?thesis using run one t1 by (simp add: make_whiteout_def)
  next
    case (Inr u)
    obtain r2 s2 where two: "sys_open (abs_of ((U @ cs) @ [wh c])) (O_CREAT OR O_WRONLY) (go_perm 0x1A4) s1 = (r2, s2)"
      by force
    have t2: "tame st U s s2"
      by (rule tame_trans [OF t1 tame_open [OF place_tame [OF p t1] valid_wh [OF c] tame_link [OF t1 nl] two]])
    have rest: "t = s2 \<or> (\<exists>f. os_close f s2 = (r, t))"
      using run one two Inr place_whiteout [OF p c]
      by (auto simp: make_whiteout_def os_open_file_def split: sum.splits)
    then show ?thesis using t2 tame_trans [OF t2 tame_close [OF tame_mounted [OF t2]]] by blast
  qed
qed

text \<open>Copying up: a link is made at the copied name at most, and only when the lower node is a link.\<close>

lemma kept_copy_up:
  assumes p: "place st U s cs" and c: "valid_name c" and run: "copy_up st (of_comps (cs @ [c])) s = (r, t)"
  shows "kept st U s t" and "k \<noteq> U @ cs @ [c] \<Longrightarrow> is_link_at t k \<Longrightarrow> is_link_at s k"
proof -
  note f = copy_up_frame [OF place_mounted [OF p] place_valid [OF p] c place_plain [OF p] run]
  then have md: "\<And>k. k \<notin> {U @ cs @ [c]} \<Longrightarrow> made_dirs s (U @ cs) t k" by blast
  have "outside_same U s t" by (rule outside_same_made_dirs [OF place_mounted [OF p] md]) auto
  then show "kept st U s t" using f by (simp add: kept_def)
  show "k \<noteq> U @ cs @ [c] \<Longrightarrow> is_link_at t k \<Longrightarrow> is_link_at s k" using made_dirs_link [OF md] by blast
qed

lemma place_copied_up:
  assumes p: "place st U s cs" "place st U s ds" and c: "valid_name c"
    and run: "copy_up st (of_comps (cs @ [c])) s = (r, t)" and apart: "\<not> prefix (cs @ [c]) ds"
  shows "place st U t ds"
proof -
  have "plain t (U @ ds)"
    unfolding plain_def
  proof (intro allI impI)
    fix q assume q: "prefix q (U @ ds)"
    then have "q \<noteq> U @ cs @ [c]" using apart by (auto simp: prefix_append)
    then show "\<not> is_link_at t q"
      using kept_copy_up(2) [OF p(1) c run] place_plain [OF p(2)] q by (auto simp: plain_def)
  qed
  then show ?thesis using kept_copy_up(1) [OF p(1) c run] p(2) by (auto simp: place_def kept_def)
qed

lemma links_copy_up:
  assumes "\<And>n. lower_node st p = Some n \<Longrightarrow> n_is_dir n \<or> n_link n = ''''" and run: "copy_up st p s = (r, t)"
  shows "no_new_links s t"
  by (rule links.after_copy_up [OF _ _ _ run]) (use assms(1) in auto)

section \<open>The operations\<close>

lemma makesI:
  "fuse_create lib st p c flags mode s = (r1, t) \<Longrightarrow> makes lib st p c (\<not> isl r1) s t"
  "fuse_mkdir lib st p c mode s = (r2, t) \<Longrightarrow> makes lib st p c (\<not> isl r2) s t"
  "fuse_symlink lib st p target c s = (r3, t) \<Longrightarrow> makes lib st p c (\<not> isl r3) s t"
  unfolding makes_def by (metis (full_types))+

lemma outside_same_names:
  assumes "mounted st U s" and "\<And>k. k \<noteq> U @ cs @ [wh c] \<Longrightarrow> k \<noteq> U @ cs @ [c] \<Longrightarrow> made_dirs s (U @ cs) t k"
  shows "outside_same U s t"
proof (rule outside_same_made_dirs [OF assms(1), of "{U @ cs @ [wh c], U @ cs @ [c]}" cs])
  fix k
  show "k \<notin> {U @ cs @ [wh c], U @ cs @ [c]} \<Longrightarrow> made_dirs s (U @ cs) t k" using assms(2) by simp
  show "k \<in> {U @ cs @ [wh c], U @ cs @ [c]} \<Longrightarrow> prefix U k" by (auto simp del: append_assoc)
qed

lemma kept_makes:
  assumes p: "place st U s cs" and c: "valid_name c" and nl: "\<not> is_link_at s (U @ cs @ [c])"
    and mk: "makes lib st (of_comps cs) c ok s t"
  shows "kept st U s t"
proof -
  have "plain s (U @ cs @ [c])" using plain_snoc [of s "U @ cs" c] place_plain [OF p] nl by simp
  note ms = makes_spec [OF place_mounted [OF p] place_valid [OF p] c this mk]
  then have "outside_same U s t" using outside_same_names [OF place_mounted [OF p]] by blast
  then show ?thesis using ms by (simp add: kept_def)
qed

lemma kept_create:
  assumes "place st U s cs" and "\<not> is_link_at s (U @ cs @ [c])"
  shows "fuse_create lib st (of_comps cs) c flags mode s = (r1, t) \<Longrightarrow> kept st U s t"
    and "fuse_mkdir lib st (of_comps cs) c mode s = (r2, t) \<Longrightarrow> kept st U s t"
    and "fuse_symlink lib st (of_comps cs) target c s = (r3, t) \<Longrightarrow> kept st U s t"
proof -
  have bad: "kept st U s s" by (rule kept_refl [OF place_mounted [OF assms(1)]])
  have mk: "valid_name c \<Longrightarrow> makes lib st (of_comps cs) c ok s t \<Longrightarrow> kept st U s t" for ok
    by (rule kept_makes [OF assms(1) _ assms(2)])
  show "kept st U s t" if run: "fuse_create lib st (of_comps cs) c flags mode s = (r1, t)"
  proof (cases "valid_name c")
    case True
    have "makes lib st (of_comps cs) c (\<not> isl r1) s t" using run by (rule makesI)
    then show ?thesis by (rule mk [OF True])
  qed (use run bad in \<open>simp add: fuse_create_def\<close>)
  show "kept st U s t" if run: "fuse_mkdir lib st (of_comps cs) c mode s = (r2, t)"
  proof (cases "valid_name c")
    case True
    have "makes lib st (of_comps cs) c (\<not> isl r2) s t" using run by (rule makesI)
    then show ?thesis by (rule mk [OF True])
  qed (use run bad in \<open>simp add: fuse_mkdir_def\<close>)
  show "kept st U s t" if run: "fuse_symlink lib st (of_comps cs) target c s = (r3, t)"
  proof (cases "valid_name c")
    case True
    have "makes lib st (of_comps cs) c (\<not> isl r3) s t" using run by (rule makesI)
    then show ?thesis by (rule mk [OF True])
  qed (use run bad in \<open>simp add: fuse_symlink_def\<close>)
qed

lemma kept_remove_op:
  assumes p: "place st U s cs" and run: "fuse_remove lib st (of_comps cs) c dir s = (r, t)"
  shows "kept st U s t"
proof (cases "valid_name c")
  case False
  then show ?thesis using run kept_refl [OF place_mounted [OF p]] by (auto simp: fuse_remove_def)
next
  case c: True
  note m = place_mounted [OF p] and v = place_valid [OF p] c and pl = place_plain [OF p]
  have "t = s \<or> (mounted st U t \<and> (\<forall>k. k \<noteq> U @ cs @ [wh c] \<longrightarrow> k \<noteq> U @ cs @ [c] \<longrightarrow> made_dirs s (U @ cs) t k))"
  proof (cases r)
    case (Inl e)
    then show ?thesis using remove_failed [OF m v pl] run by blast
  next
    case (Inr u)
    then show ?thesis using remove_success [OF m v pl] run by (cases u) simp
  qed
  then show ?thesis
  proof
    assume "t = s"
    then show ?thesis using kept_refl [OF m] by simp
  next
    assume t: "mounted st U t \<and> (\<forall>k. k \<noteq> U @ cs @ [wh c] \<longrightarrow> k \<noteq> U @ cs @ [c] \<longrightarrow> made_dirs s (U @ cs) t k)"
    then have "outside_same U s t" using outside_same_names [OF m, of cs c t] by blast
    then show ?thesis using t by (simp add: kept_def)
  qed
qed

text \<open>Opening a file, and changing the attributes of a node: the host follows no link.\<close>

lemma open_result:
  assumes "valid_path q" and "link_free s q" and "\<not> is_link_at s q" and "sys_open (abs_of q) fl m s = (Inr f, t)"
  shows "f = q"
  using assms(4) [unfolded sys_open_def]
proof (cases rule: faulty_cases)
  case (run fs)
  let ?s = "s\<lparr>os_faults := fs\<rparr>"
  have "link_free ?s q" "\<not> is_link_at ?s q" using assms(2,3) by (simp_all add: link_free_def is_link_at_def)
  then have "walk_path ?s b (abs_of q) = Inr k \<Longrightarrow> k = q" for b k using walk_link_free [OF assms(1)] by blast
  then show ?thesis
    using run(1) by (auto simp: sys_open_at_def split: sum.splits option.splits ubody.splits if_splits)
qed simp

lemma is_link_upper [simp]: "pi_upper i = Some n \<Longrightarrow> is_link_pi i = is_link (u_body n)"
  by (cases "u_body n")
    (auto simp: is_link_pi_def pi_mode_def stat_mode_def type_bits and.assoc,
     auto simp: S_IFDIR_def S_IFREG_def S_IFLNK_def S_IFIFO_def S_IFMT_def)

lemma is_link_lower: "pi_upper i = None \<Longrightarrow> pi_lower i = Some n \<Longrightarrow> \<not> is_link_pi i \<Longrightarrow> n_is_dir n \<or> n_link n = ''''"
  by (auto simp: is_link_pi_def pi_mode_def S_IFLNK_def S_IFMT_def split: if_splits)

lemma no_link_seen:
  assumes p: "place st U s cs" and c: "valid_name c" and nl: "\<not> is_link_pi (stat st s (of_comps (cs @ [c])))"
    and ex: "exists_pi (stat st s (of_comps (cs @ [c])))"
  shows "\<not> is_link_at s (U @ cs @ [c])"
    and "lower_node st (of_comps (cs @ [c])) = Some n \<Longrightarrow> look s (U @ cs @ [c]) = None \<Longrightarrow> n_is_dir n \<or> n_link n = ''''"
proof -
  note st = stat_entry [OF place_mounted [OF p] place_valid [OF p] c place_plain [OF p]]
  have w: "look s (U @ cs @ [wh c]) = None" using ex unfolding st by (simp add: entry_none_iff)
  then have e: "pi_upper (entry st s U cs c) = look s (U @ cs @ [c])"
    "pi_lower (entry st s U cs c) = lower_node st (of_comps (cs @ [c]))" by (simp_all add: entry_def)
  show "\<not> is_link_at s (U @ cs @ [c])"
    using nl is_link_upper [of "entry st s U cs c"] unfolding st e by (auto simp: is_link_at_def split: option.splits)
  show "lower_node st (of_comps (cs @ [c])) = Some n \<Longrightarrow> look s (U @ cs @ [c]) = None \<Longrightarrow> n_is_dir n \<or> n_link n = ''''"
    using nl is_link_lower [of "entry st s U cs c" n] unfolding st e by blast
qed

lemma kept_open:
  assumes p: "place st U s cs" and c: "valid_name c" and nl: "\<not> is_link_pi (stat st s (of_comps (cs @ [c])))"
    and run: "fuse_open lib st (of_comps (cs @ [c])) flags s = (r, t)"
  shows "kept st U s t" and "r = Inr (Loopback q) \<Longrightarrow> q = U @ cs @ [c]"
    and "k \<noteq> U @ cs @ [c] \<Longrightarrow> made_dirs s (U @ cs) t k"
proof -
  let ?p = "of_comps (cs @ [c])" and ?k = "(U @ cs) @ [c]"
  let ?wr = "flags AND O_ACCMODE \<noteq> O_RDONLY"
  have goal: "kept st U s t \<and> (\<forall>q. r = Inr (Loopback q) \<longrightarrow> q = U @ cs @ [c]) \<and>
      (\<forall>k. k \<noteq> ?k \<longrightarrow> made_dirs s (U @ cs) t k)"
  proof (cases "exists_pi (stat st s ?p)")
    case False
    then show ?thesis using run kept_refl [OF place_mounted [OF p]] by (auto simp: fuse_open_def made_dirs_def)
  next
    case ex: True
    note seen = no_link_seen [OF p c nl ex]
    have up: "upper_path st ?p = abs_of ?k" using place_name [OF p c] by (simp add: join_path_of_comps place_valid [OF p] c)
    obtain r1 s1 where one: "(if ?wr \<and> pi_upper (stat st s ?p) = None then copy_up st ?p s else (Inr (), s)) = (r1, s1)"
      by force
    have s1: "kept st U s s1 \<and> place st U s1 cs \<and> \<not> is_link_at s1 ?k \<and> (\<forall>k. k \<noteq> ?k \<longrightarrow> made_dirs s (U @ cs) s1 k)"
    proof (cases "?wr \<and> pi_upper (stat st s ?p) = None")
      case False
      then have "s1 = s" using one by (simp only: if_False prod.inject)
      then show ?thesis using p seen(1) kept_refl [OF place_mounted [OF p]] by (simp add: made_dirs_def)
    next
      case True
      then have cu: "copy_up st ?p s = (r1, s1)" using one by simp
      have none: "look s (U @ cs @ [c]) = None"
        using True ex unfolding stat_entry [OF place_mounted [OF p] place_valid [OF p] c place_plain [OF p]] entry_none_iff
        by (simp add: entry_def)
      have "no_new_links s s1" by (rule links_copy_up [OF seen(2) [OF _ none] cu])
      then have "\<not> is_link_at s1 ?k" using seen(1) by (auto simp: no_new_links_def)
      moreover have "\<forall>k. k \<noteq> ?k \<longrightarrow> made_dirs s (U @ cs) s1 k"
        using copy_up_frame [OF place_mounted [OF p] place_valid [OF p] c place_plain [OF p] cu] by simp
      ultimately show ?thesis using kept_copy_up(1) [OF p c cu] place_copied_up [OF p p c cu] by (auto dest: prefix_length_le)
    qed
    have cases: "(t = s1 \<and> (\<forall>q. r \<noteq> Inr (Loopback q))) \<or> open_loopback lib (abs_of ?k) flags 0 s1 = (r, t)"
    proof -
      define j where "j = (if ?wr \<and> pi_upper (stat st s ?p) = None then stat st s1 ?p else stat st s ?p)"
      have g: "\<not> (?wr \<and> \<not> writable st)" "\<not> \<not> exists_pi (stat st s ?p)"
        using mounted_writable [OF place_mounted [OF p]] ex by simp_all
      note run = run [unfolded fuse_open_def Let_def up one prod.case, folded j_def,
          unfolded g [THEN if_not_P]]
      show ?thesis
      proof (cases "r1 \<in> range Inl \<or> pi_upper j = None")
        case True
        then show ?thesis using run by (cases r1; cases "pi_lower j") auto
      next
        case False
        then show ?thesis using run by (cases r1) auto
      qed
    qed
    then show ?thesis
    proof
      assume "open_loopback lib (abs_of ?k) flags 0 s1 = (r, t)"
      then obtain r2 where op: "sys_open (abs_of ?k) (flags AND NOT (O_APPEND OR FMODE_EXEC)) 0 s1 = (r2, t)"
        and r: "r = (case r2 of Inl e \<Rightarrow> Inl (fl_errno lib (Errno e)) | Inr q \<Rightarrow> Inr (Loopback q))"
        by (auto simp: open_loopback_def split: prod.splits sum.splits)
      have l1: "\<not> is_link_at s1 (U @ cs @ [c])" and p1: "place st U s1 cs" using s1 by simp_all
      have "kept st U s1 t" by (rule tame_kept [OF tame_open [OF p1 c l1 op]])
      moreover have "r2 = Inr q \<Longrightarrow> q = ?k" for q
        using open_result [of ?k s1 _ _ q t] op l1 place_link_free [OF p1, of c] place_full [OF p1] c by simp
      moreover have "r = Inr (Loopback q) \<Longrightarrow> r2 = Inr q" for q using r by (cases r2) simp_all
      moreover have "only_at ?k s1 t"
        using only_at_open [of ?k s1, OF _ _ _ op] l1 place_link_free [OF p1, of c] place_full [OF p1] c by simp
      then have "\<forall>k. k \<noteq> ?k \<longrightarrow> made_dirs s (U @ cs) t k"
        using s1 made_dirs_same [of t _ s1] by (simp add: only_at_def)
      ultimately show ?thesis using s1 kept_trans by auto
    qed (use s1 in blast)
  qed
  then show "kept st U s t" "r = Inr (Loopback q) \<Longrightarrow> q = U @ cs @ [c]"
    "k \<noteq> U @ cs @ [c] \<Longrightarrow> made_dirs s (U @ cs) t k" by simp_all
qed

text \<open>Changes of attributes, at any path of the mount and at its top.\<close>

lemma update_bodies:
  assumes "\<And>n n'. f n = Inr n' \<Longrightarrow> u_body n' = BDir \<longleftrightarrow> u_body n = BDir"
    and run: "update_at fl p f s = (r, t)"
  shows "is_dir_at t k = is_dir_at s k"
  using run [unfolded update_at_def]
proof (cases rule: faulty_cases)
  case (run fs)
  then show ?thesis
    by (auto simp: is_dir_at_def look_set_node assms(1) split: sum.splits option.splits if_splits)
qed (simp add: is_dir_at_def)

text \<open>A change at one path.\<close>

definition touch :: "fuse_state \<Rightarrow> path \<Rightarrow> path \<Rightarrow> os \<Rightarrow> os \<Rightarrow> bool" where
  "touch st U q s t \<longleftrightarrow> tame st U s t \<and> only_at q s t"

lemma touch_refl: "mounted st U s \<Longrightarrow> touch st U q s s"
  by (simp add: touch_def tame_refl)

lemma touch_trans: "touch st U q s t \<Longrightarrow> touch st U q t u \<Longrightarrow> touch st U q s u"
  by (auto simp: touch_def only_at_def intro: tame_trans)

lemma touch_update:
  assumes m: "mounted st U s" and v: "valid_path (U @ cs)" and lf: "link_free s (U @ cs)"
    and nl: "fl \<Longrightarrow> \<not> is_link_at s (U @ cs)" and f: "steady f"
    and run: "update_at fl (abs_of (U @ cs)) f s = (r, t)"
  shows "touch st U (U @ cs) s t"
proof -
  have b: "f n = Inr n' \<Longrightarrow> (u_body n' = BDir \<longleftrightarrow> u_body n = BDir) \<and> is_link (u_body n') = is_link (u_body n)"
    for n n' using f unfolding steady_def by blast
  have wf: "wf_os t" by (rule keeps_wfD [OF keeps_wf_update mounted_wf [OF m] run]) (use b in simp_all)
  have "is_dir_at t U" using update_bodies [OF _ run] b mounted_dir [OF m] by blast
  moreover have only: "only_at (U @ cs) s t" by (rule only_at_update [OF v lf nl run])
  ultimately have "kept st U s t" by (intro kept_only_at [OF m _ wf]) simp_all
  moreover have "no_new_links s t" by (rule adds_no_linkD [OF adds_no_link_update run]) (use b in blast)
  ultimately show ?thesis using only by (simp add: tame_def touch_def)
qed

text \<open>The four steps of \<open>Setattr\<close> at a path without links on the way; the first and the last follow
  a link at the path itself.\<close>

lemma touch_setattr_steps:
  assumes m: "mounted st U s" and v: "valid_path (U @ cs)" and lf: "link_free s (U @ cs)"
    and nl: "\<not> is_link_at s (U @ cs) \<or> in_mode inp = None \<and> in_size inp = None"
  shows "setattr_mode (abs_of (U @ cs)) inp s = (r1, t) \<Longrightarrow> touch st U (U @ cs) s t"
    and "setattr_owner (abs_of (U @ cs)) inp s = (r2, t) \<Longrightarrow> touch st U (U @ cs) s t"
    and "setattr_times lib (abs_of (U @ cs)) inp s = (r3, t) \<Longrightarrow> touch st U (U @ cs) s t"
    and "setattr_size (abs_of (U @ cs)) inp s = (r4, t) \<Longrightarrow> touch st U (U @ cs) s t"
proof -
  note up = touch_update [OF m v lf] and id = touch_refl [OF m]
  let ?q = "abs_of (U @ cs)"
  show "touch st U (U @ cs) s t" if run: "setattr_mode ?q inp s = (r1, t)"
  proof (cases "in_mode inp")
    case (Some x)
    then have "update_at True ?q (\<lambda>n. Inr (n\<lparr>u_mode := x AND 0xFFF\<rparr>)) s = (r1, t)" "\<not> is_link_at s (U @ cs)"
      using run nl by (simp_all add: setattr_mode_def sys_chmod_def)
    then show ?thesis by (rule up [OF _ steady_calls(1), rotated])
  qed (use run id in \<open>simp add: setattr_mode_def\<close>)
  show "touch st U (U @ cs) s t" if run: "setattr_owner ?q inp s = (r2, t)"
  proof (cases "in_uid inp = None \<and> in_gid inp = None")
    case False
    have "sys_lchown ?q (in_uid inp) (in_gid inp) s = (r2, t)"
      using run unfolding setattr_owner_def if_not_P [OF False] .
    then show ?thesis unfolding sys_lchown_def by (rule up [OF _ steady_calls(2), rotated]) simp
  qed (use run id in \<open>simp add: setattr_owner_def\<close>)
  show "touch st U (U @ cs) s t" if run: "setattr_times lib ?q inp s = (r3, t)"
  proof -
    have "t = s \<or> (\<exists>a b r. sys_lutimes ?q a b s = (r, t))"
      using run by (auto simp: setattr_times_def split: if_splits sum.splits prod.splits)
    then consider "t = s" | a b r where "sys_lutimes ?q a b s = (r, t)" by blast
    then show ?thesis
    proof cases
      case (2 a b r)
      then show ?thesis unfolding sys_lutimes_def by (rule up [OF _ steady_calls(3), rotated]) simp
    qed (simp add: id)
  qed
  show "touch st U (U @ cs) s t" if run: "setattr_size ?q inp s = (r4, t)"
  proof (cases "in_size inp")
    case (Some x)
    then have "sys_truncate ?q x s = (r4, t)" "\<not> is_link_at s (U @ cs)"
      using run nl by (simp_all add: setattr_size_def)
    then show ?thesis unfolding sys_truncate_def by (rule up [OF _ steady_calls(4), rotated])
  qed (use run id in \<open>simp add: setattr_size_def\<close>)
qed

lemma tame_link_free: "tame st U s t \<Longrightarrow> link_free s q \<Longrightarrow> link_free t q"
  using tame_link by (auto simp: link_free_def)

lemma touch_setattr:
  assumes m: "mounted st U s" and v: "valid_path (U @ cs)" and lf: "link_free s (U @ cs)"
    and nl: "\<not> is_link_at s (U @ cs) \<or> in_mode inp = None \<and> in_size inp = None"
    and up: "upper_path st p = abs_of (U @ cs)" and cu: "copy_up st p s0 = (r0, s)"
    and run: "fuse_setattr lib st p fh inp s0 = (r, t)" and fh: "\<And>q. fh \<noteq> Some (Loopback q)"
  shows "touch st U (U @ cs) s t"
proof -
  let ?u = "abs_of (U @ cs)"
  obtain r1 s1 r2 s2 r3 s3 r4 s4 where steps: "setattr_mode ?u inp s = (r1, s1)" "setattr_owner ?u inp s1 = (r2, s2)"
    "setattr_times lib ?u inp s2 = (r3, s3)" "setattr_size ?u inp s3 = (r4, s4)"
    by (metis prod.exhaust)
  have next_ok: "touch st U (U @ cs) s u \<Longrightarrow> mounted st U u \<and> link_free u (U @ cs) \<and>
      (\<not> is_link_at u (U @ cs) \<or> in_mode inp = None \<and> in_size inp = None)" for u
    using tame_mounted tame_link_free lf tame_link nl unfolding touch_def by blast
  have s1: "touch st U (U @ cs) s s1" by (rule touch_setattr_steps(1) [OF m v lf nl steps(1)])
  have s2: "touch st U (U @ cs) s s2" using next_ok [OF s1] touch_setattr_steps(2) [OF _ v _ _ steps(2)] touch_trans [OF s1] by blast
  have s3: "touch st U (U @ cs) s s3" using next_ok [OF s2] touch_setattr_steps(3) [OF _ v _ _ steps(3)] touch_trans [OF s2] by blast
  have s4: "touch st U (U @ cs) s s4" using next_ok [OF s3] touch_setattr_steps(4) [OF _ v _ _ steps(4)] touch_trans [OF s3] by blast
  have "fuse_setattr lib st p fh inp s0 = fuse_setattr lib st p None inp s0"
    using fh by (cases fh) (auto simp: fuse_setattr_def split: handle.splits)
  then have "t \<in> {s, s1, s2, s3, s4}"
    using run cu steps mounted_writable [OF m]
    by (auto simp: fuse_setattr_def up Let_def split: sum.splits if_splits)
  then show ?thesis using touch_refl [OF m] s1 s2 s3 s4 by blast
qed

lemma kept_setattr:
  assumes p: "place st U s cs" and c: "valid_name c" and ex: "exists_pi (stat st s (of_comps (cs @ [c])))"
    and nl: "\<not> is_link_pi (stat st s (of_comps (cs @ [c]))) \<or> in_mode inp = None \<and> in_size inp = None"
    and fh: "\<And>q. fh \<noteq> Some (Loopback q)"
    and run: "fuse_setattr lib st (of_comps (cs @ [c])) fh inp s = (r, t)"
  shows "kept st U s t" and "k \<noteq> U @ cs @ [c] \<Longrightarrow> made_dirs s (U @ cs) t k"
proof -
  let ?p = "of_comps (cs @ [c])"
  obtain r1 s1 where one: "copy_up st ?p s = (r1, s1)" by force
  have k1: "kept st U s s1" by (rule kept_copy_up(1) [OF p c one])
  have p1: "place st U s1 cs" by (rule place_copied_up [OF p p c one]) (auto dest: prefix_length_le)
  have l1: "\<not> is_link_at s1 (U @ cs @ [c]) \<or> in_mode inp = None \<and> in_size inp = None"
  proof (cases "is_link_pi (stat st s ?p)")
    case False
    note seen = no_link_seen [OF p c False ex]
    have "no_new_links s s1"
    proof (cases "look s (U @ cs @ [c]) = None")
      case True
      then show ?thesis by (intro links_copy_up [OF seen(2) one])
    next
      case False
      then show ?thesis
        using copy_up_frame [OF place_mounted [OF p] place_valid [OF p] c place_plain [OF p] one] by simp
    qed
    then show ?thesis using seen(1) by (auto simp: no_new_links_def)
  qed (use nl in blast)
  have up: "upper_path st ?p = abs_of (U @ (cs @ [c]))"
    using place_name [OF p c] by (simp add: join_path_of_comps place_valid [OF p] c)
  have v: "valid_path (U @ (cs @ [c]))" using place_full [OF p] c by simp
  have t: "tame st U s1 t" "only_at (U @ cs @ [c]) s1 t"
    using touch_setattr [OF place_mounted [OF p1] v place_link_free [OF p1] l1 up one run fh]
    by (simp_all add: touch_def)
  show "kept st U s t" by (rule kept_trans [OF k1 tame_kept [OF t(1)]])
  show "k \<noteq> U @ cs @ [c] \<Longrightarrow> made_dirs s (U @ cs) t k"
    using copy_up_frame [OF place_mounted [OF p] place_valid [OF p] c place_plain [OF p] one] t(2)
      made_dirs_same [of t k s1] by (simp add: only_at_def)
qed

text \<open>The top directory is never copied up.\<close>

lemma kept_setattr_top:
  assumes m: "mounted st U s" and fh: "\<And>q. fh \<noteq> Some (Loopback q)" and run: "fuse_setattr lib st '''' fh inp s = (r, t)"
  shows "kept st U s t" and "only_at U s t"
proof -
  have up: "upper_path st '''' = abs_of (U @ [])" using upper_path_of [OF m, of "[]"] by (simp add: of_comps_def)
  have l: "os_lstat s (abs_of U) \<in> range Inr"
    using is_dir_look [OF mounted_dir [OF m]] lstat_known [OF mounted_wf [OF m], of U] by auto
  then have one: "copy_up st '''' s = (Inr (), s)" by (auto simp: copy_up_def up)
  have "touch st U (U @ []) s t"
    by (rule touch_setattr [OF m _ _ _ up one run fh])
      (use mounted_valid [OF m] plain_link_free [OF mounted_plain [OF m]] plain_self [OF mounted_plain [OF m]] in simp_all)
  then show "kept st U s t" "only_at U s t" by (simp_all add: touch_def tame_kept)
qed

section \<open>Renaming\<close>

lemma rename_needs:
  assumes wf: "wf_os s" and v: "valid_path (p @ [c])" "valid_path (q @ [d])" and pl: "plain s p" "plain s q"
    and run: "os_rename (abs_of (p @ [c])) (abs_of (q @ [d])) s = (r, t)"
  shows "look t = look s \<or> is_dir_at s p \<and> is_dir_at s q \<and> p @ [c] \<noteq> q @ [d]"
  using run [unfolded os_rename_def]
proof (cases rule: faulty_cases)
  case (run fs)
  let ?s = "s\<lparr>os_faults := fs\<rparr>"
  have pl': "plain ?s p" "plain ?s q" using pl by (simp_all add: plain_def is_link_at_def)
  have walk: "walk_path ?s False (abs_of (k @ [x])) = Inr j \<Longrightarrow> j = k @ [x]"
    if "valid_path (k @ [x])" "plain ?s k" for k x j
    using walk_link_free [OF that(1), of ?s False j] that(2) by simp
  show ?thesis
  proof (cases "walk_path ?s False (abs_of (p @ [c])) \<in> range Inl \<or> walk_path ?s False (abs_of (q @ [d])) \<in> range Inl")
    case True
    then show ?thesis using run(1) by (auto split: sum.splits)
  next
    case False
    then have w: "walk_path ?s False (abs_of (p @ [c])) = Inr (p @ [c])" "walk_path ?s False (abs_of (q @ [d])) = Inr (q @ [d])"
      using walk [OF v(1) pl'(1)] walk [OF v(2) pl'(2)]
      by (cases "walk_path ?s False (abs_of (p @ [c]))"; cases "walk_path ?s False (abs_of (q @ [d]))"; auto)+
    have "wf_os ?s" "is_dir_at ?s (start_of ?s (abs_of (q @ [d])))" using wf by (simp_all add: start_of_def wf_root)
    from walk_end(1) [OF this w(2)] have "is_dir_at s q" using known_parent [OF wf, of q d] by auto
    moreover have "look t = look s" if "look s (p @ [c]) = None \<or> p @ [c] = q @ [d]"
      using run(1) w that by (auto simp: sys_rename_at_def split: option.splits)
    ultimately show ?thesis using known_parent [OF wf, of p c] by blast
  qed
qed simp

lemma kept_os_rename:
  assumes p: "place st U s cs" and q: "place st U s ds" and c: "valid_name c" "valid_name d"
    and run: "os_rename (abs_of ((U @ cs) @ [c])) (abs_of ((U @ ds) @ [d])) s = (r, t)"
  shows "kept st U s t" and "r = Inl e \<Longrightarrow> look t = look s"
proof -
  note m = place_mounted [OF p] and wf = place_wf [OF p]
  have wft: "wf_os t" by (rule keeps_wfD [OF keeps_wf_rename wf run]) simp_all
  have same: "look t = look s \<Longrightarrow> kept st U s t" using tame_kept [OF tame_host [OF m _ wft]] by blast
  have "look t = look s \<or> is_dir_at s (U @ cs) \<and> is_dir_at s (U @ ds) \<and> (U @ cs) @ [c] \<noteq> (U @ ds) @ [d]"
    by (rule rename_needs [OF wf _ _ place_plain [OF p] place_plain [OF q] run])
      (use place_full [OF p] place_full [OF q] c in simp_all)
  then have "kept st U s t \<and> (r = Inl e \<longrightarrow> look t = look s)"
  proof
    assume "is_dir_at s (U @ cs) \<and> is_dir_at s (U @ ds) \<and> (U @ cs) @ [c] \<noteq> (U @ ds) @ [d]"
    then have rn: "case r of
         Inl e \<Rightarrow> look t = look s
       | Inr _ \<Rightarrow> \<forall>k. look t k = (if prefix ((U @ ds) @ [d]) k then look s (((U @ cs) @ [c]) @ drop (length ((U @ ds) @ [d])) k)
           else if prefix ((U @ cs) @ [c]) k then None else look s k)"
      using rename_spec [OF wf _ c(1) _ c(2) _ run] by (cases r) auto
    show ?thesis
    proof (cases r)
      case (Inr u)
      have "\<not> prefix ((U @ es) @ [x]) k" if "\<not> prefix U k \<or> k = U" for es x k
        using that by (auto dest: append_prefixD prefix_length_le)
      then have l: "look t k = look s k" if "\<not> prefix U k \<or> k = U" for k using rn that Inr by simp
      then have "is_dir_at t U" using mounted_dir [OF m] by (simp add: is_dir_at_def)
      then have "kept st U s t" using l m wft by (auto simp: kept_def mounted_def outside_same_def)
      then show ?thesis using Inr by simp
    qed (use rn same in simp)
  qed (use same in blast)
  then show "kept st U s t" "r = Inl e \<Longrightarrow> look t = look s" by blast+
qed

text \<open>After a whiteout was cleared it is gone.\<close>

lemma clear_whiteout_gone:
  assumes p: "place st U s cs" and c: "valid_name c" and run: "clear_whiteout st (of_comps cs) c s = (Inr (), t)"
  shows "look t (U @ cs @ [wh c]) = None"
proof -
  let ?w = "U @ cs @ [wh c]"
  obtain r where rm: "os_remove (abs_of ?w) s = (r, t)" and r: "r = Inl ENOENT \<or> r = Inr ()"
    using run place_whiteout [OF p c] by (auto simp: clear_whiteout_def split: prod.splits sum.splits if_splits)
  show ?thesis
    using rm [unfolded os_remove_def]
  proof (cases rule: faulty_cases)
    case (run fs)
    let ?s = "s\<lparr>os_faults := fs\<rparr>"
    have v: "valid_path ?w" using place_full [OF p] valid_wh [OF c] by simp
    have "link_free ?s ?w" using place_link_free [OF p, of "wh c"] by (simp add: link_free_def is_link_at_def)
    then have w: "walk_path ?s False (abs_of ?w) = Inr k \<Longrightarrow> k = ?w" for k using walk_link_free [OF v] by blast
    have known: "look s ?w \<noteq> None \<Longrightarrow> walk_path ?s False (abs_of ?w) = Inr ?w"
      using walk_known_lstat [of ?s ?w] place_wf [OF p] by simp
    show ?thesis
    proof (cases "look s ?w")
      case None
      then have "t = ?s" using run(1) w by (auto simp: sys_remove_at_def split: sum.splits)
      then show ?thesis using None by simp
    next
      case (Some n)
      then show ?thesis using run(1) r known by (auto simp: sys_remove_at_def look_del_node split: if_splits)
    qed
  qed (use r in auto)
qed

lemma kept_tame: "kept st U s t \<Longrightarrow> place st U t cs \<Longrightarrow> tame st U t u \<Longrightarrow> kept st U s u \<and> place st U u cs"
  using kept_trans tame_kept place_tame by blast

lemma kept_rename_rest:
  assumes p: "place st U s cs" and q: "place st U s ds" and c: "valid_name c" "valid_name d"
    and nl: "\<not> is_link_at s (U @ cs @ [wh c])"
    and run: "rename_rest lib st (of_comps cs) c (of_comps ds) d sw s = (r, t)"
  shows "kept st U s t"
proof -
  obtain r3 s3 where three: "(if sw then make_whiteout st (of_comps cs) c s else (Inr (), s)) = (r3, s3)" by force
  have t3: "tame st U s s3"
    using three tame_make_whiteout [OF p c(1) nl] tame_refl [OF place_mounted [OF p]] by (cases sw) simp_all
  note p3 = place_tame [OF p t3] and q3 = place_tame [OF q t3]
  let ?dw = "has_whiteout st s3 (of_comps ds) d"
  obtain r4 s4 where four: "(if ?dw then clear_whiteout st (of_comps ds) d s3 else (Inr (), s3)) = (r4, s4)" by force
  have t4: "tame st U s3 s4"
    using four tame_clear_whiteout [OF q3 c(2)] tame_refl [OF place_mounted [OF q3]] by (cases ?dw) simp_all
  note k4 = tame_kept [OF tame_trans [OF t3 t4]] and p4 = place_tame [OF p3 t4] and q4 = place_tame [OF q3 t4]
  have undo: "kept st U s (if sw then snd (clear_whiteout st (of_comps cs) c u) else u) \<and>
      tame st U u (if sw then snd (clear_whiteout st (of_comps cs) c u) else u)"
    if "kept st U s u" "place st U u cs" for u
    using that kept_tame [OF that tame_clear_whiteout [OF that(2) c(1)]] tame_clear_whiteout [OF that(2) c(1)]
      tame_refl [OF place_mounted [OF that(2)]] by (metis prod.collapse)
  show ?thesis
  proof (cases "r3 \<in> range Inl \<or> r4 \<in> range Inl")
    case True
    have "t = s3 \<or> t = (if sw then snd (clear_whiteout st (of_comps cs) c s4) else s4)"
    proof (cases r3)
      case (Inl e)
      then show ?thesis using run [unfolded rename_rest_def three] by simp
    next
      case (Inr u)
      then obtain e where "r4 = Inl e" using True by auto
      then show ?thesis using run [unfolded rename_rest_def three Inr Let_def prod.case sum.case four] by simp
    qed
    then show ?thesis using tame_kept [OF t3] k4 undo [OF k4 p4] by blast
  next
    case False
    then have r34: "r3 = Inr ()" "r4 = Inr ()" by (cases r3; cases r4; auto)+
    obtain r5 s5 where five: "os_rename (abs_of ((U @ cs) @ [c])) (abs_of ((U @ ds) @ [d])) s4 = (r5, s5)" by force
    note rn = kept_os_rename [OF p4 q4 c five]
    have k5: "kept st U s s5" by (rule kept_trans [OF k4 rn(1)])
    define s6 where "s6 = (if sw then snd (clear_whiteout st (of_comps cs) c s5) else s5)"
    have rest: "case r5 of Inl _ \<Rightarrow> t = (if ?dw then snd (make_whiteout st (of_comps ds) d s6) else s6) | Inr _ \<Rightarrow> t = s5"
      using run [unfolded rename_rest_def Let_def place_name [OF p c(1)] place_name [OF q c(2)] three]
        four five r34 unfolding s6_def by (auto split: sum.splits)
    show ?thesis
    proof (cases r5)
      case (Inl e)
      then have "look s5 = look s4" using rn(2) by simp
      then have t5: "tame st U s4 s5"
        by (rule tame_host [OF place_mounted [OF p4]]) (use k5 in \<open>simp add: kept_def mounted_def\<close>)
      have t6: "kept st U s s6" "tame st U s4 s6"
        using undo [OF k5 place_tame [OF p4 t5]] tame_trans [OF t5] by (simp_all only: s6_def)
      have "kept st U s (snd (make_whiteout st (of_comps ds) d s6))" if dw: ?dw
      proof -
        have "look s4 (U @ ds @ [wh d]) = None"
          using clear_whiteout_gone [OF q3 c(2), of s4] four r34 dw by simp
        then have "\<not> is_link_at s6 (U @ ds @ [wh d])"
          using tame_link [OF t6(2)] by (simp add: is_link_at_def)
        then have "tame st U s6 (snd (make_whiteout st (of_comps ds) d s6))"
          using tame_make_whiteout [OF place_tame [OF q4 t6(2)] c(2)] by (metis prod.collapse)
        then show ?thesis using kept_trans [OF t6(1) tame_kept] by blast
      qed
      then show ?thesis using rest Inl t6(1) by auto
    qed (use rest k5 in simp)
  qed
qed

lemma kept_rename:
  assumes p: "place st U s cs" and q: "place st U s ds" and apart: "\<not> prefix (cs @ [c]) ds"
    and run: "fuse_rename lib st (of_comps cs) c other (of_comps ds) d flags s = (r, t)"
  shows "kept st U s t"
proof (cases "t = s")
  case True
  then show ?thesis using kept_refl [OF place_mounted [OF p]] by simp
next
  case False
  let ?src = "join_path (of_comps cs) c"
  have c: "valid_name c" "valid_name d" and ex: "exists_pi (stat st s ?src)"
    using run False by (auto simp: fuse_rename_rest split: if_splits)
  have src: "?src = of_comps (cs @ [c])" using place_valid [OF p] c by (simp add: join_path_of_comps)
  have nw: "\<not> is_link_at s (U @ cs @ [wh c])"
    using ex stat_join [OF place_mounted [OF p] place_valid [OF p] c(1) place_plain [OF p]]
    by (simp add: entry_none_iff is_link_at_def)
  obtain r1 s1 where one: "copy_up st ?src s = (r1, s1)" by force
  note one' = one [unfolded src]
  have k1: "kept st U s s1" by (rule kept_copy_up(1) [OF p c(1) one'])
  have p1: "place st U s1 cs" by (rule place_copied_up [OF p p c(1) one']) (auto dest: prefix_length_le)
  have q1: "place st U s1 ds" by (rule place_copied_up [OF p q c(1) one' apart])
  have nw1: "\<not> is_link_at s1 (U @ cs @ [wh c])"
    using kept_copy_up(2) [OF p c(1) one', of "U @ cs @ [wh c]"] nw by auto
  obtain r2 s2 where two: "os_mkdir_all (upper_path st (of_comps ds)) 0x1ED s1 = (r2, s2)" by force
  have t2: "tame st U s1 s2" by (rule tame_mkdir_all [OF q1 two])
  have k2: "kept st U s s2" by (rule kept_trans [OF k1 tame_kept [OF t2]])
  have rest: "t = s1 \<or> t = s2 \<or>
      rename_rest lib st (of_comps cs) c (of_comps ds) d (pi_lower (stat st s ?src) \<noteq> None) s2 = (r, t)"
    using run False one two by (auto simp: fuse_rename_rest split: if_splits sum.splits)
  have "kept st U s2 t" if "rename_rest lib st (of_comps cs) c (of_comps ds) d sw s2 = (r, t)" for sw
    by (rule kept_rename_rest [OF place_tame [OF p1 t2] place_tame [OF q1 t2] c tame_link [OF t2 nw1] that])
  then show ?thesis using rest k1 k2 kept_trans [OF k2] by blast
qed

end
