(* ===== verification/LayerMerge.thy ===== *)
theory LayerMerge
  imports ReadAt
begin

text \<open>
  Stacking committed states (tree.go): \<open>parseLayerSel\<close>, the resolution of a layer through the fvs2
  repository package, and \<open>buildMergedTreeFromRepos\<close> with its whiteouts. The package is a
  parameter, the record \<open>repo_pkg\<close>: what it answers while a layer is resolved.

  \<open>merged\<close> is the abstract specification: the entry each path has after the layers, lowest
  first.
\<close>

section \<open>Layer selectors\<close>

record layer_sel =
  ls_repo :: string
  ls_state :: string
  ls_branch :: string

definition parse_layer_sel :: "string \<Rightarrow> layer_sel" where
  "parse_layer_sel s =
     (case last_index (CHR ''@'') s of
        Some i \<Rightarrow> \<lparr>ls_repo = take i s, ls_state = drop (Suc i) s, ls_branch = ''''\<rparr>
      | None \<Rightarrow>
          (case last_index (CHR ''#'') s of
             Some i \<Rightarrow> \<lparr>ls_repo = take i s, ls_state = '''', ls_branch = drop (Suc i) s\<rparr>
           | None \<Rightarrow> \<lparr>ls_repo = s, ls_state = '''', ls_branch = ''''\<rparr>))"

section \<open>Resolving a layer\<close>

record state_detail =
  sd_id :: string
  sd_created_at :: int
  sd_message :: string
  sd_file_count :: nat
  sd_block_size :: int

record repo_pkg =
  rp_resolve_commit :: "string \<Rightarrow> string \<Rightarrow> string \<Rightarrow> gerror + string"
  rp_describe_state :: "string \<Rightarrow> string \<Rightarrow> gerror + state_detail"
  rp_state_files :: "string \<Rightarrow> string \<Rightarrow> gerror + file_entry list"
  rp_block_store_path :: "string \<Rightarrow> gerror + string"
  rp_disk_store :: "string \<Rightarrow> gerror + store"

record resolved_commit =
  rc_repo :: string
  rc_state_id :: string
  rc_blocks :: string
  rc_block_size :: int
  rc_files :: "file_entry list"

definition resolve_layer_state :: "repo_pkg \<Rightarrow> layer_sel \<Rightarrow> gerror + string" where
  "resolve_layer_state pkg sel =
     (case rp_resolve_commit pkg (ls_repo sel) (ls_state sel) (ls_branch sel) of
        Inl e \<Rightarrow> Inl e
      | Inr i \<Rightarrow>
          if i = '''' then Inl (Msg ''no commit to mount (empty branch or no states)'') else Inr i)"

definition load_resolved_layer :: "repo_pkg \<Rightarrow> string \<Rightarrow> string \<Rightarrow> gerror + resolved_commit" where
  "load_resolved_layer pkg repository i =
     (case rp_describe_state pkg repository i of
        Inl e \<Rightarrow> Inl e
      | Inr detail \<Rightarrow>
          (case rp_state_files pkg repository i of
             Inl e \<Rightarrow> Inl e
           | Inr files \<Rightarrow>
               (case rp_block_store_path pkg repository of
                  Inl e \<Rightarrow> Inl e
                | Inr blocks \<Rightarrow>
                    Inr \<lparr>rc_repo = repository, rc_state_id = i, rc_blocks = blocks,
                      rc_block_size = sd_block_size detail, rc_files = files\<rparr>)))"

definition resolve_layer :: "repo_pkg \<Rightarrow> layer_sel \<Rightarrow> gerror + resolved_commit" where
  "resolve_layer pkg sel =
     (case resolve_layer_state pkg sel of
        Inl e \<Rightarrow> Inl e
      | Inr i \<Rightarrow> load_resolved_layer pkg (ls_repo sel) i)"

definition build_tree_from_repo ::
    "repo_pkg \<Rightarrow> string \<Rightarrow> string \<Rightarrow> string \<Rightarrow> string \<Rightarrow> gerror + fs_tree" where
  "build_tree_from_repo pkg repo state_prefix branch blocks_override =
     (case resolve_layer pkg \<lparr>ls_repo = repo, ls_state = state_prefix, ls_branch = branch\<rparr> of
        Inl e \<Rightarrow> Inl e
      | Inr rc \<Rightarrow>
          (case rp_disk_store pkg
              (if blocks_override = '''' then rc_blocks rc else blocks_override) of
             Inl e \<Rightarrow> Inl e
           | Inr st \<Rightarrow>
               Inr (build_tree st (if rc_block_size rc \<le> 0 then 4096 else rc_block_size rc)
                 (rc_files rc))))"

section \<open>Merging layers\<close>

text \<open>The variables \<open>order\<close> and \<open>files\<close> and the closures \<open>add\<close> and \<open>del\<close> over them.\<close>

record merge_state =
  ms_order :: "string list"
  ms_files :: "(string \<times> file_entry) list"

definition merge_add :: "string \<Rightarrow> file_entry \<Rightarrow> merge_state \<Rightarrow> merge_state" where
  "merge_add p f ms =
     \<lparr>ms_order = (if map_of (ms_files ms) p = None then ms_order ms @ [p] else ms_order ms),
      ms_files = AList.update p f (ms_files ms)\<rparr>"

definition doomed :: "string \<Rightarrow> bool \<Rightarrow> string \<Rightarrow> bool" where
  "doomed p children q \<longleftrightarrow> q = p \<or> children \<and> prefix (p @ sep) q"

definition merge_del :: "string \<Rightarrow> bool \<Rightarrow> merge_state \<Rightarrow> merge_state" where
  "merge_del p children ms =
     \<lparr>ms_order = filter (\<lambda>q. \<not> doomed p children q) (ms_order ms),
      ms_files = fold (\<lambda>q. if doomed p children q then AList.delete q else id)
        (ms_order ms) (ms_files ms)\<rparr>"

definition opaque_name :: string where
  "opaque_name = ''.wh..wh..opq''"

text \<open>One round of the loop that applies a layer's whiteouts.\<close>

definition apply_whiteout :: "file_entry \<Rightarrow> merge_state \<Rightarrow> merge_state" where
  "apply_whiteout f ms =
     (let clean = clean_path f; base = path_base clean in
      if clean = '''' \<or> \<not> prefix whiteout_prefix base then ms
      else
        (let dir = trim_char slash (path_dir clean) in
         if base = opaque_name then
           (let pre = (if dir \<noteq> '''' then dir @ sep else dir) in
            fold (\<lambda>existing. if prefix pre existing \<and> existing \<noteq> dir
                then merge_del existing True else id) (ms_order ms) ms)
         else
           merge_del
             (trim_char slash (path_join [dir, trim_prefix whiteout_prefix base])) True ms))"

text \<open>One round of the loop that adds a layer's entries.\<close>

definition add_layer_entry :: "file_entry \<Rightarrow> merge_state \<Rightarrow> merge_state" where
  "add_layer_entry f ms =
     (let clean = clean_path f in
      if clean = '''' \<or> prefix whiteout_prefix (path_base clean) then ms
      else merge_add clean f ms)"

definition merge_layer :: "file_entry list \<Rightarrow> merge_state \<Rightarrow> merge_state" where
  "merge_layer files ms = fold add_layer_entry files (fold apply_whiteout files ms)"

fun merge_layers ::
    "repo_pkg \<Rightarrow> string \<Rightarrow> resolved_commit list \<Rightarrow> merge_state \<Rightarrow> store list \<Rightarrow> int \<Rightarrow>
     gerror + merge_state \<times> store list \<times> int" where
  "merge_layers pkg blocks_override [] ms stores block_size = Inr (ms, stores, block_size)"
| "merge_layers pkg blocks_override (rc # rcs) ms stores block_size =
     (case rp_disk_store pkg (if blocks_override = '''' then rc_blocks rc else blocks_override) of
        Inl e \<Rightarrow> Inl e
      | Inr st \<Rightarrow>
          merge_layers pkg blocks_override rcs (merge_layer (rc_files rc) ms) (stores @ [st])
            (if rc_block_size rc > 0 then rc_block_size rc else block_size))"

definition empty_merge :: merge_state where
  "empty_merge = \<lparr>ms_order = [], ms_files = []\<rparr>"

definition merged_entries :: "merge_state \<Rightarrow> file_entry list" where
  "merged_entries ms = map (\<lambda>p. the (map_of (ms_files ms) p)) (ms_order ms)"

definition build_merged_tree ::
    "repo_pkg \<Rightarrow> resolved_commit list \<Rightarrow> string \<Rightarrow> gerror + fs_tree" where
  "build_merged_tree pkg layers blocks_override =
     (if layers = [] then Inl (Msg ''no layers to mount'')
      else
        (case merge_layers pkg blocks_override layers empty_merge [] 0 of
           Inl e \<Rightarrow> Inl e
         | Inr (ms, stores, block_size) \<Rightarrow>
             Inr (build_tree (multi_store stores)
               (if block_size \<le> 0 then 4096 else block_size) (merged_entries ms))))"

section \<open>The layered view\<close>

text \<open>What a layer hides below it, what it has itself, and the entries after all layers.\<close>

definition hides :: "file_entry \<Rightarrow> string \<Rightarrow> bool" where
  "hides f p \<longleftrightarrow>
     (let clean = clean_path f; base = path_base clean; dir = trim_char slash (path_dir clean) in
      clean \<noteq> '''' \<and> prefix whiteout_prefix base \<and>
      (if base = opaque_name then prefix (if dir = '''' then '''' else dir @ sep) p \<and> p \<noteq> dir
       else doomed (trim_char slash (path_join [dir, trim_prefix whiteout_prefix base])) True p))"

definition entry_here :: "string \<Rightarrow> file_entry \<Rightarrow> bool" where
  "entry_here p f \<longleftrightarrow>
     clean_path f = p \<and> p \<noteq> '''' \<and> \<not> prefix whiteout_prefix (path_base p)"

fun last_entry :: "file_entry list \<Rightarrow> string \<Rightarrow> file_entry option" where
  "last_entry [] p = None"
| "last_entry (f # fs) p =
     (case last_entry fs p of
        Some g \<Rightarrow> Some g
      | None \<Rightarrow> if entry_here p f then Some f else None)"

fun merged :: "file_entry list list \<Rightarrow> string \<Rightarrow> file_entry option" where
  "merged [] p = None"
| "merged (fs # below) p =
     (case last_entry fs p of
        Some f \<Rightarrow> Some f
      | None \<Rightarrow> if \<exists>f \<in> set fs. hides f p then None else merged below p)"

section \<open>The merge implements the layered view\<close>

definition ok_merge :: "merge_state \<Rightarrow> bool" where
  "ok_merge ms \<longleftrightarrow>
     distinct (ms_order ms) \<and> distinct (map fst (ms_files ms)) \<and>
     set (ms_order ms) = dom (map_of (ms_files ms))"

lemma merge_add_lookup: "map_of (ms_files (merge_add p f ms)) = (map_of (ms_files ms))(p \<mapsto> f)"
  by (simp add: merge_add_def alist.lookup_insert)

lemma merge_add_ok: "ok_merge ms \<Longrightarrow> ok_merge (merge_add p f ms)"
  by (auto simp: ok_merge_def merge_add_def alist.lookup_insert alist.ok_insert)

lemma fold_delete_lookup:
  "map_of (fold (\<lambda>q. if P q then AList.delete q else id) qs m) x =
     (if x \<in> set qs \<and> P x then None else map_of m x)"
  by (induction qs arbitrary: m) (auto simp: alist.lookup_remove)

lemma fold_delete_ok:
  "distinct (map fst m) \<Longrightarrow>
     distinct (map fst (fold (\<lambda>q. if P q then AList.delete q else id) qs m))"
  by (induction qs arbitrary: m) (auto simp: alist.ok_remove)

lemma merge_del_lookup:
  "ok_merge ms \<Longrightarrow> map_of (ms_files (merge_del p children ms)) q =
     (if doomed p children q then None else map_of (ms_files ms) q)"
  by (cases "map_of (ms_files ms) q") (auto simp: merge_del_def fold_delete_lookup ok_merge_def)

lemma merge_del_ok:
  assumes ok: "ok_merge ms"
  shows "ok_merge (merge_del p children ms)"
proof -
  have "set (ms_order (merge_del p children ms)) = dom (map_of (ms_files (merge_del p children ms)))"
    unfolding dom_def merge_del_lookup [OF ok] using ok
    by (auto simp: ok_merge_def merge_del_def)
  then show ?thesis
    using ok by (simp add: ok_merge_def merge_del_def fold_delete_ok)
qed

lemma fold_del_lookup:
  "ok_merge ms \<Longrightarrow>
     ok_merge (fold (\<lambda>e. if C e then merge_del e True else id) es ms) \<and>
     map_of (ms_files (fold (\<lambda>e. if C e then merge_del e True else id) es ms)) p =
       (if \<exists>e \<in> set es. C e \<and> doomed e True p then None else map_of (ms_files ms) p)"
proof (induction es arbitrary: ms)
  case (Cons e es)
  show ?case
  proof (cases "C e")
    case True
    then show ?thesis
      using Cons.IH [OF merge_del_ok [OF Cons.prems, of e True]]
        merge_del_lookup [OF Cons.prems, of e True p] by auto
  next
    case False
    then show ?thesis using Cons.IH [OF Cons.prems] by simp
  qed
qed simp

lemma opaque_closed:
  assumes "prefix (if dir = '''' then '''' else dir @ sep) e" and "e \<noteq> dir" and "doomed e True p"
  shows "prefix (if dir = '''' then '''' else dir @ sep) p \<and> p \<noteq> dir"
proof (cases "p = e")
  case False
  then have "prefix (e @ sep) p" using assms(3) by (simp add: doomed_def)
  then have "prefix e p" by (rule append_prefixD)
  then have "prefix (if dir = '''' then '''' else dir @ sep) p"
    using assms(1) by (rule prefix_order.trans [rotated])
  moreover have "p \<noteq> dir"
  proof
    assume "p = dir"
    then have "prefix (e @ sep) dir" using \<open>prefix (e @ sep) p\<close> by simp
    moreover have "prefix dir e" using assms(1) by (auto split: if_splits dest: append_prefixD)
    ultimately show False
      using prefix_length_le [of "e @ sep" dir] prefix_length_le [of dir e] by (simp add: sep_def)
  qed
  ultimately show ?thesis by blast
qed (use assms in simp)

lemma apply_whiteout_lookup:
  assumes ok: "ok_merge ms"
  shows "ok_merge (apply_whiteout f ms) \<and>
    map_of (ms_files (apply_whiteout f ms)) p = (if hides f p then None else map_of (ms_files ms) p)"
proof -
  let ?dir = "trim_char slash (path_dir (clean_path f))"
  let ?pre = "if ?dir = '''' then '''' else ?dir @ sep"
  let ?C = "\<lambda>e. prefix ?pre e \<and> e \<noteq> ?dir"
  consider (none) "clean_path f = '''' \<or> \<not> prefix whiteout_prefix (path_base (clean_path f))"
    | (opaque) "clean_path f \<noteq> ''''" "path_base (clean_path f) = opaque_name"
    | (named) "clean_path f \<noteq> ''''" "prefix whiteout_prefix (path_base (clean_path f))"
        "path_base (clean_path f) \<noteq> opaque_name"
    by blast
  then show ?thesis
  proof cases
    case none
    then show ?thesis using ok by (auto simp: apply_whiteout_def hides_def Let_def)
  next
    case opaque
    have wh: "prefix whiteout_prefix opaque_name" by code_simp
    have "apply_whiteout f ms =
        fold (\<lambda>e. if ?C e then merge_del e True else id) (ms_order ms) ms"
      using opaque wh by (simp add: apply_whiteout_def Let_def if_distrib)
    moreover have "hides f p \<longleftrightarrow> ?C p" using opaque wh by (simp add: hides_def Let_def)
    moreover have "(\<exists>e \<in> set (ms_order ms). ?C e \<and> doomed e True p) \<Longrightarrow> ?C p"
      using opaque_closed [of ?dir _ p] by blast
    moreover have "p \<in> set (ms_order ms) \<Longrightarrow> ?C p \<Longrightarrow>
        \<exists>e \<in> set (ms_order ms). ?C e \<and> doomed e True p"
      by (auto simp: doomed_def)
    moreover have "p \<notin> set (ms_order ms) \<Longrightarrow> map_of (ms_files ms) p = None"
      using ok by (auto simp: ok_merge_def)
    ultimately show ?thesis
      using fold_del_lookup [OF ok, of ?C "ms_order ms" p] by (metis (no_types, lifting))
  next
    case named
    then show ?thesis
      using merge_del_ok [OF ok] merge_del_lookup [OF ok]
      by (simp add: apply_whiteout_def hides_def Let_def)
  qed
qed

lemma apply_whiteouts_lookup:
  "ok_merge ms \<Longrightarrow> ok_merge (fold apply_whiteout fs ms) \<and>
     map_of (ms_files (fold apply_whiteout fs ms)) p =
       (if \<exists>f \<in> set fs. hides f p then None else map_of (ms_files ms) p)"
proof (induction fs arbitrary: ms)
  case (Cons f fs)
  then show ?case
    using apply_whiteout_lookup [OF Cons.prems, of f p] Cons.IH [of "apply_whiteout f ms"] by auto
qed simp

lemma add_layer_entry_lookup:
  assumes "ok_merge ms"
  shows "ok_merge (add_layer_entry f ms) \<and>
    map_of (ms_files (add_layer_entry f ms)) p =
      (if entry_here p f then Some f else map_of (ms_files ms) p)"
  using merge_add_ok [OF assms] assms
  by (auto simp: add_layer_entry_def Let_def merge_add_lookup entry_here_def)

lemma add_layer_entries_lookup:
  "ok_merge ms \<Longrightarrow> ok_merge (fold add_layer_entry fs ms) \<and>
     map_of (ms_files (fold add_layer_entry fs ms)) p =
       (case last_entry fs p of Some f \<Rightarrow> Some f | None \<Rightarrow> map_of (ms_files ms) p)"
proof (induction fs arbitrary: ms)
  case (Cons f fs)
  then show ?case
    using add_layer_entry_lookup [OF Cons.prems, of f p] Cons.IH [of "add_layer_entry f ms"]
    by (auto split: option.splits)
qed simp

lemma merge_fold:
  "ok_merge (fold merge_layer ls empty_merge) \<and>
     map_of (ms_files (fold merge_layer ls empty_merge)) p = merged (rev ls) p"
proof (induction ls rule: rev_induct)
  case Nil
  show ?case by (simp add: empty_merge_def ok_merge_def)
next
  case (snoc fs ls)
  let ?ms = "fold merge_layer ls empty_merge"
  have ok: "ok_merge ?ms" using snoc by simp
  have "fold merge_layer (ls @ [fs]) empty_merge =
      fold add_layer_entry fs (fold apply_whiteout fs ?ms)" by (simp add: merge_layer_def [of fs])
  then show ?case
    using apply_whiteouts_lookup [OF ok, of fs p] snoc
      add_layer_entries_lookup [of "fold apply_whiteout fs ?ms" fs p]
    by (simp split: option.splits)
qed

lemma merge_layers_fold:
  "merge_layers pkg bo rcs ms ss bs = Inr (ms', ss', bs') \<Longrightarrow>
     ms' = fold merge_layer (map rc_files rcs) ms"
  by (induction rcs arbitrary: ms ss bs) (auto split: sum.splits)

section \<open>Trees of entries that do not collide\<close>

definition entry_view :: "file_entry \<Rightarrow> ventry" where
  "entry_view f =
     (if fe_kind f = ''dir'' then VDir (if fe_mode f = 0 then 0x1ED else fe_mode f) else VLeaf f)"

text \<open>No file or link of the list lies above another entry.\<close>

definition no_leaf_above :: "file_entry list \<Rightarrow> bool" where
  "no_leaf_above fs \<longleftrightarrow>
     (\<forall>f \<in> set fs. \<forall>g \<in> set fs. fe_kind f \<noteq> ''dir'' \<longrightarrow>
        \<not> strict_prefix (entry_parts f) (entry_parts g))"

lemma entry_parts_ne: "entry_parts f = [] \<longleftrightarrow> clean_path f = ''''"
  by (simp add: entry_parts_def comps_def)

lemma entry_parts_eq: "entry_parts f = entry_parts g \<longleftrightarrow> clean_path f = clean_path g"
  by (simp add: entry_parts_def)

lemma view_add_self: "clean_path f \<noteq> '''' \<Longrightarrow> view_add f v (entry_parts f) = Some (entry_view f)"
  by (simp add: view_add_def entry_view_def entry_parts_ne Let_def strict_prefix_def)

lemma view_add_other:
  assumes "v (entry_parts g) = Some (entry_view g)" and "entry_parts g \<noteq> entry_parts f"
    and "strict_prefix (entry_parts g) (entry_parts f) \<Longrightarrow> fe_kind g = ''dir''"
    and "strict_prefix (entry_parts f) (entry_parts g) \<Longrightarrow> fe_kind f = ''dir''"
  shows "view_add f v (entry_parts g) = Some (entry_view g)"
  using assms by (auto simp: view_add_def Let_def entry_view_def)

lemma view_of_snoc: "view_of (fs @ [f]) = view_add f (view_of fs)"
  by (simp add: view_of_def)

lemma view_of_entries:
  "distinct (map clean_path fs) \<Longrightarrow> '''' \<notin> clean_path ` set fs \<Longrightarrow> no_leaf_above fs \<Longrightarrow>
     f \<in> set fs \<Longrightarrow> view_of fs (entry_parts f) = Some (entry_view f)"
proof (induction fs rule: rev_induct)
  case (snoc g fs)
  show ?case
  proof (cases "f = g")
    case True
    then have "clean_path g \<noteq> ''''" using snoc.prems(2) by auto
    then show ?thesis using True by (simp add: view_of_snoc view_add_self)
  next
    case False
    then have f: "f \<in> set fs" using snoc.prems(4) by simp
    have "no_leaf_above fs" using snoc.prems(3) by (simp add: no_leaf_above_def)
    then have "view_of fs (entry_parts f) = Some (entry_view f)"
      using snoc.IH snoc.prems f by simp
    moreover have "entry_parts f \<noteq> entry_parts g"
    proof -
      have "clean_path f \<in> clean_path ` set fs" "clean_path g \<notin> clean_path ` set fs"
        using f snoc.prems(1) by simp_all
      then show ?thesis by (metis entry_parts_eq)
    qed
    moreover have "strict_prefix (entry_parts f) (entry_parts g) \<Longrightarrow> fe_kind f = ''dir''"
      "strict_prefix (entry_parts g) (entry_parts f) \<Longrightarrow> fe_kind g = ''dir''"
      using snoc.prems(3) f unfolding no_leaf_above_def by auto
    ultimately show ?thesis unfolding view_of_snoc by (rule view_add_other)
  qed
qed simp

lemma view_of_none:
  "q \<noteq> [] \<Longrightarrow> (\<And>f. f \<in> set fs \<Longrightarrow> \<not> prefix q (entry_parts f)) \<Longrightarrow> view_of fs q = None"
proof (induction fs rule: rev_induct)
  case Nil
  then show ?case by (simp add: view_of_def)
next
  case (snoc f fs)
  then have "view_of fs q = None" "\<not> prefix q (entry_parts f)" by auto
  then show ?case by (auto simp: view_of_snoc view_add_def Let_def strict_prefix_def)
qed

section \<open>Properties\<close>

definition layered :: "resolved_commit list \<Rightarrow> string \<Rightarrow> file_entry option" where
  "layered layers = merged (rev (map rc_files layers))"

lemma merge_layers_lookup:
  assumes "merge_layers pkg blocks_override layers empty_merge [] 0 = Inr (ms, stores, bs)"
  shows "map_of (ms_files ms) p = layered layers p \<and> distinct (ms_order ms) \<and>
    set (ms_order ms) = {p. layered layers p \<noteq> None}"
proof -
  have "ms = fold merge_layer (map rc_files layers) empty_merge"
    by (rule merge_layers_fold [OF assms])
  then have ok: "ok_merge ms" and l: "map_of (ms_files ms) = layered layers"
    using merge_fold [of "map rc_files layers"] by (auto simp: layered_def fun_eq_iff)
  then show ?thesis by (auto simp: ok_merge_def)
qed

text \<open>C5: merging the layers, lowest first, leaves for every path the entry of the layered view:
  the last entry of the highest layer that has the path, unless a layer above it that lacks the
  path hides it with a whiteout; and no path twice.\<close>

theorem merge_refines_layers:
  assumes "merge_layers pkg blocks_override layers empty_merge [] 0 = Inr (ms, stores, bs)"
  shows "map_of (ms_files ms) p = layered layers p \<and> distinct (ms_order ms) \<and>
    set (ms_order ms) = {p. layered layers p \<noteq> None}"
  using assms by (rule merge_layers_lookup)

text \<open>Two states of one package: a lower one with \<open>a\<close> and \<open>d/x\<close>, and one that deletes \<open>a\<close>.\<close>

definition demo_layer :: "string \<Rightarrow> file_entry list \<Rightarrow> resolved_commit" where
  "demo_layer i files =
     \<lparr>rc_repo = ''/r'', rc_state_id = i, rc_blocks = ''/r/b'', rc_block_size = 4, rc_files = files\<rparr>"

definition demo_pkg :: repo_pkg where
  "demo_pkg =
     \<lparr>rp_resolve_commit = (\<lambda>_ s _. Inr s),
      rp_describe_state = (\<lambda>_ s. Inr \<lparr>sd_id = s, sd_created_at = 0, sd_message = '''', sd_file_count = 0, sd_block_size = 4\<rparr>),
      rp_state_files = (\<lambda>_ _. Inr []),
      rp_block_store_path = (\<lambda>r. Inr (r @ ''/b'')),
      rp_disk_store = (\<lambda>_. Inr demo_store)\<rparr>"

definition demo_layers :: "resolved_commit list" where
  "demo_layers =
     [demo_layer ''s1'' [file_at ''a'', file_at ''d/x''],
      demo_layer ''s2'' [file_at ''.wh.a'', file_at ''d/y'']]"

theorem merge_refines_layers_witness:
  "case merge_layers demo_pkg '''' demo_layers empty_merge [] 0 of
     Inl _ \<Rightarrow> False
   | Inr (ms, _, _) \<Rightarrow> map_of (ms_files ms) ''a'' = None \<and>
       map_of (ms_files ms) ''d/x'' = Some (file_at ''d/x'')"
proof -
  have "\<exists>ms ss bs. merge_layers demo_pkg '''' demo_layers empty_merge [] 0 = Inr (ms, ss, bs)"
    by (simp add: demo_layers_def demo_pkg_def)
  then obtain ms ss bs where m:
    "merge_layers demo_pkg '''' demo_layers empty_merge [] 0 = Inr (ms, ss, bs)" by blast
  have "layered demo_layers ''a'' = None" "layered demo_layers ''d/x'' = Some (file_at ''d/x'')"
    by code_simp+
  with merge_refines_layers [OF m, of "''a''"] merge_refines_layers [OF m, of "''d/x''"] m
  show ?thesis by simp
qed

lemma entry_here_clean: "last_entry fs p = Some f \<Longrightarrow> clean_path f = p \<and> p \<noteq> ''''"
  by (induction fs) (auto simp: entry_here_def split: option.splits if_splits)

lemma merged_clean: "merged ls p = Some f \<Longrightarrow> clean_path f = p \<and> p \<noteq> ''''"
  by (induction ls) (auto split: option.splits if_splits dest: entry_here_clean)

lemma merged_list:
  assumes m: "merge_layers pkg blocks_override layers empty_merge [] 0 = Inr (ms, stores, bs)"
  shows merged_elem: "g \<in> set (merged_entries ms) \<longleftrightarrow> layered layers (clean_path g) = Some g"
    and merged_distinct: "distinct (map clean_path (merged_entries ms))"
    and merged_named: "'''' \<notin> clean_path ` set (merged_entries ms)"
proof -
  note r = merge_layers_lookup [OF m]
  have entry: "layered layers q = Some g \<Longrightarrow> clean_path g = q \<and> q \<noteq> ''''" for q g
    unfolding layered_def by (rule merged_clean)
  have at: "\<exists>g. layered layers q = Some g \<and> the (map_of (ms_files ms) q) = g"
    if "q \<in> set (ms_order ms)" for q
    using r that by auto
  have clean: "map clean_path (merged_entries ms) = ms_order ms"
    unfolding merged_entries_def map_map by (rule map_idI) (use at entry in fastforce)
  show "distinct (map clean_path (merged_entries ms))" using clean r by metis
  have elem: "g \<in> set (merged_entries ms) \<longleftrightarrow> layered layers (clean_path g) = Some g" for g
  proof
    assume "g \<in> set (merged_entries ms)"
    then show "layered layers (clean_path g) = Some g"
      using at entry by (fastforce simp: merged_entries_def)
  next
    assume g: "layered layers (clean_path g) = Some g"
    then have "clean_path g \<in> set (ms_order ms)" using r by blast
    moreover have "the (map_of (ms_files ms) (clean_path g)) = g"
      using g r [of "clean_path g"] by (metis option.sel)
    ultimately show "g \<in> set (merged_entries ms)" by (force simp: merged_entries_def)
  qed
  then show "g \<in> set (merged_entries ms) \<longleftrightarrow> layered layers (clean_path g) = Some g" .
  show "'''' \<notin> clean_path ` set (merged_entries ms)" using elem entry by fastforce
qed

text \<open>No file or link that is left after the layers lies above another entry.\<close>

definition apart :: "resolved_commit list \<Rightarrow> bool" where
  "apart layers \<longleftrightarrow>
     (\<forall>p q f. layered layers p = Some f \<longrightarrow> fe_kind f \<noteq> ''dir'' \<longrightarrow> layered layers q \<noteq> None \<longrightarrow>
        \<not> strict_prefix (comps p) (comps q))"

lemma merged_lookup:
  assumes t: "build_merged_tree pkg layers blocks_override = Inr t" and apart: "apart layers"
  shows "layered layers p = Some f \<Longrightarrow>
      map_option erase (lookup_tree_path t p) = Some (view_node (comps p) (entry_view f))"
    and "p \<noteq> '''' \<Longrightarrow> (\<And>q. layered layers q \<noteq> None \<Longrightarrow> \<not> prefix (comps p) (comps q)) \<Longrightarrow>
      lookup_tree_path t p = None"
proof -
  obtain ms stores bs where m: "merge_layers pkg blocks_override layers empty_merge [] 0 =
      Inr (ms, stores, bs)"
    and tree: "\<And>bs'. bs' = (if bs \<le> 0 then 4096 else bs) \<Longrightarrow>
      t = build_tree (multi_store stores) bs' (merged_entries ms)"
    using t by (auto simp: build_merged_tree_def split: if_splits sum.splits prod.splits)
  note elem = merged_elem [OF m]
  have nla: "no_leaf_above (merged_entries ms)"
    unfolding no_leaf_above_def entry_parts_def using apart [unfolded apart_def] elem
    by (metis option.distinct(1))
  have tree: "map_option erase (lookup_tree_path t p) =
      map_option (view_node (comps p)) (view_of (merged_entries ms) (comps p))"
    using lookup_build_tree_comps [of _ _ "merged_entries ms" p] tree [OF refl] by simp
  show "map_option erase (lookup_tree_path t p) = Some (view_node (comps p) (entry_view f))"
    if f: "layered layers p = Some f"
  proof -
    have c: "clean_path f = p" using f merged_clean unfolding layered_def by blast
    then have "view_of (merged_entries ms) (entry_parts f) = Some (entry_view f)"
      using elem f by (intro view_of_entries [OF merged_distinct [OF m] merged_named [OF m] nla]) simp
    then show ?thesis using tree c by (simp add: entry_parts_def)
  qed
  show "lookup_tree_path t p = None"
    if "p \<noteq> ''''" and none: "\<And>q. layered layers q \<noteq> None \<Longrightarrow> \<not> prefix (comps p) (comps q)"
  proof -
    have "view_of (merged_entries ms) (comps p) = None"
      using elem none that(1) by (intro view_of_none) (auto simp: comps_def entry_parts_def)
    then show ?thesis using tree by simp
  qed
qed

text \<open>C20: as long as no file or link of the layered view lies above another entry (see
  \<open>leaf_loses_to_lower_layer\<close>), in the tree of the stacked layers every path has the node of its
  entry in that view, and a path with no entry at or below it has none.\<close>

theorem merged_tree_lookup:
  assumes "build_merged_tree pkg layers blocks_override = Inr t" and "apart layers"
  shows "(layered layers p = Some f \<longrightarrow>
      map_option erase (lookup_tree_path t p) = Some (view_node (comps p) (entry_view f))) \<and>
    (p \<noteq> '''' \<longrightarrow> (\<forall>q. layered layers q \<noteq> None \<longrightarrow> \<not> prefix (comps p) (comps q)) \<longrightarrow>
      lookup_tree_path t p = None)"
  using merged_lookup [OF assms] by blast

lemma demo_layered: "layered demo_layers p \<noteq> None \<Longrightarrow> p = ''d/x'' \<or> p = ''d/y''"
proof -
  assume p: "layered demo_layers p \<noteq> None"
  have "map_option (\<lambda>(ms, _, _). ms_order ms)
      (case merge_layers demo_pkg '''' demo_layers empty_merge [] 0 of Inr r \<Rightarrow> Some r | Inl _ \<Rightarrow> None) =
      Some [''d/x'', ''d/y'']"
    by code_simp
  then obtain ms ss bs where m:
    "merge_layers demo_pkg '''' demo_layers empty_merge [] 0 = Inr (ms, ss, bs)"
    "ms_order ms = [''d/x'', ''d/y'']"
    by (auto split: sum.splits)
  from merge_layers_lookup [OF m(1), of p] p m(2) show ?thesis by auto
qed

lemma demo_comps: "comps ''d/x'' = [''d'', ''x'']" "comps ''d/y'' = [''d'', ''y'']" "comps ''a'' = [''a'']"
  by code_simp+

lemma demo_apart: "apart demo_layers"
proof -
  have "\<not> strict_prefix (comps p) (comps q)"
    if "layered demo_layers p = Some f" "layered demo_layers q \<noteq> None" for p q f
    using demo_layered [of p] demo_layered [of q] that demo_comps by auto
  then show ?thesis unfolding apart_def by blast
qed

theorem merged_tree_lookup_witness:
  "case build_merged_tree demo_pkg demo_layers '''' of
     Inl _ \<Rightarrow> False
   | Inr t \<Rightarrow> lookup_tree_path t ''a'' = None \<and>
       map_option erase (lookup_tree_path t ''d/x'') =
         Some (view_node [''d'', ''x''] (VLeaf (file_at ''d/x'')))"
proof -
  obtain t where t: "build_merged_tree demo_pkg demo_layers '''' = Inr t"
    by (simp add: build_merged_tree_def demo_layers_def demo_pkg_def)
  have "layered demo_layers ''d/x'' = Some (file_at ''d/x'')"
    "entry_view (file_at ''d/x'') = VLeaf (file_at ''d/x'')" by code_simp+
  moreover have "\<not> prefix (comps ''a'') (comps q)" if "layered demo_layers q \<noteq> None" for q
    using demo_layered [OF that] demo_comps by auto
  ultimately show ?thesis
    using merged_tree_lookup [OF t demo_apart, where p = "''d/x''" and f = "file_at ''d/x''"]
      merged_tree_lookup [OF t demo_apart, where p = "''a''"] t demo_comps by simp
qed

text \<open>An opaque marker in the root of a layer hides nothing, since \<open>path.Dir\<close> of its name is a
  dot: the entries of the lower layers all stay. (In any other directory it hides what is below
  that directory.)\<close>

theorem root_opaque_hides_nothing:
  assumes "clean_path f = opaque_name" and "\<And>p. p \<in> set (ms_order ms) \<Longrightarrow> \<not> prefix ''./'' p"
  shows "apply_whiteout f ms = ms"
proof -
  have e: "path_base opaque_name = opaque_name" "trim_char slash (path_dir opaque_name) = ''.''"
    "prefix whiteout_prefix opaque_name" "opaque_name \<noteq> ''''" "''.'' @ sep = ''./''"
    by code_simp+
  have "fold (\<lambda>e. if prefix ''./'' e \<and> e \<noteq> ''.'' then merge_del e True else id) es ms = ms"
    if "set es \<subseteq> set (ms_order ms)" for es
    using that assms(2) by (induction es) auto
  then show ?thesis using assms(1) e by (simp add: apply_whiteout_def Let_def)
qed

theorem root_opaque_hides_nothing_witness:
  "apply_whiteout (file_at ''.wh..wh..opq'') (merge_add ''a'' (file_at ''a'') empty_merge) =
     merge_add ''a'' (file_at ''a'') empty_merge"
proof (rule root_opaque_hides_nothing)
  show "clean_path (file_at ''.wh..wh..opq'') = opaque_name" by code_simp
  show "\<not> prefix ''./'' p"
    if "p \<in> set (ms_order (merge_add ''a'' (file_at ''a'') empty_merge))" for p
    using that by (simp add: merge_add_def empty_merge_def)
qed

text \<open>A file of the top layer can lose to an older layer: when the path was already known and
  an entry below it came later, the tree has a directory there, although the layered view has
  the file of the top layer.\<close>

theorem leaf_loses_to_lower_layer:
  assumes "merged_entries ms = fs1 @ [f] @ fs2" and "fe_kind f \<noteq> ''dir''"
    and "entry_parts g = entry_parts f @ [c]" and "fs2 = [g]"
  shows "\<exists>n. lookup_tree_path (build_tree st bs (merged_entries ms)) (clean_path f) = Some n \<and>
    n_is_dir n"
proof -
  have "view_of (merged_entries ms) (entry_parts f) = view_dir (view_of (fs1 @ [f]) (entry_parts f))"
    using assms(3,4) unfolding assms(1)
    by (simp add: view_of_def view_add_def [of g] Let_def strict_prefix_def)
  then obtain m where "view_of (merged_entries ms) (comps (clean_path f)) = Some (VDir m)"
    using view_dir_dir by (metis entry_parts_def)
  then have "map_option erase (lookup_tree_path (build_tree st bs (merged_entries ms)) (clean_path f)) =
      Some (view_node (comps (clean_path f)) (VDir m))"
    by (simp only: lookup_build_tree_comps option.map)
  then obtain n where n: "lookup_tree_path (build_tree st bs (merged_entries ms)) (clean_path f) = Some n"
    "erase n = view_node (comps (clean_path f)) (VDir m)" by auto
  have "n_is_dir (erase n)" unfolding n(2) view_node_dir by blast
  then show ?thesis using n(1) by (simp add: erase_def)
qed

theorem leaf_loses_to_lower_layer_witness:
  "let layers = [demo_layer ''s1'' [file_at ''a''], demo_layer ''s2'' [file_at ''a/b''],
                 demo_layer ''s3'' [(file_at ''a'')\<lparr>fe_mode := 0\<rparr>]];
       ms = fold merge_layer (map rc_files layers) empty_merge in
   layered layers ''a'' = Some ((file_at ''a'')\<lparr>fe_mode := 0\<rparr>) \<and>
   (\<exists>n. lookup_tree_path (build_tree demo_store 4 (merged_entries ms)) ''a'' = Some n \<and> n_is_dir n)"
proof -
  let ?layers = "[demo_layer ''s1'' [file_at ''a''], demo_layer ''s2'' [file_at ''a/b''],
                 demo_layer ''s3'' [(file_at ''a'')\<lparr>fe_mode := 0\<rparr>]]"
  let ?ms = "fold merge_layer (map rc_files ?layers) empty_merge" and ?f = "(file_at ''a'')\<lparr>fe_mode := 0\<rparr>"
  have "merged_entries ?ms = [] @ [?f] @ [file_at ''a/b'']" "fe_kind ?f \<noteq> ''dir''"
    "entry_parts (file_at ''a/b'') = entry_parts ?f @ [''b'']" "clean_path ?f = ''a''"
    "layered ?layers ''a'' = Some ?f"
    by code_simp+
  with leaf_loses_to_lower_layer [of ?ms "[]" ?f "[file_at ''a/b'']" "file_at ''a/b''" "''b''" demo_store 4]
  show ?thesis unfolding Let_def by simp
qed

end
