(* ===== verification/OverlayProps.thy ===== *)
theory OverlayProps
  imports OverlayCopy LayerMerge
begin

text \<open>
  The properties of the mounted file system: what a listing shows, what removing, creating,
  copying up and renaming do to the merged view, and what they leave alone. Paths are named by
  their components; \<open>mounted st U s\<close> says that the upper directory of the mount is the directory
  \<open>U\<close> of the host \<open>s\<close>.
\<close>

section \<open>Listing a directory\<close>

lemma descend_zero_stays: "q \<noteq> [] \<Longrightarrow> descend ns i q = 0 \<Longrightarrow> descend ns i (q @ r) = 0"
proof (induction q arbitrary: i)
  case (Cons a q)
  then show ?case by (cases "q = []") (auto simp: Let_def split: if_splits)
qed simp

lemma descend_step: "descend ns i q \<noteq> 0 \<Longrightarrow> descend ns i (q @ [c]) = child ns (descend ns i q) c"
  by (induction q arbitrary: i) (auto simp: Let_def split: if_splits)

lemma node_at_path_snoc:
  assumes "node_at_path ns (q @ [c]) = Some m"
  shows "\<exists>n. node_at_path ns q = Some n \<and> n_is_dir n"
proof -
  have ne: "descend ns 1 (q @ [c]) \<noteq> 0"
    using assms by (auto simp: node_at_path_def Let_def split: if_splits)
  then have q: "descend ns 1 q \<noteq> 0" using descend_zero_stays [of q ns 1 "[c]"] by (cases "q = []") auto
  then have "child ns (descend ns 1 q) c \<noteq> 0" using descend_step [OF q, of c] ne by simp
  then show ?thesis using q by (auto simp: child_def node_at_path_def Let_def split: option.splits if_splits)
qed

lemma lower_node_path:
  "fs_lower st = Some t \<Longrightarrow> valid_path cs \<Longrightarrow> lower_node st (of_comps cs) = node_at_path (t_nodes t) cs"
  using lookup_tree_path_comps [of t "of_comps cs"]
  by (simp add: lower_node_def lookup_tree_path_def comps_of_comps)

lemma stat_lower: "exists_pi (stat st s p) \<Longrightarrow> pi_lower (stat st s p) = lower_node st p"
  by (auto simp: stat_def exists_pi_def split: sum.splits if_splits prod.splits)

lemma filter_concat: "concat (map (\<lambda>x. if P x then [f x] else []) xs) = map f (filter P xs)"
  by (induction xs) auto

context tree_view
begin

lemma dir_entries_spec:
  assumes lower: "fs_lower st = Some t" and m: "mounted st U s" and v: "valid_path cs"
    and w: "way s (U @ cs)" and i: "exists_pi (stat st s (of_comps cs))" "is_dir_pi (stat st s (of_comps cs))"
  shows "\<exists>names. sorted_wrt (<) names \<and>
    dir_entries lib st s (of_comps cs) = Inr (map (\<lambda>d.
      (let c = stat st s (join_path (of_comps cs) d) in (d, mode_of st c, sa_ino (stable_of c)))) names) \<and>
    (\<forall>d. valid_name d \<longrightarrow> (d \<in> set names \<longleftrightarrow>
      exists_pi (stat st s (of_comps (cs @ [d]))) \<and>
      (lower_node st (of_comps (cs @ [d])) \<noteq> None \<or> \<not> prefix whiteout_prefix d)))"
proof -
  let ?p = "of_comps cs"
  let ?low = "case lower_node st ?p of
      Some n \<Rightarrow> if n_is_dir n then filter (\<lambda>c. \<not> has_whiteout st s ?p c) (map fst (n_children n)) else []
    | None \<Rightarrow> []"
  let ?up = "if look s (U @ cs) = None then [] else entry_names s (U @ cs)"
  let ?all = "?low @ filter (\<lambda>d. \<not> prefix whiteout_prefix d) ?up"
  let ?ex = "\<lambda>d. exists_pi (stat st s (join_path ?p d))"
  let ?names = "filter ?ex (sort (remdups ?all))"
  have pl: "plain s (U @ cs)" by (rule way_plain [OF w])
  have vq: "valid_path (U @ cs)" using mounted_valid [OF m] v by simp
  have "dir_names lib st s ?p = Inr ?all"
    using readdir_way [OF mounted_wf [OF m] vq w] stat_lower [OF i(1)] mounted_writable [OF m]
      upper_path_of [OF m v]
    by (auto simp: dir_names_def split: option.splits)
  then have "dir_entries lib st s ?p = Inr (concat (map (\<lambda>d. if ?ex d
      then [(let c = stat st s (join_path ?p d) in (d, mode_of st c, sa_ino (stable_of c)))] else [])
      (sort (remdups ?all))))"
    using i by (simp add: dir_entries_def Let_def cong: if_cong)
  then have "dir_entries lib st s ?p = Inr (map (\<lambda>d.
      (let c = stat st s (join_path ?p d) in (d, mode_of st c, sa_ino (stable_of c)))) ?names)"
    by (simp only: filter_concat)
  moreover have "sorted_wrt (<) ?names"
    by (intro sorted_wrt_filter sort_strict distinct_remdups)
  moreover have "d \<in> set ?names \<longleftrightarrow> exists_pi (stat st s (of_comps (cs @ [d]))) \<and>
      (lower_node st (of_comps (cs @ [d])) \<noteq> None \<or> \<not> prefix whiteout_prefix d)"
    if d: "valid_name d" for d
  proof -
    have j: "join_path ?p d = of_comps (cs @ [d])" by (rule join_path_of_comps [OF v d])
    have vd: "valid_path (cs @ [d])" using v d by simp
    have st: "stat st s (of_comps (cs @ [d])) = entry st s U cs d" by (rule stat_entry [OF m v d pl])
    have low: "d \<in> set ?low \<longleftrightarrow>
        look s (U @ cs @ [wh d]) = None \<and> lower_node st (of_comps (cs @ [d])) \<noteq> None"
    proof (cases "\<exists>n. node_at_path (t_nodes t) cs = Some n \<and> n_is_dir n")
      case True
      then obtain n where n: "node_at_path (t_nodes t) cs = Some n" "n_is_dir n" by blast
      have "d \<in> set (map fst (n_children n)) \<longleftrightarrow> node_at_path (t_nodes t) (cs @ [d]) \<noteq> None"
        unfolding child_names [OF n] by simp
      then show ?thesis
        using n has_whiteout_iff [OF m v d pl]
        by (simp del: set_map add: lower_node_path [OF lower v] lower_node_path [OF lower vd] conj_commute)
    next
      case False
      then have "node_at_path (t_nodes t) (cs @ [d]) = None"
        using node_at_path_snoc [of "t_nodes t" cs d] by (cases "node_at_path (t_nodes t) (cs @ [d])") auto
      then show ?thesis
        using False by (auto simp: lower_node_path [OF lower v] lower_node_path [OF lower vd] split: option.splits)
    qed
    have up: "d \<in> set ?up \<longleftrightarrow> look s (U @ cs @ [d]) \<noteq> None"
      using set_entry_names [of d s "U @ cs"] is_dir_look [of s "U @ cs"]
        known_parent [OF mounted_wf [OF m], of "U @ cs" d]
      by auto
    have ex: "exists_pi (entry st s U cs d) \<longleftrightarrow> look s (U @ cs @ [wh d]) = None \<and>
        (look s (U @ cs @ [d]) \<noteq> None \<or> lower_node st (of_comps (cs @ [d])) \<noteq> None)"
      by (rule entry_none_iff)
    have "d \<in> set ?names \<longleftrightarrow> exists_pi (entry st s U cs d) \<and>
        (d \<in> set ?low \<or> (d \<in> set ?up \<and> \<not> prefix whiteout_prefix d))"
      unfolding j [symmetric] st [symmetric] by auto
    then show ?thesis unfolding low up st using ex by blast
  qed
  ultimately show ?thesis by blast
qed

end

section \<open>A mount to try the properties on\<close>

text \<open>The lower tree has \<open>d/f\<close>, \<open>d/g\<close> and an empty directory \<open>e\<close>; the upper directory is \<open>/u\<close>.\<close>

definition demo_tree :: fs_tree where
  "demo_tree = build_tree demo_store 4 [demo_file, file_at ''d/g'', dir_at ''e'' 0x1C0]"

definition demo_lib :: fuse_lib where
  "demo_lib =
     \<lparr>fl_errno = (\<lambda>e. case e of Errno n \<Rightarrow> n | _ \<Rightarrow> EIO),
      fl_from_stat = (\<lambda>n. \<lparr>at_ino = u_ino n, at_mode = stat_mode n, at_nlink = 1, at_uid = u_uid n,
        at_gid = u_gid n, at_size = 0, at_atime = 0, at_mtime = 0, at_ctime = 0\<rparr>),
      fl_fgetattr = (\<lambda>_ _. Inl EBADF), fl_fsetattr = (\<lambda>_ _ s. (Inl EBADF, s)),
      fl_fread = (\<lambda>_ _ _ _. Inl EBADF), fl_timespec = Inr\<rparr>"

definition demo_state :: fuse_state where
  "demo_state = \<lparr>fs_lower = Some demo_tree, fs_upper = ''/u'', fs_uid = 0, fs_gid = 0, fs_mtime = 0,
     fs_clear = False\<rparr>"

definition host_with :: "(path \<times> unode) list \<Rightarrow> os" where
  "host_with ns = \<lparr>os_nodes = ([], plain_dir) # ([''u''], plain_dir) # ns, os_cwd = [],
     os_umask = 0x12, os_next = 10, os_uid = 0, os_gid = 0, os_clock = 0, os_faults = []\<rparr>"

definition text_file :: unode where
  "text_file = plain_dir\<lparr>u_mode := 0x1A4, u_body := BReg ''new''\<rparr>"

text \<open>An upper directory with a copy of \<open>d/f\<close>, a file \<open>d/x\<close> and a whiteout of \<open>d/g\<close>.\<close>

definition demo_host :: os where
  "demo_host = host_with [([''u'', ''d''], plain_dir), ([''u'', ''d'', ''f''], text_file),
     ([''u'', ''d'', ''x''], text_file), ([''u'', ''d'', ''.wh.g''], text_file\<lparr>u_body := BReg []\<rparr>)]"

text \<open>The upper directory after a write to \<open>d/f\<close> alone.\<close>

definition demo_lower_dir :: os where
  "demo_lower_dir = host_with [([''u'', ''d''], plain_dir), ([''u'', ''d'', ''f''], text_file)]"

lemma mounted_list:
  assumes "wf_os s" and "fs_upper st = abs_of U" and "valid_path U" and "is_dir_at s U"
  shows "mounted st U s"
  using assms by (simp add: mounted_def)

lemma demo_mounted: "mounted demo_state [''u''] demo_host"
proof (rule mounted_list)
  show "wf_os demo_host" by (rule wf_osI_list) code_simp+
qed code_simp+

lemma fresh_mounted: "mounted demo_state [''u''] (host_with [])"
proof (rule mounted_list)
  show "wf_os (host_with [])" by (rule wf_osI_list) code_simp+
qed code_simp+

lemma demo_dirs: "is_dir_at demo_host [''u'', ''d'']" "is_dir_at demo_host [''u'']"
  "is_dir_at (host_with []) [''u'']"
  by code_simp+

lemma demo_quiet: "quiet demo_host" "quiet (host_with [])"
  by code_simp+

lemmas demo_plain =
  dir_plain [OF mounted_wf [OF demo_mounted] demo_dirs(1)]
  dir_plain [OF mounted_wf [OF demo_mounted] demo_dirs(2)]
  dir_plain [OF mounted_wf [OF fresh_mounted] demo_dirs(3)]

lemma demo_paths:
  "of_comps [''d''] = ''d''" "of_comps [''d'', ''g''] = ''d/g''" "of_comps [''d'', ''f''] = ''d/f''"
  "of_comps [''d'', ''x''] = ''d/x''" "of_comps [] = ''''" "of_comps [''e''] = ''e''"
  "valid_name ''d''" "valid_name ''f''" "valid_name ''g''" "valid_name ''x''" "valid_name ''e''"
  "valid_path [''d'']" "valid_path ([] :: string list)"
  "clean_names [''d'', ''f'']" "clean_names [''d'', ''g'']" "clean_names [''d'', ''x'']"
  "clean_names [''d'']" "clean_names [''e'']" "clean_names ([] :: string list)"
  by code_simp+

section \<open>Properties\<close>

text \<open>What a path of the mount is: nothing when its whiteout is in the upper directory, else
  the upper node together with the lower one below it.\<close>

theorem stat_precedence:
  assumes "mounted st U s" and "valid_path cs" and "valid_name c" and "plain s (U @ cs)"
  shows "stat st s (of_comps (cs @ [c])) =
    (if look s (U @ cs @ [whiteout_prefix @ c]) \<noteq> None then \<lparr>pi_lower = None, pi_upper = None\<rparr>
     else \<lparr>pi_lower = lower_node st (of_comps (cs @ [c])), pi_upper = look s (U @ cs @ [c])\<rparr>)"
  using stat_entry [OF assms] by (simp add: entry_def)

theorem stat_precedence_witness:
  "\<not> exists_pi (stat demo_state demo_host ''d/g'') \<and>
   pi_upper (stat demo_state demo_host ''d/f'') = Some text_file"
proof -
  have "look demo_host [''u'', ''d'', ''.wh.g''] \<noteq> None" "look demo_host [''u'', ''d'', ''.wh.f''] = None"
    "look demo_host [''u'', ''d'', ''f''] = Some text_file"
    by code_simp+
  then show ?thesis
    using stat_precedence [OF demo_mounted demo_paths(12,9)] stat_precedence [OF demo_mounted demo_paths(12,8)]
      demo_plain
    by (simp add: demo_paths exists_pi_def whiteout_prefix_def)
qed

text \<open>C4: a directory of the mount lists, in increasing order and once each, exactly the names
  below it that exist in the merged view, leaving out the names the daemon keeps for whiteouts
  (unless the lower tree itself has such a name), each with the mode and inode of its node.\<close>

theorem dir_entries_exact:
  assumes "fs_lower st = Some (build_tree store bs files)" and "mounted st U s" and "valid_path cs"
    and "way s (U @ cs)"
    and "exists_pi (stat st s (of_comps cs))" and "is_dir_pi (stat st s (of_comps cs))"
  shows "\<exists>names. sorted_wrt (<) names \<and>
    dir_entries lib st s (of_comps cs) = Inr (map (\<lambda>d.
      (let c = stat st s (join_path (of_comps cs) d) in (d, mode_of st c, sa_ino (stable_of c)))) names) \<and>
    (\<forall>d. valid_name d \<longrightarrow> (d \<in> set names \<longleftrightarrow>
      exists_pi (stat st s (of_comps (cs @ [d]))) \<and>
      (lower_node st (of_comps (cs @ [d])) \<noteq> None \<or> \<not> prefix whiteout_prefix d)))"
  by (rule built.dir_entries_spec [OF assms])

theorem dir_entries_exact_witness:
  "\<exists>es. dir_entries demo_lib demo_state demo_host ''d'' = Inr es \<and> map fst es = [''f'', ''x'']"
proof -
  have w: "way demo_host ([''u''] @ [''d''])"
    using dir_way [OF mounted_wf [OF demo_mounted] demo_dirs(1)] by simp
  have e: "exists_pi (stat demo_state demo_host (of_comps [''d'']))"
    "is_dir_pi (stat demo_state demo_host (of_comps [''d'']))" by code_simp+
  have "dir_entries demo_lib demo_state demo_host ''d'' =
      Inr [(''f'', 0x81A4, 1), (''x'', 0x81A4, 1)]" by code_simp
  then show ?thesis
    using dir_entries_exact [OF _ demo_mounted demo_paths(12) w e, unfolded demo_state_def demo_tree_def]
    by auto
qed

text \<open>C11: a successful unlink or rmdir hides the name, and every other path that is not above it
  is seen exactly as before.\<close>

theorem remove_hides:
  assumes "mounted st U s" and "valid_path cs" and "valid_name c" and "plain s (U @ cs)"
    and "fuse_remove lib st (of_comps cs) c dir s = (Inr (), s')" and "clean_names (cs @ [c])"
  shows "\<not> exists_pi (stat st s' (of_comps (cs @ [c]))) \<and>
    (\<forall>ds d. valid_path ds \<and> valid_name d \<and> plain s (U @ ds) \<and> clean_names (ds @ [d]) \<and>
       ds @ [d] \<noteq> cs @ [c] \<and> \<not> prefix (ds @ [d]) cs \<longrightarrow>
       stat st s' (of_comps (ds @ [d])) = stat st s (of_comps (ds @ [d])))"
  using remove_hides_lemma [OF assms] by blast

theorem remove_hides_witness:
  "\<not> exists_pi (stat demo_state (snd (fuse_remove demo_lib demo_state ''d'' ''f'' False demo_host)) ''d/f'')"
proof -
  have "fst (fuse_remove demo_lib demo_state ''d'' ''f'' False demo_host) = Inr ()" by code_simp
  then obtain s' where run: "fuse_remove demo_lib demo_state (of_comps [''d'']) ''f'' False demo_host = (Inr (), s')"
    by (cases "fuse_remove demo_lib demo_state ''d'' ''f'' False demo_host") (simp add: demo_paths)
  have "plain demo_host ([''u''] @ [''d''])" using demo_plain(1) by simp
  from remove_hides [OF demo_mounted demo_paths(12,8) this run] show ?thesis
    using run by (simp add: demo_paths clean_names_def whiteout_prefix_def)
qed

section \<open>Operations that fail\<close>

text \<open>The view is the same when only whiteouts that are gone again and directories on the way
  were made.\<close>

lemma stat_frame:
  assumes m: "mounted st U s" and m': "mounted st U s'"
    and ch: "\<And>k. k \<noteq> U @ cs @ [wh c] \<Longrightarrow> made_dirs s (U @ cs) s' k"
    and clean: "clean_names (cs @ [c])" "clean_names (ds @ [d])"
    and d: "valid_path ds" "valid_name d" "plain s (U @ ds)" "\<not> prefix (ds @ [d]) cs"
    and same: "ds @ [d] = cs @ [c] \<Longrightarrow> look s' (U @ cs @ [wh c]) = look s (U @ cs @ [wh c])"
  shows "stat st s' (of_comps (ds @ [d])) = stat st s (of_comps (ds @ [d]))"
proof -
  have "plain s' (U @ ds)"
    unfolding plain_def
  proof (intro allI impI)
    fix p assume p: "prefix p (U @ ds)"
    have "p \<noteq> U @ cs @ [wh c]" using p clean(2) not_prefix_clean [of ds cs c] by (auto simp: prefix_append)
    then show "\<not> is_link_at s' p" using made_dirs_link [OF ch] d(3) p by (auto simp: plain_def)
  qed
  moreover have "entry st s' U ds d = entry st s U ds d"
  proof (rule entry_cong)
    have "U @ ds @ [d] \<noteq> U @ cs @ [wh c]" using clean(2) by auto
    from ch [OF this] show "look s' (U @ ds @ [d]) = look s (U @ ds @ [d])"
      using d(4) by (simp add: made_dirs_def)
    show "look s' (U @ ds @ [wh d]) = look s (U @ ds @ [wh d])"
    proof (cases "ds @ [d] = cs @ [c]")
      case False
      then have "U @ ds @ [wh d] \<noteq> U @ cs @ [wh c]" by simp
      from ch [OF this] show ?thesis
        using not_prefix_clean [of cs ds d] clean(1) by (simp add: made_dirs_def)
    qed (use same in simp)
  qed
  ultimately show ?thesis using d by (simp add: stat_entry [OF m'] stat_entry [OF m])
qed

text \<open>The demo host with a script of faults.\<close>

definition faulty_host :: "errno option list \<Rightarrow> os" where
  "faulty_host fs = demo_host\<lparr>os_faults := fs\<rparr>"

lemma faulty_host:
  "mounted demo_state [''u''] (faulty_host fs)" "plain (faulty_host fs) q = plain demo_host q"
  "faults (faulty_host fs) = count_faults fs" "look (faulty_host fs) = look demo_host"
proof -
  show l: "look (faulty_host fs) = look demo_host" by (simp add: faulty_host_def)
  show "mounted demo_state [''u''] (faulty_host fs)" using demo_mounted by (simp add: mounted_def faulty_host_def)
  show "plain (faulty_host fs) q = plain demo_host q" by (rule plain_cong [OF l])
qed (simp add: faulty_host_def)

text \<open>C23: an unlink or rmdir that fails leaves the view as it was. Paths that are neither the name nor
  above it are unchanged whatever the host does. So is the name itself when there is nothing to hide
  below it, when the host makes no error of its own, and also when one call of the host fails that
  is not a call of writing the whiteout (the removal of an entry that is not a directory with
  entries, say): the whiteout that was written first is then taken back.\<close>

theorem remove_failed_unchanged:
  assumes "mounted st U s" and "valid_path cs" and "valid_name c" and "plain s (U @ cs)"
    and "fuse_remove lib st (of_comps cs) c dir s = (Inl e, s')" and "clean_names (cs @ [c])"
    and "valid_path ds" and "valid_name d" and "plain s (U @ ds)" and "clean_names (ds @ [d])"
    and "\<not> prefix (ds @ [d]) cs"
    and "ds @ [d] = cs @ [c] \<Longrightarrow> lower_node st (of_comps (cs @ [c])) = None \<or> (quiet s \<and> way s (U @ cs)) \<or>
      (faults s \<le> 1 \<and> \<not> has_entries s (U @ cs @ [c]) \<and> fst (make_whiteout st (of_comps cs) c s) = Inr ())"
  shows "stat st s' (of_comps (ds @ [d])) = stat st s (of_comps (ds @ [d]))"
proof (cases "s' = s")
  case False
  have m': "mounted st U s'" using remove_failed [OF assms(1-5)] False by blast
  have ch: "made_dirs s (U @ cs) s' k" if "k \<noteq> U @ cs @ [wh c]" for k
    using remove_failed [OF assms(1-5)] False that by blast
  have "look s' (U @ cs @ [wh c]) = look s (U @ cs @ [wh c])" if "ds @ [d] = cs @ [c]"
    using remove_failed [OF assms(1-5)] False assms(12) [OF that] wayD [of s "U @ cs"] by metis
  then show ?thesis by (intro stat_frame [OF assms(1) m' ch assms(6,10) assms(7-9,11)]) simp_all
qed simp

text \<open>The removal of the copy of \<open>d/f\<close> fails after its whiteout was written.\<close>

theorem remove_failed_unchanged_witness:
  "\<exists>s'. fuse_remove demo_lib demo_state ''d'' ''f'' False (faulty_host [None, None, Some EIO]) = (Inl EIO, s') \<and>
     look (snd (make_whiteout demo_state ''d'' ''f'' (faulty_host [None, None, Some EIO]))) [''u'', ''d'', ''.wh.f''] \<noteq> None \<and>
     stat demo_state s' ''d/f'' = stat demo_state demo_host ''d/f'' \<and> exists_pi (stat demo_state s' ''d/f'')"
proof -
  let ?s = "faulty_host [None, None, Some EIO]"
  have "fst (fuse_remove demo_lib demo_state ''d'' ''f'' False ?s) = Inl EIO" by code_simp
  then obtain s' where run: "fuse_remove demo_lib demo_state (of_comps [''d'']) ''f'' False ?s = (Inl EIO, s')"
    by (cases "fuse_remove demo_lib demo_state ''d'' ''f'' False ?s") (simp add: demo_paths)
  have pl: "plain ?s ([''u''] @ [''d''])" using demo_plain(1) by (simp add: faulty_host)
  have one: "faults ?s \<le> 1 \<and> \<not> has_entries ?s ([''u''] @ [''d''] @ [''f'']) \<and>
      fst (make_whiteout demo_state (of_comps [''d'']) ''f'' ?s) = Inr ()"
    by code_simp
  have same: "stat demo_state s' ''d/f'' = stat demo_state ?s ''d/f''"
    using remove_failed_unchanged [OF faulty_host(1) demo_paths(12,8) pl run _ demo_paths(12,8) pl] one
    by (simp add: demo_paths whiteout_prefix_def)
  have "stat demo_state ?s ''d/f'' = stat demo_state demo_host ''d/f''" "exists_pi (stat demo_state demo_host ''d/f'')"
    "look (snd (make_whiteout demo_state ''d'' ''f'' ?s)) [''u'', ''d'', ''.wh.f''] \<noteq> None"
    by code_simp+
  then show ?thesis using run same by (auto simp: demo_paths)
qed

text \<open>Not so when the close of the new whiteout fails: \<open>makeWhiteout\<close> reports the error and leaves the
  file behind, so unlink fails and the name is gone all the same.\<close>

theorem whiteout_close_hides:
  assumes "mounted st U s" and "valid_path cs" and "valid_name c" and "plain s (U @ cs)" and "clean_names (cs @ [c])"
    and "exists_pi (stat st s (of_comps (cs @ [c])))" and "\<not> is_dir_pi (stat st s (of_comps (cs @ [c])))"
    and "lower_node st (of_comps (cs @ [c])) \<noteq> None"
    and "make_whiteout st (of_comps cs) c s = (Inl e, s')" and "look s' (U @ cs @ [whiteout_prefix @ c]) \<noteq> None"
  shows "fuse_unlink lib st (of_comps cs) c s = (Inl (fl_errno lib (Errno e)), s') \<and>
    \<not> exists_pi (stat st s' (of_comps (cs @ [c])))"
proof
  have st: "stat st s (join_path (of_comps cs) c) = entry st s U cs c" by (rule stat_join [OF assms(1-4)])
  have e: "stat st s (of_comps (cs @ [c])) = entry st s U cs c" by (rule stat_entry [OF assms(1-4)])
  have ex: "exists_pi (entry st s U cs c)" using assms(6) e by simp
  then have nw: "look s (U @ cs @ [wh c]) = None" by (simp add: entry_none_iff)
  then have lo: "pi_lower (entry st s U cs c) = lower_node st (of_comps (cs @ [c]))" by (simp add: entry_def)
  show "fuse_unlink lib st (of_comps cs) c s = (Inl (fl_errno lib (Errno e)), s')"
    using assms(3,7-9) ex lo e mounted_writable [OF assms(1)]
    by (auto simp: fuse_unlink_def fuse_remove_def Let_def st)
  have "(if True then make_whiteout st (of_comps cs) c s else (Inr (), s)) = (Inl e, s')" using assms(9) by simp
  note rm = remove_marked [OF assms(1-4) nw this]
  have "plain s' (U @ cs)" by (rule plain_changed [OF assms(4)]) (use assms(5) rm(3) in auto)
  then show "\<not> exists_pi (stat st s' (of_comps (cs @ [c])))"
    using stat_entry [OF rm(1) assms(2,3)] assms(10) by (simp add: entry_none_iff)
qed

theorem whiteout_close_hides_witness:
  "\<exists>s'. fuse_unlink demo_lib demo_state ''d'' ''f'' (faulty_host [None, Some EIO]) = (Inl EIO, s') \<and>
     exists_pi (stat demo_state (faulty_host [None, Some EIO]) ''d/f'') \<and> \<not> exists_pi (stat demo_state s' ''d/f'')"
proof -
  let ?s = "faulty_host [None, Some EIO]"
  have pl: "plain ?s ([''u''] @ [''d''])" using demo_plain(1) by (simp add: faulty_host)
  have "fst (make_whiteout demo_state (of_comps [''d'']) ''f'' ?s) = Inl EIO" by code_simp
  then obtain s' where w: "make_whiteout demo_state (of_comps [''d'']) ''f'' ?s = (Inl EIO, s')"
    and s': "s' = snd (make_whiteout demo_state (of_comps [''d'']) ''f'' ?s)"
    by (cases "make_whiteout demo_state (of_comps [''d'']) ''f'' ?s") simp
  have l: "look s' ([''u''] @ [''d''] @ [whiteout_prefix @ ''f'']) \<noteq> None" unfolding s' by code_simp
  have e: "exists_pi (stat demo_state ?s (of_comps ([''d''] @ [''f''])))"
    "\<not> is_dir_pi (stat demo_state ?s (of_comps ([''d''] @ [''f''])))"
    "lower_node demo_state (of_comps ([''d''] @ [''f''])) \<noteq> None" by code_simp+
  have "fl_errno demo_lib (Errno EIO) = EIO" by (simp add: demo_lib_def)
  then show ?thesis
    using whiteout_close_hides [OF faulty_host(1) demo_paths(12,8) pl _ e w l, of demo_lib] e(1)
    by (auto simp: demo_paths whiteout_prefix_def)
qed

section \<open>Creating files, directories and links\<close>

lemma plain_butlast: "plain s (q @ [c]) \<Longrightarrow> plain s q"
  by (auto simp: plain_def prefix_snoc)

text \<open>C15: after a create, mkdir or symlink that succeeds, the name is a node of the upper directory
  and its whiteout is gone; every path of ordinary names that is neither at, above nor below it, with
  no link of the upper directory on the way, is seen as before. (Below it the children of a deleted
  lower directory come back.)\<close>

theorem create_visible:
  assumes "mounted st U s" and "valid_path cs" and "valid_name c" and "plain s (U @ cs @ [c])"
    and "makes lib st (of_comps cs) c True s s'" and "clean_names (cs @ [c])"
  shows "(\<exists>n. stat st s' (of_comps (cs @ [c])) =
      \<lparr>pi_lower = lower_node st (of_comps (cs @ [c])), pi_upper = Some n\<rparr>) \<and>
    (\<forall>ds d. valid_path ds \<and> valid_name d \<and> plain s (U @ ds) \<and> clean_names (ds @ [d]) \<and>
       \<not> prefix (ds @ [d]) (cs @ [c]) \<and> \<not> prefix (cs @ [c]) ds \<longrightarrow>
       stat st s' (of_comps (ds @ [d])) = stat st s (of_comps (ds @ [d])))"
proof (intro conjI allI impI)
  note r = makes_spec [OF assms(1-5)]
  have m': "mounted st U s'" using r by (rule conjunct1)
  have ch: "made_dirs s (U @ cs) s' k" if "k \<noteq> U @ cs @ [wh c]" "k \<noteq> U @ cs @ [c]" for k
    using r that by blast
  have pl: "plain s (U @ cs)" using assms(4) plain_butlast [of s "U @ cs" c] by simp
  have "plain s' (U @ cs)" by (rule plain_changed [OF pl _ ch]) (use assms(6) in simp)
  then have e: "stat st s' (of_comps (cs @ [c])) = entry st s' U cs c"
    by (rule stat_entry [OF m' assms(2,3)])
  have "look s' (U @ cs @ [wh c]) = None" "look s' (U @ cs @ [c]) \<noteq> None" using r by blast+
  then show "\<exists>n. stat st s' (of_comps (cs @ [c])) =
      \<lparr>pi_lower = lower_node st (of_comps (cs @ [c])), pi_upper = Some n\<rparr>"
    unfolding e by (auto simp: entry_def)
  fix ds d
  assume d: "valid_path ds \<and> valid_name d \<and> plain s (U @ ds) \<and> clean_names (ds @ [d]) \<and>
    \<not> prefix (ds @ [d]) (cs @ [c]) \<and> \<not> prefix (cs @ [c]) ds"
  have "ds @ [d] \<noteq> cs @ [c]" "\<not> prefix (ds @ [d]) cs" using d by (auto simp: prefix_snoc [of _ cs c])
  then show "stat st s' (of_comps (ds @ [d])) = stat st s (of_comps (ds @ [d]))"
    using d by (intro stat_elsewhere [OF assms(1) m' ch assms(6)]) simp_all
qed

text \<open>A fresh directory over the name of a whiteout: \<open>d/g\<close> was deleted in \<open>demo_host\<close>.\<close>

lemma demo_mkdir:
  "\<exists>s'. makes demo_lib demo_state (of_comps [''d'']) ''g'' True demo_host s' \<and>
     s' = snd (fuse_mkdir demo_lib demo_state ''d'' ''g'' 0x1ED demo_host)"
proof -
  have "\<not> isl (fst (fuse_mkdir demo_lib demo_state ''d'' ''g'' 0x1ED demo_host))" by code_simp
  then have "fuse_mkdir demo_lib demo_state (of_comps [''d'']) ''g'' 0x1ED demo_host =
      (fst (fuse_mkdir demo_lib demo_state ''d'' ''g'' 0x1ED demo_host),
       snd (fuse_mkdir demo_lib demo_state ''d'' ''g'' 0x1ED demo_host)) \<and>
      isl (fst (fuse_mkdir demo_lib demo_state ''d'' ''g'' 0x1ED demo_host)) \<noteq> True"
    by (simp add: demo_paths)
  then show ?thesis unfolding makes_def by blast
qed

theorem create_visible_witness:
  "exists_pi (stat demo_state (snd (fuse_mkdir demo_lib demo_state ''d'' ''g'' 0x1ED demo_host)) ''d/g'')"
proof -
  obtain s' where mk: "makes demo_lib demo_state (of_comps [''d'']) ''g'' True demo_host s'"
    and s': "s' = snd (fuse_mkdir demo_lib demo_state ''d'' ''g'' 0x1ED demo_host)"
    using demo_mkdir by blast
  have "\<not> is_link_at demo_host [''u'', ''d'', ''g'']" by code_simp
  then have "plain demo_host ([''u''] @ [''d''] @ [''g''])"
    using plain_snoc [of demo_host "[''u'', ''d'']" "''g''"] demo_plain(1) by simp
  from create_visible [OF demo_mounted demo_paths(12,9) this mk] show ?thesis
    unfolding s' by (auto simp: demo_paths whiteout_prefix_def exists_pi_def)
qed

text \<open>C22: a create, mkdir or symlink that fails leaves the view as it was. Paths that are neither the
  name nor above it are unchanged whatever the host does. At the name, a whiteout that was taken away
  first is written again: the name is seen as before when it has no whiteout, when the host makes no
  error of its own, and also when the only error is the one that kept a free name from being
  made.\<close>

theorem create_failed_restores:
  assumes "mounted st U s" and "valid_path cs" and "valid_name c" and "plain s (U @ cs @ [c])"
    and "makes lib st (of_comps cs) c False s s'" and "clean_names (cs @ [c])"
    and "valid_path ds" and "valid_name d" and "plain s (U @ ds)" and "clean_names (ds @ [d])"
    and "\<not> prefix (ds @ [d]) cs"
    and "ds @ [d] = cs @ [c] \<Longrightarrow> quiet s \<or> look s (U @ cs @ [whiteout_prefix @ c]) = None \<or>
      (faults s \<le> 1 \<and> look s (U @ cs @ [c]) = None)"
  shows "stat st s' (of_comps (ds @ [d])) = stat st s (of_comps (ds @ [d]))"
proof -
  note r = makes_spec [OF assms(1-5)]
  have m': "mounted st U s'" using r by (rule conjunct1)
  have ch: "made_dirs s (U @ cs) s' k" if "k \<noteq> U @ cs @ [wh c]" for k
    using r that by (cases "k = U @ cs @ [c]") blast+
  have pl: "plain s (U @ cs)" using assms(4) plain_butlast [of s "U @ cs" c] by simp
  show ?thesis
  proof (cases "ds @ [d] = cs @ [c]")
    case True
    then have w: "look s' (U @ cs @ [wh c]) = None \<longleftrightarrow> look s (U @ cs @ [wh c]) = None"
      using r assms(12) by blast
    have "plain s' (U @ cs)" by (rule plain_changed [OF pl _ ch]) (use assms(6) in simp)
    moreover have "look s' (U @ cs @ [c]) = look s (U @ cs @ [c])"
      using ch [of "U @ cs @ [c]"] by (auto simp: made_dirs_def dest: prefix_length_le)
    ultimately show ?thesis
      using True w pl by (simp add: stat_entry [OF m' assms(2,3)] stat_entry [OF assms(1-3)] entry_def)
  next
    case False
    show ?thesis
      by (rule stat_frame [OF assms(1) m' ch assms(6,10) assms(7-9,11)]) (use False in simp_all)
  qed
qed

text \<open>A directory over the deleted name \<open>d/g\<close>: the whiteout goes, mkdir fails, the whiteout is back.\<close>

theorem create_failed_restores_witness:
  "\<exists>s'. fuse_mkdir demo_lib demo_state ''d'' ''g'' 0x1ED (faulty_host [None, Some EIO]) = (Inl EIO, s') \<and>
     look (snd (clear_whiteout demo_state ''d'' ''g'' (faulty_host [None, Some EIO]))) [''u'', ''d'', ''.wh.g''] = None \<and>
     stat demo_state s' ''d/g'' = stat demo_state demo_host ''d/g'' \<and> \<not> exists_pi (stat demo_state s' ''d/g'')"
proof -
  let ?s = "faulty_host [None, Some EIO]"
  let ?run = "fuse_mkdir demo_lib demo_state ''d'' ''g'' 0x1ED ?s"
  have e: "fst ?run = Inl EIO" by code_simp
  then have run: "?run = (Inl EIO, snd ?run)" by (metis prod.collapse)
  then have "fuse_mkdir demo_lib demo_state (of_comps [''d'']) ''g'' 0x1ED ?s = (Inl EIO, snd ?run) \<and>
      isl (Inl EIO :: errno + entry_out) \<noteq> False"
    unfolding demo_paths by (rule conjI) simp
  then have mk: "makes demo_lib demo_state (of_comps [''d'']) ''g'' False ?s (snd ?run)"
    unfolding makes_def by blast
  have "\<not> is_link_at demo_host [''u'', ''d'', ''g'']" by code_simp
  then have pl: "plain ?s ([''u''] @ [''d''] @ [''g''])"
    using plain_snoc [of demo_host "[''u'', ''d'']" "''g''"] demo_plain(1) by (simp add: faulty_host)
  have pd: "plain ?s ([''u''] @ [''d''])" using demo_plain(1) by (simp add: faulty_host)
  have one: "faults ?s \<le> 1 \<and> look ?s ([''u''] @ [''d''] @ [''g'']) = None" by code_simp
  have same: "stat demo_state (snd ?run) ''d/g'' = stat demo_state ?s ''d/g''"
    using create_failed_restores [OF faulty_host(1) demo_paths(12,9) pl mk _ demo_paths(12,9) pd] one
    by (simp add: demo_paths whiteout_prefix_def)
  have "stat demo_state ?s ''d/g'' = stat demo_state demo_host ''d/g''" "\<not> exists_pi (stat demo_state demo_host ''d/g'')"
    "look (snd (clear_whiteout demo_state ''d'' ''g'' ?s)) [''u'', ''d'', ''.wh.g''] = None"
    by code_simp+
  then show ?thesis using run same by metis
qed

section \<open>A mount without an upper directory\<close>

text \<open>C33: on a mount with an empty upper directory every operation that would write fails, an open
  for writing included, and nothing on the host changes.\<close>

theorem read_only_mount:
  assumes "fs_upper st = ''''"
  shows "(\<exists>e. fuse_create lib st p c flags mode s = (Inl e, s)) \<and>
    (\<exists>e. fuse_mkdir lib st p c mode s = (Inl e, s)) \<and>
    (\<exists>e. fuse_symlink lib st p target c s = (Inl e, s)) \<and>
    (\<exists>e. fuse_unlink lib st p c s = (Inl e, s)) \<and>
    (\<exists>e. fuse_rmdir lib st p c s = (Inl e, s)) \<and>
    (\<exists>e. fuse_rename lib st p c other q d flags s = (Inl e, s)) \<and>
    snd (fuse_open lib st p flags s) = s \<and>
    (flags AND O_ACCMODE \<noteq> O_RDONLY \<longrightarrow> (\<exists>e. fuse_open lib st p flags s = (Inl e, s))) \<and>
    fuse_setattr lib st p None inp s = (Inl EROFS, s)"
proof -
  have w: "\<not> writable st" using assms by (simp add: writable_def)
  have u: "pi_upper (stat st s p) = None" using w by (simp add: stat_def)
  have "snd (fuse_open lib st p flags s) = s"
    using w u by (simp add: fuse_open_def Let_def split: option.splits)
  moreover have "flags AND O_ACCMODE \<noteq> O_RDONLY \<longrightarrow> (\<exists>e. fuse_open lib st p flags s = (Inl e, s))"
    using w u by (simp add: fuse_open_def Let_def)
  ultimately show ?thesis
    using w by (simp add: fuse_create_def fuse_mkdir_def fuse_symlink_def fuse_unlink_def
      fuse_rmdir_def fuse_remove_def fuse_rename_def fuse_setattr_def)
qed

theorem read_only_mount_witness:
  "fuse_setattr demo_lib (demo_state\<lparr>fs_upper := ''''\<rparr>) ''d/f'' None
     \<lparr>in_mode = Some 0, in_uid = None, in_gid = None, in_mtime = None, in_atime = None, in_size = None\<rparr>
     demo_host = (Inl EROFS, demo_host) \<and>
   (\<exists>e. fuse_open demo_lib (demo_state\<lparr>fs_upper := ''''\<rparr>) ''d/f'' 1 demo_host = (Inl e, demo_host))"
proof -
  have "fs_upper (demo_state\<lparr>fs_upper := ''''\<rparr>) = ''''" by simp
  moreover have "(1 :: u32) AND O_ACCMODE \<noteq> O_RDONLY" by (simp add: O_ACCMODE_def O_RDONLY_def)
  ultimately show ?thesis using read_only_mount by blast
qed

section \<open>Copying up\<close>

lemma lower_leaf_reads:
  assumes lower: "fs_lower st = Some (build_tree store bs files)"
    and f: "view_of files (cs @ [c]) = Some (VLeaf f)" and v: "valid_path (cs @ [c])"
  shows "\<exists>n. lower_node st (of_comps (cs @ [c])) = Some n \<and>
    \<not> n_is_dir n \<and> n_link n = fe_link f \<and> n_mode n = fe_mode f \<and>
    (stored store bs f content \<longrightarrow> n_size n = int (length content) \<and>
      (\<forall>off len. 0 \<le> off \<longrightarrow> off + len < 2 ^ 63 \<longrightarrow>
        read_at (build_tree store bs files) n off len = Inr (take (nat len) (drop (nat off) content))))"
proof -
  let ?t = "build_tree store bs files" and ?leaf = "leaf_node 0 (last (cs @ [c])) f"
  have "map_option erase (node_at_path (t_nodes ?t) (cs @ [c])) = Some ?leaf"
    unfolding view_nodes_def [symmetric] view_nodes_build using f by simp
  then obtain n where n: "node_at_path (t_nodes ?t) (cs @ [c]) = Some n" "erase n = ?leaf" by auto
  have low: "lower_node st (of_comps (cs @ [c])) = Some n"
    using n(1) lower_node_path [OF lower v] by simp
  have "n_is_dir n = n_is_dir (erase n)" "n_size n = n_size (erase n)" "n_link n = n_link (erase n)"
    "n_blocks n = n_blocks (erase n)" "n_offsets n = n_offsets (erase n)" "n_mode n = n_mode (erase n)"
    by (simp_all add: erase_def)
  then have parts: "n_is_dir n = False" "n_link n = fe_link f" "n_mode n = fe_mode f"
    "n_blocks n = fe_blocks f" "n_offsets n = n_offsets (leaf_node 0 '''' f)"
    "fe_link f = '''' \<Longrightarrow> n_size n = fe_size f"
    unfolding n(2) by (simp_all add: leaf_node_def)
  have t: "t_store ?t = store" "t_block_size ?t = bs" by (simp_all add: build_tree_def)
  have "n_size n = int (length content) \<and> (\<forall>off len. 0 \<le> off \<longrightarrow> off + len < 2 ^ 63 \<longrightarrow>
      read_at ?t n off len = Inr (take (nat len) (drop (nat off) content)))"
    if st: "stored store bs f content"
  proof -
    have size: "n_size n = int (length content)" using st parts(6) by (simp add: stored_def)
    then show ?thesis using read_at_leaf [of ?t f content _ _ n] st t parts by simp
  qed
  then show ?thesis using low parts(1-3) by blast
qed

lemma lower_leaf:
  assumes lower: "fs_lower st = Some (build_tree store bs files)"
    and f: "view_of files (cs @ [c]) = Some (VLeaf f)" and v: "valid_path (cs @ [c])"
  shows "\<exists>n. lower_node st (of_comps (cs @ [c])) = Some n \<and>
    \<not> n_is_dir n \<and> n_link n = fe_link f \<and> n_mode n = fe_mode f \<and>
    (stored store bs f content \<longrightarrow> fe_link f = '''' \<longrightarrow> int (length content) + 0x100000 < 2 ^ 63 \<longrightarrow>
      readable (build_tree store bs files) n content)"
proof -
  obtain n where "lower_node st (of_comps (cs @ [c])) = Some n"
    "\<not> n_is_dir n \<and> n_link n = fe_link f \<and> n_mode n = fe_mode f"
    "stored store bs f content \<longrightarrow> n_size n = int (length content) \<and>
      (\<forall>off len. 0 \<le> off \<longrightarrow> off + len < 2 ^ 63 \<longrightarrow>
        read_at (build_tree store bs files) n off len = Inr (take (nat len) (drop (nat off) content)))"
    using lower_leaf_reads [OF assms, of content] by blast
  then show ?thesis by (auto simp: readable_def)
qed

lemma copy_up_parts:
  assumes "mounted st U s" and "valid_path cs" and "valid_name c" and "plain s (U @ cs)"
    and "look s (U @ cs @ [c]) = None"
    and "fs_lower st = Some (build_tree store bs files)" and "view_of files (cs @ [c]) = Some (VLeaf f)"
    and "fe_link f = ''''" and "stored store bs f content" and "int (length content) + 0x100000 < 2 ^ 63"
    and "copy_up st (of_comps (cs @ [c])) s = (r, s')"
  shows "r = Inr () \<Longrightarrow> \<exists>nd. look s' (U @ cs @ [c]) = Some nd \<and> u_body nd = BReg content \<and>
      u_mode nd = masked s ((if fs_clear st then (fe_mode f AND 0xFFF) AND NOT (S_ISUID OR S_ISGID)
        else fe_mode f AND 0xFFF) AND 0x1FF)"
    and "r \<noteq> Inr () \<Longrightarrow> faults s \<le> 1 \<Longrightarrow> look s' (U @ cs @ [c]) = None"
    and "quiet s \<Longrightarrow> way s (U @ cs) \<Longrightarrow> r = Inr ()"
    and "k \<noteq> U @ cs @ [c] \<Longrightarrow> \<not> prefix k (U @ cs) \<Longrightarrow> look s' k = look s k"
proof -
  have "valid_path (cs @ [c])" using assms(2,3) by simp
  from lower_leaf [OF assms(6,7) this, of content] obtain n where n:
    "lower_node st (of_comps (cs @ [c])) = Some n" "\<not> n_is_dir n" "n_link n = ''''" "n_mode n = fe_mode f"
    "readable (build_tree store bs files) n content"
    using assms(8-10) by auto
  note r = copy_up_file [OF assms(1-6) n(1-3,5) assms(11)]
  show "r = Inr () \<Longrightarrow> \<exists>nd. look s' (U @ cs @ [c]) = Some nd \<and> u_body nd = BReg content \<and>
      u_mode nd = masked s ((if fs_clear st then (fe_mode f AND 0xFFF) AND NOT (S_ISUID OR S_ISGID)
        else fe_mode f AND 0xFFF) AND 0x1FF)"
  proof -
    assume "r = Inr ()"
    with r [THEN conjunct2, THEN conjunct2, THEN conjunct2, THEN conjunct1] obtain nd where
      "look s' (U @ cs @ [c]) = Some nd" "u_body nd = BReg content"
      "u_mode nd = masked s (go_perm (copy_mode st n))" by auto
    then show ?thesis by (auto simp: copy_mode_def n(4) go_perm_def)
  qed
  show "r \<noteq> Inr () \<Longrightarrow> faults s \<le> 1 \<Longrightarrow> look s' (U @ cs @ [c]) = None"
    using r [THEN conjunct2, THEN conjunct2, THEN conjunct2, THEN conjunct2, THEN conjunct1] by simp
  show "quiet s \<Longrightarrow> way s (U @ cs) \<Longrightarrow> r = Inr ()"
    using r [THEN conjunct2, THEN conjunct2, THEN conjunct2, THEN conjunct2, THEN conjunct2]
      wayD [of s "U @ cs"] by blast
  assume "k \<noteq> U @ cs @ [c]" "\<not> prefix k (U @ cs)"
  moreover have "\<forall>k. k \<noteq> U @ cs @ [c] \<longrightarrow> made_dirs s (U @ cs) s' k"
    using r [THEN conjunct2, THEN conjunct2, THEN conjunct1] .
  ultimately have "made_dirs s (U @ cs) s' k" by blast
  then show "look s' k = look s k"
    unfolding made_dirs_def using \<open>\<not> prefix k (U @ cs)\<close> by argo
qed

text \<open>C14: copying a committed regular file up makes a file of the upper directory with exactly its bytes,
  and with the nine permission bits of its mode less the umask; the set-id and sticky bits are lost.
  When the copy fails and at most one call of the host fails, no partial file is left. When no call
  fails and nothing but directories is on the way, the copy succeeds. Nothing else changes but for new
  directories on the way.\<close>

theorem copy_up_exact:
  assumes "mounted st U s" and "valid_path cs" and "valid_name c" and "plain s (U @ cs)"
    and "look s (U @ cs @ [c]) = None"
    and "fs_lower st = Some (build_tree store bs files)" and "view_of files (cs @ [c]) = Some (VLeaf f)"
    and "fe_link f = ''''" and "stored store bs f content" and "int (length content) + 0x100000 < 2 ^ 63"
    and "copy_up st (of_comps (cs @ [c])) s = (r, s')"
  shows "(r = Inr () \<longrightarrow> (\<exists>nd. look s' (U @ cs @ [c]) = Some nd \<and> u_body nd = BReg content \<and>
      u_mode nd = masked s ((if fs_clear st then (fe_mode f AND 0xFFF) AND NOT (S_ISUID OR S_ISGID)
        else fe_mode f AND 0xFFF) AND 0x1FF))) \<and>
    (r \<noteq> Inr () \<and> faults s \<le> 1 \<longrightarrow> look s' (U @ cs @ [c]) = None) \<and>
    (quiet s \<and> way s (U @ cs) \<longrightarrow> r = Inr ()) \<and>
    (\<forall>k. k \<noteq> U @ cs @ [c] \<and> \<not> prefix k (U @ cs) \<longrightarrow> look s' k = look s k)"
  by (intro conjI impI allI; (elim conjE)?; rule copy_up_parts [OF assms]; assumption)

theorem copy_up_exact_witness:
  "\<exists>nd. look (snd (copy_up demo_state ''d/f'' (host_with []))) [''u'', ''d'', ''f''] = Some nd \<and>
     u_body nd = BReg ''abcdef''"
proof -
  let ?run = "copy_up demo_state (of_comps ([''d''] @ [''f''])) (host_with [])"
  have n: "look (host_with []) ([''u''] @ [''d''] @ [''f'']) = None" by code_simp
  have f: "view_of [demo_file, file_at ''d/g'', dir_at ''e'' 0x1C0] ([''d''] @ [''f'']) = Some (VLeaf demo_file)"
    by code_simp
  have l: "fs_lower demo_state = Some (build_tree demo_store 4 [demo_file, file_at ''d/g'', dir_at ''e'' 0x1C0])"
    by (simp add: demo_state_def demo_tree_def)
  have k: "fe_link demo_file = ''''" "stored demo_store 4 demo_file ''abcdef''" by code_simp+
  have w: "way (host_with []) ([''u''] @ [''d''])" by code_simp
  have r: "?run = (fst ?run, snd ?run)" by simp
  note c = copy_up_exact [OF fresh_mounted demo_paths(12,8) way_plain [OF w] n l f k _ r]
  have "fst ?run = Inr ()" using c demo_quiet(2) w by simp
  then show ?thesis using c by (auto simp: demo_paths)
qed

section \<open>Renaming\<close>

text \<open>C16: a rename that succeeds hides the old name and puts the node there at the new one, with
  everything the upper directory has below it. A node that was only in the lower tree is copied up
  first, so it is the copy that moves.\<close>

theorem rename_moves:
  assumes "mounted st U s" and "valid_path cs" and "valid_name c" and "plain s (U @ cs)"
    and "valid_path ds" and "valid_name d" and "plain s (U @ ds)"
    and "clean_names (cs @ [c])" and "clean_names (ds @ [d])"
    and "cs @ [c] \<noteq> ds @ [d]" and "\<not> prefix (cs @ [c]) ds"
    and "fuse_rename lib st (of_comps cs) c False (of_comps ds) d flags s = (Inr (), s')"
  shows "\<not> exists_pi (stat st s' (of_comps (cs @ [c]))) \<and>
    (\<exists>s1 n. copy_up st (of_comps (cs @ [c])) s = (Inr (), s1) \<and> look s1 (U @ cs @ [c]) = Some n \<and>
      stat st s' (of_comps (ds @ [d])) =
        \<lparr>pi_lower = lower_node st (of_comps (ds @ [d])), pi_upper = Some n\<rparr> \<and>
      (\<forall>r. look s' (U @ ds @ [d] @ r) = look s1 (U @ cs @ [c] @ r)))"
proof -
  from rename_success [OF assms] obtain s1 where
    one: "copy_up st (of_comps (cs @ [c])) s = (Inr (), s1)" and m': "mounted st U s'"
    and dirs: "is_dir_at s' (U @ cs)" "is_dir_at s' (U @ ds)"
    and src1: "look s1 (U @ cs @ [c]) \<noteq> None" and gone: "look s' (U @ cs @ [c]) = None"
    and wa: "lower_node st (of_comps (cs @ [c])) \<noteq> None \<longrightarrow> look s' (U @ cs @ [wh c]) \<noteq> None"
    and wb: "look s' (U @ ds @ [wh d]) = None"
    and moved: "\<forall>r. look s' (U @ ds @ [d] @ r) = look s1 (U @ cs @ [c] @ r)" by blast
  have pl: "plain s' (U @ cs)" "plain s' (U @ ds)"
    using dir_plain [OF mounted_wf [OF m']] dirs by blast+
  have "stat st s' (of_comps (cs @ [c])) = entry st s' U cs c"
    by (rule stat_entry [OF m' assms(2,3) pl(1)])
  moreover have "\<not> exists_pi (entry st s' U cs c)"
    unfolding entry_none_iff using gone wa by blast
  ultimately have hidden: "\<not> exists_pi (stat st s' (of_comps (cs @ [c])))" by (simp only: not_False_eq_True)
  obtain n where n: "look s1 (U @ cs @ [c]) = Some n" using src1 by blast
  have "look s' (U @ ds @ [d]) = look s1 (U @ cs @ [c])" using spec [OF moved, of "[]"] by simp
  then have "stat st s' (of_comps (ds @ [d])) =
      \<lparr>pi_lower = lower_node st (of_comps (ds @ [d])), pi_upper = Some n\<rparr>"
    using n wb stat_entry [OF m' assms(5,6) pl(2)] by (simp add: entry_def)
  then show ?thesis using hidden one n moved by blast
qed

theorem rename_moves_witness:
  "\<not> exists_pi (stat demo_state (snd (fuse_rename demo_lib demo_state ''d'' ''f'' False '''' ''h'' 0 demo_host)) ''d/f'')"
proof -
  let ?run = "fuse_rename demo_lib demo_state ''d'' ''f'' False '''' ''h'' 0 demo_host"
  have "fst ?run = Inr ()" by code_simp
  then have run: "fuse_rename demo_lib demo_state (of_comps [''d'']) ''f'' False (of_comps []) ''h'' 0 demo_host =
      (Inr (), snd ?run)"
    by (cases ?run) (simp add: demo_paths)
  have pl: "plain demo_host ([''u''] @ [''d''])" "plain demo_host ([''u''] @ [])" using demo_plain by simp_all
  have h: "valid_name ''h''" by code_simp
  from rename_moves [OF demo_mounted demo_paths(12,8) pl(1) demo_paths(13) h pl(2) _ _ _ _ run]
  show ?thesis by (simp add: demo_paths whiteout_prefix_def)
qed

text \<open>Renaming a directory moves only its upper part. A directory of the lower tree with one
  changed file can be renamed, and the files of it that were not changed are then at neither name;
  a new directory with the old name brings them back.\<close>

theorem rename_loses_lower_children:
  "\<exists>s1 s2. fuse_rename demo_lib demo_state '''' ''d'' False '''' ''h'' 0 demo_lower_dir = (Inr (), s1) \<and>
     exists_pi (stat demo_state demo_lower_dir ''d/g'') \<and>
     \<not> exists_pi (stat demo_state s1 ''d'') \<and> \<not> exists_pi (stat demo_state s1 ''h/g'') \<and>
     s2 = snd (fuse_mkdir demo_lib demo_state '''' ''d'' 0x1ED s1) \<and>
     exists_pi (stat demo_state s2 ''d/g'')"
proof -
  let ?run = "fuse_rename demo_lib demo_state '''' ''d'' False '''' ''h'' 0 demo_lower_dir"
  have "fst ?run = Inr ()" by code_simp
  then have "?run = (Inr (), snd ?run)" by (cases ?run) simp
  moreover have "exists_pi (stat demo_state demo_lower_dir ''d/g'')" by code_simp
  moreover have "\<not> exists_pi (stat demo_state (snd ?run) ''d'')" by code_simp
  moreover have "\<not> exists_pi (stat demo_state (snd ?run) ''h/g'')" by code_simp
  moreover have "exists_pi (stat demo_state (snd (fuse_mkdir demo_lib demo_state '''' ''d'' 0x1ED (snd ?run))) ''d/g'')"
    by code_simp
  ultimately show ?thesis by blast
qed

end
