(* ===== verification/MountSteps.thy ===== *)
theory MountSteps
  imports Containment OverlayProps
begin

text \<open>
  A mount in use: the operations of fuse.go as one function on requests, the requests that the
  kernel sends, and the transition system of a mount, whose states are the host and the files that
  are open on it. What every request keeps is shown for all reachable states: the mount stays well
  formed and nothing outside the upper directory changes.
\<close>

section \<open>Requests\<close>

text \<open>Requests that change nothing by their type (\<open>Lookup\<close>, \<open>Getattr\<close>, \<open>Readdir\<close>, \<open>Readlink\<close>,
  \<open>Read\<close>) are left out. A node is named by the components of its path.\<close>

datatype fuse_op =
    Open path u32
  | Setattr path "handle option" setattr_in
  | Create path string u32 u32
  | Mkdir path string u32
  | Symlink path string string
  | Remove path string bool
  | Rename path string bool path string u32

definition answer :: "('a \<Rightarrow> handle option) \<Rightarrow> (errno + 'a) \<times> os \<Rightarrow> (errno + handle option) \<times> os" where
  "answer f rs = (map_sum id f (fst rs), snd rs)"

fun fuse_do :: "fuse_lib \<Rightarrow> fuse_state \<Rightarrow> fuse_op \<Rightarrow> os \<Rightarrow> (errno + handle option) \<times> os" where
  "fuse_do lib st (Open p flags) s = answer Some (fuse_open lib st (of_comps p) flags s)"
| "fuse_do lib st (Setattr p fh inp) s = answer (\<lambda>_. None) (fuse_setattr lib st (of_comps p) fh inp s)"
| "fuse_do lib st (Create p name flags mode) s =
     answer (Some \<circ> snd) (fuse_create lib st (of_comps p) name flags mode s)"
| "fuse_do lib st (Mkdir p name mode) s = answer (\<lambda>_. None) (fuse_mkdir lib st (of_comps p) name mode s)"
| "fuse_do lib st (Symlink p target name) s = answer (\<lambda>_. None) (fuse_symlink lib st (of_comps p) target name s)"
| "fuse_do lib st (Remove p name dir) s =
     answer (\<lambda>_. None) (if dir then fuse_rmdir lib st (of_comps p) name s else fuse_unlink lib st (of_comps p) name s)"
| "fuse_do lib st (Rename p name other q new_name flags) s =
     answer (\<lambda>_. None) (fuse_rename lib st (of_comps p) name other (of_comps q) new_name flags s)"

fun opened :: "errno + handle option \<Rightarrow> path list" where
  "opened (Inr (Some (Loopback q))) = [q]"
| "opened _ = []"

section \<open>What the kernel sends\<close>

text \<open>The kernel reaches a node by looking up name after name, and goes on only in directories. It
  follows symbolic links itself: it opens no link and changes neither the mode nor the size of one.
  It does not move a directory below itself. The one condition that the kernel does not guarantee
  is \<open>hidden_link\<close>: no symbolic link of the upper directory hides behind a whiteout at the name to
  create.\<close>

definition reached :: "fuse_state \<Rightarrow> os \<Rightarrow> path \<Rightarrow> bool" where
  "reached st s cs \<longleftrightarrow> valid_path cs \<and>
     list_all (\<lambda>ds. ds = [] \<or> is_dir_pi (stat st s (of_comps ds))) (prefixes cs)"

definition known :: "fuse_state \<Rightarrow> os \<Rightarrow> path \<Rightarrow> bool" where
  "known st s cs \<longleftrightarrow> cs \<noteq> [] \<and> reached st s (butlast cs) \<and> valid_name (last cs) \<and>
     exists_pi (stat st s (of_comps cs))"

definition hidden_link :: "fuse_state \<Rightarrow> os \<Rightarrow> path \<Rightarrow> string \<Rightarrow> bool" where
  "hidden_link st s cs c \<longleftrightarrow>
     (case os_lstat s (upper_path st (join_path (of_comps cs) c)) of
        Inr n \<Rightarrow> is_link (u_body n)
      | Inl _ \<Rightarrow> False)"

fun sent :: "fuse_state \<Rightarrow> os \<Rightarrow> path list \<Rightarrow> fuse_op \<Rightarrow> bool" where
  "sent st s fs (Open p flags) \<longleftrightarrow> known st s p \<and> \<not> is_link_pi (stat st s (of_comps p))"
| "sent st s fs (Setattr p fh inp) \<longleftrightarrow>
     (case fh of
        Some (Loopback q) \<Rightarrow> q \<in> set fs
      | _ \<Rightarrow> p = [] \<or> known st s p \<and>
          (\<not> is_link_pi (stat st s (of_comps p)) \<or> in_mode inp = None \<and> in_size inp = None))"
| "sent st s fs (Create p name flags mode) \<longleftrightarrow> reached st s p \<and> \<not> hidden_link st s p name"
| "sent st s fs (Mkdir p name mode) \<longleftrightarrow> reached st s p \<and> \<not> hidden_link st s p name"
| "sent st s fs (Symlink p target name) \<longleftrightarrow> reached st s p \<and> \<not> hidden_link st s p name"
| "sent st s fs (Remove p name dir) \<longleftrightarrow> reached st s p"
| "sent st s fs (Rename p name other q new_name flags) \<longleftrightarrow>
     reached st s p \<and> reached st s q \<and> \<not> prefix (p @ [name]) q"

text \<open>Reads and writes on an open file go through go-fuse. They change that file alone, whatever
  has become of its name.\<close>

definition file_change :: "path \<Rightarrow> os \<Rightarrow> os \<Rightarrow> bool" where
  "file_change q s t \<longleftrightarrow> only_at q s t \<and> (wf_os s \<longrightarrow> wf_os t)"

definition file_law :: "fuse_lib \<Rightarrow> bool" where
  "file_law lib \<longleftrightarrow> (\<forall>q inp s. file_change q s (snd (fl_fsetattr lib q inp s)))"

datatype use_event = Request fuse_op | FileIO path

inductive mount_step :: "fuse_lib \<Rightarrow> fuse_state \<Rightarrow> os \<times> path list \<Rightarrow> use_event \<Rightarrow> os \<times> path list \<Rightarrow> bool"
  for lib st where
  request: "sent st s fs op \<Longrightarrow> fuse_do lib st op s = (r, t) \<Longrightarrow>
    mount_step lib st (s, fs) (Request op) (t, opened r @ fs)"
| file_io: "q \<in> set fs \<Longrightarrow> file_change q s t \<Longrightarrow> mount_step lib st (s, fs) (FileIO q) (t, fs)"

inductive_cases mount_stepE: "mount_step lib st S ev T"
inductive_simps request_step: "mount_step lib st S (Request op) T"

section \<open>What a request keeps\<close>

lemma reached_Nil: "reached st s []"
  by (simp add: reached_def)

lemma reached_snoc: "reached st s (cs @ [c]) \<longleftrightarrow>
    reached st s cs \<and> valid_name c \<and> is_dir_pi (stat st s (of_comps (cs @ [c])))"
  by (auto simp: reached_def prefixes_snoc)

lemma reached_place: "mounted st U s \<Longrightarrow> reached st s cs \<Longrightarrow> place st U s cs"
proof (induction cs rule: rev_induct)
  case Nil
  then show ?case by (simp add: place_def mounted_plain)
next
  case (snoc c cs)
  then have p: "place st U s cs" and c: "valid_name c" by (simp_all add: reached_snoc)
  have "is_dir_pi (entry st s U cs c)"
    using snoc.prems stat_entry [OF place_mounted [OF p] place_valid [OF p] c place_plain [OF p]]
    by (simp add: reached_snoc)
  then have "\<not> is_link_at s (U @ cs @ [c])"
    using is_dir_upper [of "entry st s U cs c"]
    by (auto simp: is_link_at_def entry_def is_dir_pi_def pi_mode_def S_IFMT_def S_IFDIR_def split: option.splits if_splits)
  then show ?case
    using p c plain_snoc [of s "U @ cs" c] by (simp add: place_def)
qed

lemma not_hidden:
  assumes p: "place st U s cs" and c: "valid_name c" and "\<not> hidden_link st s cs c"
  shows "\<not> is_link_at s (U @ cs @ [c])"
proof
  assume l: "is_link_at s (U @ cs @ [c])"
  then obtain n where n: "look s ((U @ cs) @ [c]) = Some n" "is_link (u_body n)"
    by (auto simp: is_link_at_def split: option.splits)
  then show False
    using assms(3) lstat_known [OF place_wf [OF p] n(1)] by (simp add: hidden_link_def place_name [OF p c])
qed

lemma create_handle:
  assumes p: "place st U s cs" and c: "valid_name c" and nl: "\<not> is_link_at s (U @ cs @ [c])"
    and run: "fuse_create lib st (of_comps cs) c flags mode s = (Inr (e, fh), t)"
  shows "fh = Loopback (U @ cs @ [c])"
proof -
  obtain r1 s1 where one: "os_mkdir_all (upper_path st (of_comps cs)) 0x1ED s = (r1, s1)" by force
  obtain r2 s2 where two: "clear_whiteout st (of_comps cs) c s1 = (r2, s2)" by force
  have t1: "tame st U s s1" by (rule tame_mkdir_all [OF p one])
  have t2: "tame st U s s2" by (rule tame_trans [OF t1 tame_clear_whiteout [OF place_tame [OF p t1] c two]])
  note p2 = place_tame [OF p t2]
  obtain u where op: "open_loopback lib (abs_of ((U @ cs) @ [c])) (flags OR O_CREAT) (mode AND 0xFFF) s2 = (Inr fh, u)"
    using run mounted_writable [OF place_mounted [OF p]] c one two
    by (auto simp: fuse_create_def place_name [OF p c] Let_def split: sum.splits prod.splits)
  then obtain q where q: "sys_open (abs_of ((U @ cs) @ [c])) ((flags OR O_CREAT) AND NOT (O_APPEND OR FMODE_EXEC))
      (mode AND 0xFFF) s2 = (Inr q, u)" "fh = Loopback q"
    by (auto simp: open_loopback_def split: sum.splits prod.splits)
  have "q = (U @ cs) @ [c]"
    by (rule open_result [OF _ _ _ q(1)])
      (use place_full [OF p] place_link_free [OF p2] tame_link [OF t2 nl] c in simp_all)
  then show ?thesis using q(2) by simp
qed

lemma kept_file_change:
  assumes m: "mounted st U s" and q: "strict_prefix U q" and ch: "file_change q s t"
  shows "kept st U s t"
proof -
  obtain cs where cs: "q = U @ cs" "cs \<noteq> []" using q by (auto simp: strict_prefix_def prefix_def)
  show ?thesis
    using kept_only_at [OF m, of cs t] ch mounted_wf [OF m] cs by (simp add: file_change_def)
qed

lemma known_cases:
  assumes "mounted st U s" and "known st s p"
  obtains cs c where "p = cs @ [c]" "place st U s cs" "valid_name c" "exists_pi (stat st s (of_comps (cs @ [c])))"
  using assms reached_place [OF assms(1)] that [of "butlast p" "last p"] by (auto simp: known_def)

text \<open>The mount and the open files, for one request.\<close>

definition served :: "fuse_state \<Rightarrow> path \<Rightarrow> os \<Rightarrow> os \<times> path list \<Rightarrow> bool" where
  "served st U s0 S \<longleftrightarrow> kept st U s0 (fst S) \<and> (\<forall>q \<in> set (snd S). strict_prefix U q)"

lemma answer_iff: "answer f rs = (r, t) \<longleftrightarrow> (\<exists>r1. rs = (r1, t) \<and> r = map_sum id f r1)"
  by (cases rs) (auto simp: answer_def)

lemma opened_none [simp]: "opened (map_sum id (\<lambda>_. None) r) = []"
  by (cases r) simp_all

lemma request_open:
  assumes m: "mounted st U s" and ok: "sent st s fs (Open p flags)"
    and run: "fuse_do lib st (Open p flags) s = (r, t)"
  shows "kept st U s t \<and> (\<forall>q \<in> set (opened r). strict_prefix U q)"
proof -
  have kn: "known st s p" and nl: "\<not> is_link_pi (stat st s (of_comps p))" using ok by simp_all
  obtain cs c where p: "p = cs @ [c]" "place st U s cs" "valid_name c" by (rule known_cases [OF m kn])
  obtain r1 where r1: "fuse_open lib st (of_comps (cs @ [c])) flags s = (r1, t)" "r = map_sum id Some r1"
    using run p(1) by (auto simp: answer_iff)
  note k = kept_open [OF p(2,3) nl [unfolded p(1)] r1(1)]
  show ?thesis
  proof (cases r1)
    case (Inr h)
    then show ?thesis using k r1(2) by (cases h) (auto simp: strict_prefix_def)
  qed (use k(1) r1(2) in simp)
qed

lemma request_setattr:
  assumes m: "mounted st U s" and law: "file_law lib" and fs: "\<forall>q \<in> set fs. strict_prefix U q"
    and ok: "sent st s fs (Setattr p fh inp)" and run: "fuse_setattr lib st (of_comps p) fh inp s = (r, t)"
  shows "kept st U s t"
proof (cases "\<exists>q. fh = Some (Loopback q)")
  case True
  then obtain q where q: "fh = Some (Loopback q)" by blast
  then have "t = snd (fl_fsetattr lib q inp s)" using run by (simp add: fuse_setattr_def)
  then have "file_change q s t" using law by (simp add: file_law_def)
  moreover have "strict_prefix U q" using fs ok q by auto
  ultimately show ?thesis using kept_file_change [OF m] by blast
next
  case False
  then have ok': "p = [] \<or> known st s p \<and>
      (\<not> is_link_pi (stat st s (of_comps p)) \<or> in_mode inp = None \<and> in_size inp = None)"
    using ok by (auto split: option.splits handle.splits)
  have fh: "\<And>q. fh \<noteq> Some (Loopback q)" using False by blast
  show ?thesis
  proof (cases "p = []")
    case True
    then show ?thesis using kept_setattr_top [OF m fh] run by (simp add: of_comps_def)
  next
    case False
    then have kn: "known st s p" and nl: "\<not> is_link_pi (stat st s (of_comps p)) \<or> in_mode inp = None \<and> in_size inp = None"
      using ok' by blast+
    obtain cs c where p: "p = cs @ [c]" "place st U s cs" "valid_name c" "exists_pi (stat st s (of_comps (cs @ [c])))"
      by (rule known_cases [OF m kn])
    show ?thesis by (rule kept_setattr [OF p(2-4) nl [unfolded p(1)] fh run [unfolded p(1)]])
  qed
qed

lemma request_create:
  assumes p: "place st U s p" and nh: "\<not> hidden_link st s p name"
    and run: "fuse_create lib st (of_comps p) name flags mode s = (r, t)"
  shows "kept st U s t" and "r = Inr (e, fh) \<Longrightarrow> fh = Loopback (U @ p @ [name])"
proof -
  have "kept st U s t \<and> (r = Inr (e, fh) \<longrightarrow> fh = Loopback (U @ p @ [name]))"
  proof (cases "valid_name name")
    case True
    note nl = not_hidden [OF p True nh]
    show ?thesis using kept_create(1) [OF p nl run] create_handle [OF p True nl] run by blast
  qed (use run kept_refl [OF place_mounted [OF p]] in \<open>auto simp: fuse_create_def\<close>)
  then show "kept st U s t" "r = Inr (e, fh) \<Longrightarrow> fh = Loopback (U @ p @ [name])" by blast+
qed

lemma request_make:
  assumes p: "place st U s p" and nh: "\<not> hidden_link st s p name"
  shows "fuse_mkdir lib st (of_comps p) name mode s = (r, t) \<Longrightarrow> kept st U s t"
    and "fuse_symlink lib st (of_comps p) target name s = (r', t) \<Longrightarrow> kept st U s t"
  using kept_create(2,3) [OF p not_hidden [OF p _ nh]] kept_refl [OF place_mounted [OF p]]
  by (cases "valid_name name"; auto simp: fuse_mkdir_def [of _ _ _ name] fuse_symlink_def [of _ _ _ _ name])+

lemma kept_request:
  assumes m: "mounted st U s" and law: "file_law lib" and fs: "\<forall>q \<in> set fs. strict_prefix U q"
    and ok: "sent st s fs op" and run: "fuse_do lib st op s = (r, t)"
  shows "kept st U s t \<and> (\<forall>q \<in> set (opened r). strict_prefix U q)"
proof (cases op)
  case (Open p flags)
  then show ?thesis using request_open [OF m] ok run by blast
next
  case (Setattr p fh inp)
  then show ?thesis using request_setattr [OF m law fs] ok run by (auto simp: answer_iff)
next
  case (Create p name flags mode)
  have p: "place st U s p" using reached_place [OF m] ok Create by simp
  obtain r1 where r1: "fuse_create lib st (of_comps p) name flags mode s = (r1, t)" "r = map_sum id (Some \<circ> snd) r1"
    using run Create by (auto simp: answer_iff)
  note k = request_create [OF p _ r1(1)]
  show ?thesis using k ok Create r1(2) by (cases r1) (auto simp: strict_prefix_def)
next
  case (Mkdir p name mode)
  then show ?thesis using request_make(1) [OF reached_place [OF m]] ok run by (auto simp: answer_iff)
next
  case (Symlink p target name)
  then show ?thesis using request_make(2) [OF reached_place [OF m]] ok run by (auto simp: answer_iff)
next
  case (Remove p name dir)
  then show ?thesis
    using kept_remove_op [OF reached_place [OF m]] ok run
    by (cases dir) (auto simp: answer_iff fuse_rmdir_def fuse_unlink_def)
next
  case (Rename p name other q new_name flags)
  then show ?thesis
    using kept_rename [OF reached_place [OF m] reached_place [OF m]] ok run by (auto simp: answer_iff)
qed

text \<open>The system of a mount that starts on the host \<open>s0\<close>.\<close>

definition mount_start :: "fuse_lib \<Rightarrow> fuse_state \<Rightarrow> path \<Rightarrow> os \<Rightarrow> os \<times> path list \<Rightarrow> bool" where
  "mount_start lib st U s0 S \<longleftrightarrow> file_law lib \<and> mounted st U s0 \<and> S = (s0, [])"

interpretation mount_system: invariant_system "mount_start lib st U s0" "mount_step lib st"
    "\<lambda>S. file_law lib \<and> served st U s0 S" for lib st U s0
proof
  fix S ev T
  assume inv: "file_law lib \<and> served st U s0 S" and step: "mount_step lib st S ev T"
  have m: "mounted st U (fst S)" using inv by (simp add: served_def kept_def)
  show "file_law lib \<and> served st U s0 T"
    using step
  proof (cases rule: mount_step.cases)
    case (request s fs op r t)
    have k: "kept st U s t \<and> (\<forall>q \<in> set (opened r). strict_prefix U q)"
      by (rule kept_request [of st U s lib fs op]) (use request inv m in \<open>simp_all add: served_def\<close>)
    have "kept st U s0 t" using inv kept_trans conjunct1 [OF k] unfolding served_def request(1) fst_conv by blast
    then show ?thesis using k inv by (auto simp: served_def request)
  next
    case (file_io q fs s t)
    have "kept st U s t"
      by (rule kept_file_change [of st U s q]) (use file_io inv m in \<open>auto simp: served_def\<close>)
    then have "kept st U s0 t" using inv kept_trans unfolding served_def file_io(1) fst_conv by blast
    then show ?thesis using inv by (simp add: served_def file_io)
  qed
qed (auto simp: mount_start_def served_def kept_refl)

section \<open>Relations that every call keeps\<close>

context mount_closed
begin

lemma after_fuse_do:
  assumes io: "\<And>q inp s r t. fl_fsetattr lib q inp s = (r, t) \<Longrightarrow> R s t" and run: "fuse_do lib st op s = (r, t)"
  shows "R s t"
proof (cases op)
  case (Setattr p fh inp)
  then obtain r1 where "fuse_setattr lib st (of_comps p) fh inp s = (r1, t)" using run by (auto simp: answer_iff)
  then show ?thesis by (rule after_fuse_setattr [rotated]) (rule io)
next
  case (Remove p name dir)
  then obtain r1 where "fuse_remove lib st (of_comps p) name dir s = (r1, t)"
    using run by (cases dir) (auto simp: answer_iff fuse_rmdir_def fuse_unlink_def)
  then show ?thesis by (rule after_fuse_remove)
next
  case (Open p flags)
  then show ?thesis using run after_fuse_open by (auto simp: answer_iff)
next
  case (Rename p name other q new_name flags)
  then show ?thesis using run after_fuse_rename by (auto simp: answer_iff)
qed (use run in \<open>auto simp: answer_iff dest!: makesI after_makes\<close>)

end

section \<open>Any request keeps the tree well formed\<close>

lemma is_abs_head: "is_abs p \<longleftrightarrow> (\<exists>q. p = slash # q)"
  by (cases p) (auto simp: is_abs_def sep_def slash_def)

lemma is_abs_clean: "is_abs p \<Longrightarrow> is_abs (path_clean p)"
  by (simp add: path_clean_def is_abs_def [of "sep @ _"])

lemma is_abs_join: "is_abs u \<Longrightarrow> is_abs (path_join [u, p])"
proof -
  assume u: "is_abs u"
  then have ne: "u \<noteq> ''''" by (auto simp: is_abs_head)
  have "is_abs (join_with sep (filter (\<lambda>e. e \<noteq> '''') [u, p]))"
    using u ne by (auto simp: is_abs_head)
  then show ?thesis using ne by (auto simp: path_join_def Let_def intro: is_abs_clean)
qed

lemma is_abs_dir: "is_abs p \<Longrightarrow> is_abs (path_dir p)"
proof -
  assume "is_abs p"
  then obtain q where q: "p = slash # q" by (auto simp: is_abs_head)
  then obtain i where i: "last_index slash p = Some i" by (cases "last_index slash p") (auto split: option.splits)
  have "is_abs (take (Suc i) p)" by (simp add: q is_abs_head)
  then show ?thesis by (simp add: path_dir_def i is_abs_clean)
qed

text \<open>The calls, on paths below an absolute upper directory.\<close>

definition tree_kept :: "os \<Rightarrow> os \<Rightarrow> bool" where
  "tree_kept s t \<longleftrightarrow> (wf_os s \<longrightarrow> wf_os t)"

lemma tree_kept_refl [simp]: "tree_kept s s"
  by (simp add: tree_kept_def)

lemma tree_kept_trans: "tree_kept s t \<Longrightarrow> tree_kept t u \<Longrightarrow> tree_kept s u"
  by (simp add: tree_kept_def)

lemma keeps_tree: "keeps_wf f \<Longrightarrow> f s = (r, t) \<Longrightarrow> tree_kept s t"
  by (auto simp: tree_kept_def dest: keeps_wfD)

lemma upper_abs: "is_abs (fs_upper st) \<Longrightarrow> is_abs (upper_path st p)"
  by (simp add: upper_path_def is_abs_join)

text \<open>The interface of the operations, for the relation that holds of relative upper directories anyway.\<close>

interpretation tree: mount_closed "\<lambda>p. is_abs (fs_upper st) \<longrightarrow> is_abs p"
    "\<lambda>s t. is_abs (fs_upper st) \<longrightarrow> tree_kept s t" st for st
proof (unfold_locales; (intro impI)?)
  fix s t u :: os
  show "tree_kept s s" by simp
  show "tree_kept s u"
    if "is_abs (fs_upper st) \<longrightarrow> tree_kept s t" "is_abs (fs_upper st) \<longrightarrow> tree_kept t u" "is_abs (fs_upper st)"
    using that tree_kept_trans by blast
qed (auto intro: keeps_tree [OF keeps_wf_mkdir_all] keeps_tree [OF keeps_wf_open] keeps_tree [OF keeps_wf_remove]
    keeps_tree [OF keeps_wf_write] keeps_tree [OF keeps_wf_close] keeps_tree [OF keeps_wf_mkdir]
    keeps_tree [OF keeps_wf_symlink] keeps_tree [OF keeps_wf_rename] keeps_tree [OF keeps_wf_update]
    simp: upper_abs is_abs_dir steady_def)

lemma after_request:
  assumes u: "is_abs (fs_upper st)" and law: "file_law lib" and run: "fuse_do lib st op s = (r, t)"
  shows "tree_kept s t"
proof -
  have "is_abs (fs_upper st) \<longrightarrow> tree_kept s t" if "fl_fsetattr lib q inp s = (r, t)" for q inp s r t
    using law [unfolded file_law_def, rule_format, of q s inp] that by (simp add: file_change_def tree_kept_def)
  from tree.after_fuse_do [OF this run] u show ?thesis by simp
qed

section \<open>Properties of a mount in use\<close>

text \<open>C3: requests of the kernel that meet no link hidden by a whiteout, in whatever order and with
  whatever errors of the host, and whatever is written to open files, change nothing outside the upper
  directory; the mount stays a mount and opens files of the upper directory only. Clients that use no
  whiteout names never make a request that meets a hidden link (\<open>mount_stays_tidy\<close>); with such names
  they can, and leave the upper directory (\<open>whiteout_name_escapes\<close>).\<close>

theorem mount_contained:
  assumes "reachable (mount_start lib st U s0) (mount_step lib st) (s, fs)"
  shows "mounted st U s \<and> (\<forall>k. \<not> prefix U k \<longrightarrow> look s k = look s0 k) \<and> (\<forall>q \<in> set fs. strict_prefix U q)"
  using mount_system.reachable_inv [OF assms] by (auto simp: served_def kept_def outside_same_def)

text \<open>Requests one after the other, each of which the kernel may send.\<close>

fun run_requests :: "fuse_lib \<Rightarrow> fuse_state \<Rightarrow> os \<times> path list \<Rightarrow> fuse_op list \<Rightarrow> (os \<times> path list) option" where
  "run_requests lib st S [] = Some S"
| "run_requests lib st (s, fs) (op # ops) =
     (if sent st s fs op
      then (case fuse_do lib st op s of (r, t) \<Rightarrow> run_requests lib st (t, opened r @ fs) ops)
      else None)"

lemma run_requests_reachable:
  "reachable start (mount_step lib st) S \<Longrightarrow> run_requests lib st S ops = Some T \<Longrightarrow>
     reachable start (mount_step lib st) T"
proof (induction lib st S ops rule: run_requests.induct)
  case (2 lib st s fs op ops)
  obtain r t where rt: "fuse_do lib st op s = (r, t)" by force
  have ok: "sent st s fs op" using "2.prems"(2) by (simp split: if_splits)
  have "reachable start (mount_step lib st) (t, opened r @ fs)"
    by (rule reach_step [OF "2.prems"(1) mount_step.request [OF ok rt]])
  then show ?case using "2.IH" [OF ok rt [symmetric]] "2.prems"(2) ok rt by simp
qed simp

text \<open>A host with a file outside the upper directory, and a session on the mount.\<close>

definition shared_host :: os where
  "shared_host = host_with [([''v''], text_file)]"

definition demo_session :: "fuse_op list" where
  "demo_session =
     [Mkdir [] ''n'' 0x1ED, Create [''n''] ''a'' O_WRONLY 0x1A4, Symlink [''n''] ''/v'' ''l'',
      Remove [''d''] ''g'' False, Rename [''n''] ''a'' False [''d''] ''g'' 0, Open [''d'', ''f''] O_RDWR,
      Setattr [''d'', ''f''] None \<lparr>in_mode = Some 0x180, in_uid = None, in_gid = None, in_mtime = None,
        in_atime = None, in_size = Some 2\<rparr>]"

definition demo_session_end :: "(os \<times> path list) option" where
  "demo_session_end = run_requests demo_lib demo_state (shared_host, []) demo_session"

lemma demo_start: "mount_start demo_lib demo_state [''u''] shared_host (shared_host, [])"
proof -
  have "wf_os shared_host" by (rule wf_osI_list) code_simp+
  moreover have "fs_upper demo_state = abs_of [''u'']" "valid_path [''u'']" "is_dir_at shared_host [''u'']" by code_simp+
  ultimately show ?thesis
    by (simp add: mount_start_def mounted_def file_law_def file_change_def demo_lib_def)
qed

theorem mount_contained_witness:
  "\<exists>s fs. demo_session_end = Some (s, fs) \<and> length fs = 2 \<and> look s [''v''] = look shared_host [''v'']"
proof -
  have d: "demo_session_end \<noteq> None" "length (snd (the demo_session_end)) = 2" by code_simp+
  obtain s fs where e: "demo_session_end = Some (s, fs)" using d(1) by auto
  then have "the demo_session_end = (s, fs)" by (rule ssubst) (rule option.sel)
  then have n: "length fs = 2" using d(2) by (metis snd_conv)
  have "reachable (mount_start demo_lib demo_state [''u''] shared_host) (mount_step demo_lib demo_state) (s, fs)"
    by (rule run_requests_reachable [OF reach_start [of "mount_start demo_lib demo_state [''u''] shared_host", OF demo_start] e [unfolded demo_session_end_def]])
  from mount_contained [OF this] have "look s [''v''] = look shared_host [''v'']" by simp
  then show ?thesis using e n by blast
qed

text \<open>Every request, whether the kernel would send it or not, keeps the host's tree well formed: one root
  directory, every other node under a valid name in a directory, whatever the outcome.\<close>

theorem requests_keep_tree:
  assumes "fuse_do lib st op s = (r, t)" and "is_abs (fs_upper st)" and "file_law lib" and "wf_os s"
  shows "wf_os t"
  using after_request [OF assms(2,3,1)] assms(4) by (simp add: tree_kept_def)

theorem requests_keep_tree_witness:
  "wf_os (snd (fuse_do demo_lib demo_state (Rename [''d''] ''f'' False [''e'', ''f''] ''x'' 0) shared_host))"
proof -
  have "is_abs (fs_upper demo_state)" by code_simp
  moreover have "file_law demo_lib" "wf_os shared_host"
    using demo_start by (simp_all add: mount_start_def mounted_def)
  ultimately show ?thesis by (rule requests_keep_tree [OF prod.collapse [symmetric]])
qed

text \<open>Names with the whiteout prefix are ordinary names for \<open>Create\<close>: a client makes a link, hides it
  with a whiteout of its own, and creates the name again. The kernel found no such name, and the
  host follows the link out of the upper directory and empties the file there.\<close>

definition hide_link :: "fuse_op list" where
  "hide_link = [Symlink [] ''/v'' ''x'', Create [] ''.wh.x'' O_WRONLY 0x1A4]"

theorem whiteout_name_escapes:
  "\<exists>s fs. run_requests demo_lib demo_state (shared_host, []) hide_link = Some (s, fs) \<and>
     fuse_lookup demo_lib demo_state '''' ''x'' s = Inl ENOENT \<and>
     map_option u_body (look s [''v'']) = Some (BReg ''new'') \<and>
     map_option u_body (look (snd (fuse_create demo_lib demo_state '''' ''x'' (O_WRONLY OR O_TRUNC) 0x1A4 s)) [''v'']) =
       Some (BReg '''')"
proof -
  let ?S = "run_requests demo_lib demo_state (shared_host, []) hide_link"
  have ok: "?S \<noteq> None" "fuse_lookup demo_lib demo_state '''' ''x'' (fst (the ?S)) = Inl ENOENT"
    "map_option u_body (look (fst (the ?S)) [''v'']) = Some (BReg ''new'')"
    "map_option u_body (look (snd (fuse_create demo_lib demo_state '''' ''x'' (O_WRONLY OR O_TRUNC) 0x1A4
       (fst (the ?S)))) [''v'']) = Some (BReg '''')"
    by code_simp+
  obtain s fs where "?S = Some (s, fs)" using ok(1) by auto
  then show ?thesis using ok(2-4) by (intro exI [of _ s] exI [of _ fs]) simp
qed

end
