(* ===== verification/MountProps.thy ===== *)
theory MountProps
  imports MountSteps
begin

text \<open>
  What a client of a mount can rely on: reading committed files through the mount, and what becomes
  of a directory whose committed entries were all deleted.
\<close>

section \<open>Reading committed files\<close>

text \<open>C10: on a mount, a file that was committed and not changed since can be opened for reading, and
  a read returns exactly the committed bytes of the range, whatever happened on the mount since.\<close>

theorem mount_reads_commit:
  assumes "mounted st U s" and "valid_path cs" and "valid_name c" and "plain s (U @ cs)"
    and "fs_lower st = Some (build_tree store bs files)" and "view_of files (cs @ [c]) = Some (VLeaf f)"
    and "stored store bs f content"
    and "look s (U @ cs @ [c]) = None" and "look s (U @ cs @ [whiteout_prefix @ c]) = None"
    and "flags AND O_ACCMODE = O_RDONLY" and "0 \<le> off" and "off + len < 2 ^ 63"
  shows "\<exists>n. fuse_open lib st (of_comps (cs @ [c])) flags s = (Inr (LowerFile n), s) \<and>
    (\<forall>t. fuse_read lib st (Some (LowerFile n)) off len t = Inr (take (nat len) (drop (nat off) content)))"
proof -
  obtain n where n: "lower_node st (of_comps (cs @ [c])) = Some n"
    "read_at (build_tree store bs files) n off len = Inr (take (nat len) (drop (nat off) content))"
    using lower_leaf_reads [OF assms(5,6), of content] assms by auto
  have "stat st s (of_comps (cs @ [c])) = \<lparr>pi_lower = Some n, pi_upper = None\<rparr>"
    using stat_entry [OF assms(1-4)] assms(8,9) n(1) by (simp add: entry_def)
  then have "fuse_open lib st (of_comps (cs @ [c])) flags s = (Inr (LowerFile n), s)"
    using assms(10) by (simp add: fuse_open_def Let_def exists_pi_def)
  moreover have "fuse_read lib st (Some (LowerFile n)) off len t = Inr (take (nat len) (drop (nat off) content))" for t
    using n(2) assms(5) by (simp add: fuse_read_def lower_read_def)
  ultimately show ?thesis by blast
qed

theorem mount_reads_commit_witness:
  "\<exists>n. fuse_open demo_lib demo_state ''d/f'' 0 (host_with []) = (Inr (LowerFile n), host_with []) \<and>
     fuse_read demo_lib demo_state (Some (LowerFile n)) 2 100 demo_host = Inr ''cdef''"
proof -
  have n: "look (host_with []) ([''u''] @ [''d''] @ [''f'']) = None"
    "look (host_with []) ([''u''] @ [''d''] @ [whiteout_prefix @ ''f'']) = None" by code_simp+
  have f: "view_of [demo_file, file_at ''d/g'', dir_at ''e'' 0x1C0] ([''d''] @ [''f'']) = Some (VLeaf demo_file)"
    by code_simp
  have l: "fs_lower demo_state = Some (build_tree demo_store 4 [demo_file, file_at ''d/g'', dir_at ''e'' 0x1C0])"
    by (simp add: demo_state_def demo_tree_def)
  have k: "stored demo_store 4 demo_file ''abcdef''" by code_simp
  have "way (host_with []) ([''u''] @ [''d''])" by code_simp
  from mount_reads_commit [OF fresh_mounted demo_paths(12,8) way_plain [OF this] l f k n, of 0 2 100 demo_lib]
  show ?thesis by (auto simp: demo_paths O_ACCMODE_def O_RDONLY_def)
qed

section \<open>Directories with whiteouts\<close>

text \<open>A directory that holds anything in the upper directory cannot be removed, be it only the
  whiteouts of the files that were deleted from it: the host refuses the removal.\<close>

theorem rmdir_blocked:
  assumes "mounted st U s" and "valid_path cs" and "valid_name c" and "plain s (U @ cs)"
    and "look s (U @ cs @ [c] @ [x]) \<noteq> None"
  shows "fuse_rmdir lib st (of_comps cs) c s \<noteq> (Inr (), s')"
proof
  assume "fuse_rmdir lib st (of_comps cs) c s = (Inr (), s')"
  then have run: "fuse_remove lib st (of_comps cs) c True s = (Inr (), s')" by (simp add: fuse_rmdir_def)
  from remove_success [OF assms(1-4) run]
  have m': "mounted st U s'" and gone: "look s' (U @ cs @ [c]) = None"
    and ch: "\<And>k. k \<noteq> U @ cs @ [c] \<Longrightarrow> k \<noteq> U @ cs @ [wh c] \<Longrightarrow> made_dirs s (U @ cs) s' k"
    by (elim conjE; simp)+
  have "made_dirs s (U @ cs) s' (U @ cs @ [c] @ [x])" by (rule ch) simp_all
  then have "look s' ((U @ cs @ [c]) @ [x]) \<noteq> None" using assms(5) by (auto simp: made_dirs_def)
  from known_parent [OF mounted_wf [OF m'] this] show False using gone by (simp add: is_dir_at_def)
qed

text \<open>The upper directory after the two committed files of \<open>d\<close> were deleted: the directory is empty
  for the clients, and stays.\<close>

definition emptied_host :: os where
  "emptied_host = host_with [([''u'', ''d''], plain_dir),
     ([''u'', ''d'', ''.wh.f''], text_file\<lparr>u_body := BReg []\<rparr>),
     ([''u'', ''d'', ''.wh.g''], text_file\<lparr>u_body := BReg []\<rparr>)]"

theorem rmdir_blocked_witness:
  "dir_entries demo_lib demo_state emptied_host ''d'' = Inr [] \<and>
   fst (fuse_rmdir demo_lib demo_state '''' ''d'' emptied_host) \<noteq> Inr ()"
proof -
  have "wf_os emptied_host" by (rule wf_osI_list) code_simp+
  then have m: "mounted demo_state [''u''] emptied_host" by (rule mounted_list) code_simp+
  have "plain emptied_host ([''u''] @ [])" using mounted_plain [OF m] by simp
  moreover have "look emptied_host ([''u''] @ [] @ [''d''] @ [''.wh.f'']) \<noteq> None" by code_simp
  ultimately have "fuse_rmdir demo_lib demo_state (of_comps []) ''d'' emptied_host \<noteq> (Inr (), s')" for s'
    using rmdir_blocked [OF m demo_paths(13) demo_paths(7)] by blast
  then have "fst (fuse_rmdir demo_lib demo_state '''' ''d'' emptied_host) \<noteq> Inr ()"
    by (metis demo_paths(5) prod.collapse)
  moreover have "dir_entries demo_lib demo_state emptied_host ''d'' = Inr []" by code_simp
  ultimately show ?thesis by blast
qed

end
