(* ===== verification/UpperLayer.thy ===== *)
theory UpperLayer
  imports MountSteps PathGuard
begin

text \<open>
  The upper directory of a mount as a layer: committed as it is and stacked on the layers below, it
  gives the view of the mount. The whiteout files that fuse.go leaves behind mean to
  \<open>buildMergedTreeFromRepos\<close> (tree.go) what they mean to the mount. How a directory is committed is
  the business of the fvs2 repository package; the theory only says what the commit lists.
\<close>

section \<open>Relative paths as strings\<close>

lemma of_comps_snoc: "of_comps (cs @ [c]) = (if cs = [] then c else of_comps cs @ slash # c)"
  by (simp add: of_comps_def join_with_append sep_slash)

lemma of_comps_one [simp]: "of_comps [c] = c"
  by (simp add: of_comps_def)

lemma valid_nameD: "valid_name c \<Longrightarrow> c \<noteq> [] \<and> slash \<notin> set c \<and> hd c \<noteq> slash \<and> last c \<noteq> slash"
  unfolding valid_name_def by (metis hd_in_set last_in_set)

lemma of_comps_ends:
  "valid_path cs \<Longrightarrow> cs \<noteq> [] \<Longrightarrow> of_comps cs \<noteq> [] \<and> hd (of_comps cs) \<noteq> slash \<and> last (of_comps cs) \<noteq> slash"
proof (induction cs rule: rev_induct)
  case (snoc c cs)
  then have c: "c \<noteq> []" "hd c \<noteq> slash" "last c \<noteq> slash" using valid_nameD by auto
  then show ?case
    using snoc by (cases "cs = []") (auto simp: of_comps_snoc)
qed simp

lemma trim_ends: "s \<noteq> [] \<Longrightarrow> hd s \<noteq> c \<Longrightarrow> last s \<noteq> c \<Longrightarrow> trim_char c s = s"
proof -
  assume s: "s \<noteq> []" "hd s \<noteq> c" "last s \<noteq> c"
  have "dropWhile (\<lambda>x. x = c) s = s" using s by (cases s) auto
  moreover have "dropWhile (\<lambda>x. x = c) (rev s) = rev s" using s by (cases s rule: rev_cases) auto
  ultimately show ?thesis by (simp add: trim_char_def)
qed

lemma path_clean_of_comps:
  assumes "valid_path cs" and "cs \<noteq> []"
  shows "path_clean (of_comps cs) = of_comps cs" and "path_clean (of_comps cs @ [slash]) = of_comps cs"
    and "path_clean (''.'' @ sep @ of_comps cs) = of_comps cs"
proof -
  note e = of_comps_ends [OF assms]
  have "comps (of_comps cs) = cs" by (rule comps_of_comps [OF assms(1)])
  then have s: "split_on slash (of_comps cs) = cs" using e by (simp add: comps_def)
  obtain x t where x: "of_comps cs = x # t" "x \<noteq> slash" using e by (cases "of_comps cs") auto
  then have a: "\<not> is_abs (of_comps cs)" "\<not> is_abs (of_comps cs @ [slash])"
    by (simp_all add: is_abs_def sep_slash)
  have a': "\<not> is_abs (''.'' @ sep @ of_comps cs)" by (simp add: is_abs_def sep_def)
  have s1: "split_on slash (of_comps cs @ [slash]) = cs @ [[]]"
    using split_on_append_sep [of slash "of_comps cs" "[]"] s by simp
  have s2: "split_on slash (''.'' @ sep @ of_comps cs) = ''.'' # cs"
    using split_on_append_sep [of slash "''.''" "of_comps cs"] s by (simp add: sep_slash slash_def)
  have k: "clean_comps False [] cs = cs" by (simp only: clean_comps_valid [OF assms(1)] append_Nil)
  have k1: "clean_comps False [] (cs @ [[]]) = cs" by (simp add: clean_comps_append k)
  have k2: "clean_comps False [] (''.'' # cs) = cs" by (simp add: k)
  show "path_clean (of_comps cs) = of_comps cs"
    by (simp only: path_clean_def Let_def s a(1) k if_False assms(2) of_comps_def [symmetric])
  show "path_clean (of_comps cs @ [slash]) = of_comps cs"
    by (simp only: path_clean_def Let_def s1 a(2) k1 if_False assms(2) of_comps_def [symmetric])
  show "path_clean (''.'' @ sep @ of_comps cs) = of_comps cs"
    by (simp only: path_clean_def Let_def s2 a' k2 if_False assms(2) of_comps_def [symmetric])
qed

lemma path_base_of_comps:
  assumes "valid_name c"
  shows "path_base (of_comps (cs @ [c])) = c"
proof -
  note c = valid_nameD [OF assms]
  have d: "dropWhile (\<lambda>x. x = slash) (rev (d @ c)) = rev (d @ c)" for d
    using c by (cases "rev c") (auto simp: hd_rev [symmetric])
  have "of_comps (cs @ [c]) = (if cs = [] then [] else of_comps cs @ [slash]) @ c" by (simp add: of_comps_snoc)
  then obtain e where e: "of_comps (cs @ [c]) = e @ c" "e = [] \<or> (\<exists>e'. e = e' @ [slash])" by metis
  have "(case last_index slash (e @ c) of None \<Rightarrow> e @ c | Some i \<Rightarrow> drop (Suc i) (e @ c)) = c"
    using e(2) c by (auto simp: last_index_snoc last_index_notin)
  moreover have r: "rev (dropWhile (\<lambda>x. x = slash) (rev (e @ c))) = e @ c" using d [of e] by simp
  ultimately show ?thesis using c unfolding path_base_def e(1) Let_def r by simp
qed

lemma path_dir_of_comps:
  assumes "valid_path cs" and "valid_name c"
  shows "trim_char slash (path_dir (of_comps (cs @ [c]))) = (if cs = [] then ''.'' else of_comps cs)"
proof (cases "cs = []")
  case True
  have "path_dir c = path_clean ''''" using valid_nameD [OF assms(2)] by (simp add: path_dir_def last_index_notin)
  also have "\<dots> = ''.''" by code_simp
  finally have "path_dir c = ''.''" .
  moreover have "trim_char slash ''.'' = ''.''" by code_simp
  ultimately show ?thesis using True by (simp add: of_comps_snoc)
next
  case False
  have "path_dir (of_comps (cs @ [c])) = path_clean (of_comps cs @ [slash])"
    using False valid_nameD [OF assms(2)] by (simp add: path_dir_def of_comps_snoc last_index_snoc)
  then show ?thesis
    using False path_clean_of_comps(2) [OF assms(1)] trim_ends of_comps_ends [OF assms(1)] by simp
qed

lemma target_of_comps:
  assumes "valid_path cs" and "valid_name c"
  shows "trim_char slash (path_join [if cs = [] then ''.'' else of_comps cs, c]) = of_comps (cs @ [c])"
proof -
  have v: "valid_path (cs @ [c])" "cs @ [c] \<noteq> []" using assms by simp_all
  have j: "(if cs = [] then ''.'' else of_comps cs) @ sep @ c =
      (if cs = [] then ''.'' @ sep @ of_comps (cs @ [c]) else of_comps (cs @ [c]))"
    by (simp add: of_comps_snoc sep_slash)
  have "(if cs = [] then ''.'' else of_comps cs) \<noteq> ''''" "c \<noteq> ''''"
    using of_comps_ends [OF assms(1)] valid_nameD [OF assms(2)] by auto
  then have "path_join [if cs = [] then ''.'' else of_comps cs, c] =
      path_clean ((if cs = [] then ''.'' else of_comps cs) @ sep @ c)"
    by (simp add: path_join_def Let_def)
  also have "\<dots> = of_comps (cs @ [c])"
    unfolding j using path_clean_of_comps(1,3) [OF v] by (cases "cs = []") (simp_all del: of_comps_one append_Nil)
  finally show ?thesis using trim_ends of_comps_ends [OF v] by simp
qed

lemma doomed_of_comps:
  assumes "valid_path p" and "valid_path q" and "p \<noteq> []"
  shows "doomed (of_comps p) True (of_comps q) \<longleftrightarrow> prefix p q"
proof -
  have "of_comps q = of_comps p \<longleftrightarrow> q = p" using comps_of_comps assms(1,2) by metis
  moreover have "prefix (of_comps p @ sep) (of_comps q) \<longleftrightarrow> strict_prefix p q"
    unfolding of_comps_def by (rule prefix_join_with [OF assms])
  ultimately show ?thesis by (auto simp: doomed_def)
qed

text \<open>The whiteout file of a name hides, in a layer, that name and all below it.\<close>

lemma hides_whiteout:
  assumes f: "clean_path f = of_comps (ds @ [wh x])" and d: "valid_path ds" and x: "valid_name x"
    and clean: "\<not> prefix whiteout_prefix x" and q: "valid_path q"
  shows "hides f (of_comps q) \<longleftrightarrow> prefix (ds @ [x]) q"
proof -
  have w: "valid_name (wh x)" using x by (simp add: valid_name_whiteout valid_nameD)
  have no: "wh x \<noteq> opaque_name"
  proof
    assume "wh x = opaque_name"
    then have "x = ''.wh..opq''" by (simp add: opaque_name_def whiteout_prefix_def)
    then show False using clean by (simp add: whiteout_prefix_def)
  qed
  have ne: "of_comps (ds @ [wh x]) \<noteq> ''''" using w by (rule of_comps_snoc_ne)
  have "hides f (of_comps q) \<longleftrightarrow> doomed (of_comps (ds @ [x])) True (of_comps q)"
    using no ne target_of_comps [OF d x]
    by (simp add: hides_def Let_def f path_base_of_comps [OF w] path_dir_of_comps [OF d w])
  also have "\<dots> \<longleftrightarrow> prefix (ds @ [x]) q" by (rule doomed_of_comps) (use d x q in simp_all)
  finally show ?thesis .
qed


section \<open>The upper directory as a commit\<close>

text \<open>The commit of a directory lists every node that is not a directory, and nothing that is not there;
  it may list directories as well.\<close>

definition below :: "os \<Rightarrow> path \<Rightarrow> path list" where
  "below s U = map (drop (length U)) (filter (strict_prefix U) (map fst (os_nodes s)))"

definition commits :: "file_entry list \<Rightarrow> os \<Rightarrow> path \<Rightarrow> bool" where
  "commits es s U \<longleftrightarrow>
     (\<forall>f \<in> set es. comps (clean_path f) \<in> set (below s U)) \<and>
     (\<forall>q \<in> set (below s U). \<not> is_dir_at s (U @ q) \<longrightarrow> (\<exists>f \<in> set es. clean_path f = of_comps q))"

text \<open>Every whiteout in the upper directory is the one of an ordinary name, is no directory, and has no
  node beside it under that name: what the mount leaves when its clients use no whiteout names.\<close>

definition tidy :: "os \<Rightarrow> path \<Rightarrow> bool" where
  "tidy s U \<longleftrightarrow>
     (\<forall>q \<in> set (below s U). prefix whiteout_prefix (last q) \<longrightarrow>
        (let x = trim_prefix whiteout_prefix (last q) in
         valid_name x \<and> \<not> prefix whiteout_prefix x \<and> \<not> is_dir_at s (U @ q) \<and>
         look s (U @ butlast q @ [x]) = None))"

lemma look_listed: "look s k \<noteq> None \<longleftrightarrow> k \<in> set (map fst (os_nodes s))"
  by (simp add: map_of_eq_None_iff)

lemma below_iff: "q \<in> set (below s U) \<longleftrightarrow> q \<noteq> [] \<and> look s (U @ q) \<noteq> None"
proof
  assume "q \<in> set (below s U)"
  then obtain k where "strict_prefix U k" "q = drop (length U) k" "look s k \<noteq> None"
    unfolding below_def look_listed by auto
  then show "q \<noteq> [] \<and> look s (U @ q) \<noteq> None" by (auto simp: strict_prefix_def prefix_def)
next
  assume "q \<noteq> [] \<and> look s (U @ q) \<noteq> None"
  then have k: "U @ q \<in> set (filter (strict_prefix U) (map fst (os_nodes s)))"
    unfolding look_listed by (auto simp: strict_prefix_def)
  have "q = drop (length U) (U @ q)" by simp
  then show "q \<in> set (below s U)" unfolding below_def set_map using k by (rule image_eqI)
qed

lemma below_valid: "wf_os s \<Longrightarrow> q \<in> set (below s U) \<Longrightarrow> valid_path q"
  using wf_valid [of s "U @ q"] by (auto simp: below_iff)

lemma tidyD:
  assumes "tidy s U" and "look s (U @ ds @ [n]) \<noteq> None" and "prefix whiteout_prefix n"
  obtains x where "n = wh x" "valid_name x" "\<not> prefix whiteout_prefix x"
    "\<not> is_dir_at s (U @ ds @ [n])" "look s (U @ ds @ [x]) = None"
proof -
  obtain x where x: "n = wh x" using assms(3) by (auto simp: prefix_def)
  have "ds @ [n] \<in> set (below s U)" using assms(2) by (simp add: below_iff)
  then show thesis using assms(1,3) that [OF x] x by (fastforce simp: tidy_def Let_def)
qed

lemma last_entry_some: "f \<in> set es \<Longrightarrow> entry_here p f \<Longrightarrow> last_entry es p \<noteq> None"
  by (induction es) (auto split: option.splits)

lemma last_entry_in: "last_entry es p = Some f \<Longrightarrow> f \<in> set es \<and> entry_here p f"
  by (induction es) (auto split: option.splits if_splits)

text \<open>What the layer of the upper directory has at a path, and what it hides.\<close>

lemma commit_has:
  assumes c: "commits es s U" and q: "valid_path (cs @ [c])" "\<not> prefix whiteout_prefix c"
  shows "last_entry es (of_comps (cs @ [c])) = Some f \<Longrightarrow>
      f \<in> set es \<and> clean_path f = of_comps (cs @ [c]) \<and> look s (U @ cs @ [c]) \<noteq> None"
    and "look s (U @ cs @ [c]) = Some n \<Longrightarrow> u_body n \<noteq> BDir \<Longrightarrow> last_entry es (of_comps (cs @ [c])) \<noteq> None"
proof -
  assume "last_entry es (of_comps (cs @ [c])) = Some f"
  then have f: "f \<in> set es" "clean_path f = of_comps (cs @ [c])"
    using last_entry_in by (auto simp: entry_here_def)
  then have "cs @ [c] \<in> set (below s U)" using c comps_of_comps [OF q(1)] by (auto simp: commits_def)
  then show "f \<in> set es \<and> clean_path f = of_comps (cs @ [c]) \<and> look s (U @ cs @ [c]) \<noteq> None"
    using f by (simp add: below_iff)
next
  assume n: "look s (U @ cs @ [c]) = Some n" "u_body n \<noteq> BDir"
  then have "cs @ [c] \<in> set (below s U)" "\<not> is_dir_at s (U @ cs @ [c])" by (simp_all add: below_iff is_dir_at_def)
  then obtain f where f: "f \<in> set es" "clean_path f = of_comps (cs @ [c])" using c by (auto simp: commits_def)
  have "entry_here (of_comps (cs @ [c])) f"
    using f q by (simp add: entry_here_def path_base_of_comps)
  then show "last_entry es (of_comps (cs @ [c])) \<noteq> None" using f(1) by (rule last_entry_some [rotated])
qed

lemma commit_hides:
  assumes wf: "wf_os s" and c: "commits es s U" and t: "tidy s U" and q: "valid_path q"
  shows "(\<exists>f \<in> set es. hides f (of_comps q)) \<longleftrightarrow>
    (\<exists>ds x. prefix (ds @ [x]) q \<and> look s (U @ ds @ [wh x]) \<noteq> None)"
proof
  assume "\<exists>f \<in> set es. hides f (of_comps q)"
  then obtain f where f: "f \<in> set es" "hides f (of_comps q)" by blast
  then have k: "comps (clean_path f) \<in> set (below s U)" using c by (simp add: commits_def)
  then obtain ds n where dn: "comps (clean_path f) = ds @ [n]" by (cases "comps (clean_path f)" rule: rev_cases) (auto simp: below_iff)
  have p: "clean_path f = of_comps (ds @ [n])" using of_comps_comps [of "clean_path f"] dn by simp
  have v: "valid_path (ds @ [n])" using below_valid [OF wf k] dn by simp
  have "prefix whiteout_prefix n"
    using f(2) v by (simp add: hides_def Let_def p path_base_of_comps)
  then obtain x where x: "n = wh x" "valid_name x" "\<not> prefix whiteout_prefix x"
    using tidyD [OF t, of ds n] k dn by (auto simp: below_iff)
  have "prefix (ds @ [x]) q"
    using f(2) hides_whiteout [OF p [unfolded x(1)] _ x(2,3) q] v by simp
  then show "\<exists>ds x. prefix (ds @ [x]) q \<and> look s (U @ ds @ [wh x]) \<noteq> None"
    using k dn x(1) by (auto simp: below_iff)
next
  assume "\<exists>ds x. prefix (ds @ [x]) q \<and> look s (U @ ds @ [wh x]) \<noteq> None"
  then obtain ds x where dx: "prefix (ds @ [x]) q" "look s (U @ ds @ [wh x]) \<noteq> None" by blast
  have v: "valid_path ds" "valid_name x" using dx(1) q by (auto simp: prefix_def)
  obtain y where "wh x = wh y" and y: "\<not> prefix whiteout_prefix y" "\<not> is_dir_at s (U @ ds @ [wh x])"
    by (rule tidyD [OF t dx(2)]) auto
  then have x: "\<not> prefix whiteout_prefix x" by simp
  obtain f where f: "f \<in> set es" "clean_path f = of_comps (ds @ [wh x])"
    using c dx(2) y(2) by (auto simp: commits_def below_iff)
  then show "\<exists>f \<in> set es. hides f (of_comps q)"
    using hides_whiteout [OF f(2) v x q] dx(1) by blast
qed


section \<open>The layer and the mount\<close>

lemma lower_listed:
  assumes t: "build_merged_tree pkg lows override = Inr t" "apart lows" and st: "fs_lower st = Some t"
    and q: "valid_path q" and none: "lower_node st (of_comps q) = None"
  shows "layered lows (of_comps q) = None"
proof (rule ccontr)
  assume "layered lows (of_comps q) \<noteq> None"
  then have "lookup_tree_path t (of_comps q) \<noteq> None" using merged_lookup(1) [OF t] by force
  then show False
    using lower_node_path [OF st q] none q by (simp add: lookup_tree_path_comps comps_of_comps)
qed

lemma reached_prefix:
  assumes "reached st s cs" and "prefix ds cs"
  shows "reached st s ds"
proof -
  have "valid_path ds" using assms by (auto simp: reached_def prefix_def)
  moreover have "set (prefixes ds) \<subseteq> set (prefixes cs)" using assms(2) prefix_order.trans by auto
  ultimately show ?thesis using assms(1) unfolding reached_def list_all_iff by blast
qed

lemma reached_entry:
  assumes m: "mounted st U s" and r: "reached st s (ds @ [x])"
  shows "is_dir_pi (entry st s U ds x)" and "look s (U @ ds @ [wh x]) = None"
proof -
  have d: "reached st s ds" "valid_name x" using r by (simp_all add: reached_snoc)
  have pl: "place st U s ds" by (rule reached_place [OF m d(1)])
  show e: "is_dir_pi (entry st s U ds x)"
    using r stat_entry [OF m place_valid [OF pl] d(2) place_plain [OF pl]] by (simp add: reached_snoc)
  show "look s (U @ ds @ [wh x]) = None"
  proof (rule ccontr)
    assume "look s (U @ ds @ [wh x]) \<noteq> None"
    then have "entry st s U ds x = \<lparr>pi_lower = None, pi_upper = None\<rparr>" by (simp add: entry_def)
    then show False using e by (simp add: is_dir_pi_def pi_mode_def S_IFMT_def S_IFDIR_def)
  qed
qed

lemma whiteout_above:
  assumes m: "mounted st U s" and r: "reached st s cs"
    and p: "prefix (ds @ [x]) (cs @ [c])" and w: "look s (U @ ds @ [wh x]) \<noteq> None"
  shows "ds = cs \<and> x = c"
  using p reached_entry(2) [OF m reached_prefix [OF r]] w by auto



text \<open>The layers of LayerMerge under an upper directory that deletes \<open>d/x\<close> and has a file \<open>d/z\<close>.\<close>

definition layer_state :: fuse_state where
  "layer_state = demo_state\<lparr>fs_lower :=
     (case build_merged_tree demo_pkg demo_layers '''' of Inr t \<Rightarrow> Some t | Inl _ \<Rightarrow> None)\<rparr>"

definition layer_host :: os where
  "layer_host = host_with [([''u'', ''d''], plain_dir), ([''u'', ''d'', ''z''], text_file),
     ([''u'', ''d'', ''.wh.x''], text_file\<lparr>u_body := BReg []\<rparr>)]"

definition upper_commit :: resolved_commit where
  "upper_commit = demo_layer ''s3'' [file_at ''d/.wh.x'', file_at ''d/z'']"


end
