(* ===== verification/TidyMount.thy ===== *)
theory TidyMount
  imports UpperLayer
begin

text \<open>
  A mount whose clients use no whiteout names, on a host whose calls do not fail by themselves: its
  whiteouts stay the ones that the operations of fuse.go make, each for a name without a node. So no
  link ever hides behind a whiteout, and the upper directory can be committed as a layer at any time.
\<close>

section \<open>Operations inject no faults\<close>

lemma same_host_faulty:
  assumes "\<And>s. same_host s (snd (f s))" and "faulty f s = (r, t)"
  shows "same_host s t"
  using assms(2)
proof (cases rule: faulty_cases)
  case (run fs)
  have "same_host s (s\<lparr>os_faults := fs\<rparr>)" using run(2) by simp
  then show ?thesis using assms(1) [of "s\<lparr>os_faults := fs\<rparr>"] run(1) same_host_trans by fastforce
qed simp

lemma same_host_calls:
  "os_mkdir p m s = (r, t) \<Longrightarrow> same_host s t" "os_symlink tg p s = (r, t) \<Longrightarrow> same_host s t"
  "os_remove p s = (r, t) \<Longrightarrow> same_host s t" "os_rename p q s = (r, t) \<Longrightarrow> same_host s t"
  "sys_open p fl m s = (r1, t) \<Longrightarrow> same_host s t" "os_write k d s = (r2, t) \<Longrightarrow> same_host s t"
  "os_close k s = (r, t) \<Longrightarrow> same_host s t" "update_at follow p f s = (r, t) \<Longrightarrow> same_host s t"
  unfolding os_mkdir_def os_symlink_def os_remove_def os_rename_def sys_open_def os_write_def os_close_def update_at_def
  by (erule same_host_faulty [rotated];
      auto simp: sys_mkdir_at_def sys_remove_at_def sys_rename_at_def sys_open_at_def
        split: sum.splits option.splits ubody.splits)+

lemma same_host_mkdir_all: "os_mkdir_all p m s = (r, t) \<Longrightarrow> same_host s t"
proof -
  have "same_host s (snd (os_mkdir_all p m s))" unfolding os_mkdir_all_def
    by (rule mkdir_all_rev_closed [of same_host])
      (simp, (rule same_host_trans; assumption), rule same_host_calls(1))
  then show "os_mkdir_all p m s = (r, t) \<Longrightarrow> same_host s t" by simp
qed

interpretation host: mount_closed "\<lambda>_. True" same_host st for st
  by unfold_locales (auto intro: same_host_trans same_host_mkdir_all same_host_calls)

section \<open>Tidy but for one name\<close>

text \<open>The names in \<open>K\<close> may have a whiteout and a node at once, as in the middle of an operation.\<close>

definition tidy_but :: "os \<Rightarrow> path \<Rightarrow> path set \<Rightarrow> bool" where
  "tidy_but s U K \<longleftrightarrow>
     (\<forall>ds n. look s (U @ ds @ [n]) \<noteq> None \<longrightarrow> prefix whiteout_prefix n \<longrightarrow>
        (\<exists>x. n = wh x \<and> valid_name x \<and> \<not> prefix whiteout_prefix x \<and> \<not> is_dir_at s (U @ ds @ [n]) \<and>
           (ds @ [x] \<in> K \<or> look s (U @ ds @ [x]) = None)))"

lemma tidy_iff: "tidy s U \<longleftrightarrow> tidy_but s U {}"
proof
  assume t: "tidy s U"
  show "tidy_but s U {}"
    unfolding tidy_but_def using tidyD [OF t] by (metis empty_iff)
next
  assume t: "tidy_but s U {}"
  show "tidy s U"
    unfolding tidy_def Let_def
  proof (intro ballI impI)
    fix q assume q: "q \<in> set (below s U)" "prefix whiteout_prefix (last q)"
    then obtain ds n where dn: "q = ds @ [n]" by (cases q rule: rev_cases) (auto simp: below_iff)
    then obtain x where "n = wh x" "valid_name x" "\<not> prefix whiteout_prefix x" "\<not> is_dir_at s (U @ ds @ [n])"
        "look s (U @ ds @ [x]) = None"
      using t q unfolding tidy_but_def below_iff by (metis empty_iff last_snoc)
    then show "valid_name (trim_prefix whiteout_prefix (last q)) \<and>
        \<not> prefix whiteout_prefix (trim_prefix whiteout_prefix (last q)) \<and> \<not> is_dir_at s (U @ q) \<and>
        look s (U @ butlast q @ [trim_prefix whiteout_prefix (last q)]) = None"
      using dn by simp
  qed
qed

lemma tidy_butD:
  assumes "tidy_but s U K" and "look s (U @ ds @ [wh x]) \<noteq> None"
  shows "valid_name x" and "\<not> prefix whiteout_prefix x" and "\<not> is_dir_at s (U @ ds @ [wh x])"
    and "ds @ [x] \<in> K \<or> look s (U @ ds @ [x]) = None"
  using assms unfolding tidy_but_def by fastforce+

lemma tidy_butI:
  assumes "\<And>ds n. look s (U @ ds @ [n]) \<noteq> None \<Longrightarrow> prefix whiteout_prefix n \<Longrightarrow>
      \<exists>x. n = wh x \<and> valid_name x \<and> \<not> prefix whiteout_prefix x"
    and "\<And>ds x. look s (U @ ds @ [wh x]) \<noteq> None \<Longrightarrow>
      \<not> is_dir_at s (U @ ds @ [wh x]) \<and> (ds @ [x] \<in> K \<or> look s (U @ ds @ [x]) = None)"
  shows "tidy_but s U K"
  unfolding tidy_but_def using assms by metis

text \<open>No whiteout lies over the path.\<close>

definition open_way :: "os \<Rightarrow> path \<Rightarrow> path \<Rightarrow> bool" where
  "open_way s U cs \<longleftrightarrow> (\<forall>ds x. prefix (ds @ [x]) cs \<longrightarrow> look s (U @ ds @ [wh x]) = None)"

text \<open>What a change at a name and its whiteout does, when new directories appear only on the way there.\<close>

lemma tidy_frame:
  assumes t: "tidy_but s U K" and cs: "clean_names cs" "open_way s U cs" and c: "valid_name c" "\<not> prefix whiteout_prefix c"
    and ch: "\<And>k. k \<noteq> U @ cs @ [wh c] \<Longrightarrow> k \<noteq> U @ cs @ [c] \<Longrightarrow> made_dirs s (U @ cs) t k"
    and pair: "look t (U @ cs @ [wh c]) \<noteq> None \<Longrightarrow>
      \<not> is_dir_at t (U @ cs @ [wh c]) \<and> (cs @ [c] \<in> K' \<or> look t (U @ cs @ [c]) = None)"
    and K: "K \<subseteq> insert (cs @ [c]) K'"
  shows "tidy_but t U K'"
proof -
  have old: "look t (U @ ds @ [n]) = look s (U @ ds @ [n])"
    if n: "look t (U @ ds @ [n]) \<noteq> None" "prefix whiteout_prefix n" "ds @ [n] \<noteq> cs @ [wh c]" for ds n
  proof -
    have "made_dirs s (U @ cs) t (U @ ds @ [n])" using n c by (intro ch) auto
    moreover have "\<not> prefix (U @ ds @ [n]) (U @ cs)" using n(2) cs(1) by (auto simp: prefix_def clean_names_def)
    ultimately show ?thesis by (simp add: made_dirs_def)
  qed
  show ?thesis
  proof (rule tidy_butI)
    fix ds n assume n: "look t (U @ ds @ [n]) \<noteq> None" "prefix whiteout_prefix n"
    show "\<exists>x. n = wh x \<and> valid_name x \<and> \<not> prefix whiteout_prefix x"
    proof (cases "ds @ [n] = cs @ [wh c]")
      case False
      then show ?thesis using t n old [OF n] unfolding tidy_but_def by metis
    qed (use c in auto)
  next
    fix ds x assume w: "look t (U @ ds @ [wh x]) \<noteq> None"
    show "\<not> is_dir_at t (U @ ds @ [wh x]) \<and> (ds @ [x] \<in> K' \<or> look t (U @ ds @ [x]) = None)"
    proof (cases "ds @ [x] = cs @ [c]")
      case True
      then show ?thesis using pair w by auto
    next
      case False
      then have o: "look t (U @ ds @ [wh x]) = look s (U @ ds @ [wh x])" using w by (intro old) auto
      note d = tidy_butD [OF t, of ds x]
      have "look t (U @ ds @ [x]) = None" if "look s (U @ ds @ [x]) = None"
      proof -
        have "\<not> prefix whiteout_prefix x" using d(2) w o by simp
        then have "made_dirs s (U @ cs) t (U @ ds @ [x])" using False by (intro ch) auto
        moreover have "\<not> prefix (U @ ds @ [x]) (U @ cs)"
          using cs(2) w o by (auto simp: open_way_def)
        ultimately show ?thesis using that by (simp add: made_dirs_def)
      qed
      then show ?thesis using d(3,4) w o K False by (auto simp: is_dir_at_def)
    qed
  qed
qed


section \<open>Operations on one name\<close>

lemma reached_open_way: "mounted st U s \<Longrightarrow> reached st s cs \<Longrightarrow> open_way s U cs"
  using reached_entry(2) reached_prefix by (fastforce simp: open_way_def)

lemma reached_way:
  assumes m: "mounted st U s" and r: "reached st s cs"
  shows "prefix p (U @ cs) \<Longrightarrow> look s p = None \<or> is_dir_at s p"
proof -
  assume "prefix p (U @ cs)"
  then consider "prefix p U" | ds x where "p = U @ ds @ [x]" "prefix (ds @ [x]) cs"
    by (auto simp: prefix_append) (metis append_Nil2 prefix_order.refl rev_exhaust)
  then show ?thesis
  proof cases
    case 1
    then show ?thesis using dir_way [OF mounted_wf [OF m] mounted_dir [OF m]] wayD by blast
  next
    case (2 ds x)
    then have e: "is_dir_pi (entry st s U ds x)" "look s (U @ ds @ [wh x]) = None"
      using reached_entry [OF m reached_prefix [OF r]] by blast+
    then show ?thesis
      using 2(1) by (cases "look s (U @ ds @ [x])") (auto simp: entry_def is_dir_at_def)
  qed
qed

text \<open>A place that the clients reach on a mount that is quiet and tidy.\<close>

definition calm :: "fuse_state \<Rightarrow> path \<Rightarrow> os \<Rightarrow> path \<Rightarrow> bool" where
  "calm st U s cs \<longleftrightarrow> mounted st U s \<and> quiet s \<and> tidy s U \<and> reached st s cs \<and> clean_names cs"

lemma calmD:
  assumes "calm st U s cs"
  shows calm_place: "place st U s cs" and calm_quiet: "quiet s" and calm_tidy: "tidy_but s U {}"
    and calm_clean: "clean_names cs" and calm_open: "open_way s U cs"
    and calm_way: "prefix p (U @ cs) \<Longrightarrow> look s p = None \<or> is_dir_at s p"
proof -
  have a: "mounted st U s" "quiet s" "tidy s U" "reached st s cs" "clean_names cs" using assms by (simp_all add: calm_def)
  show "quiet s" "clean_names cs" by fact+
  show "place st U s cs" by (rule reached_place [OF a(1,4)])
  show "tidy_but s U {}" using a(3) by (simp add: tidy_iff)
  show "open_way s U cs" by (rule reached_open_way [OF a(1,4)])
  show "prefix p (U @ cs) \<Longrightarrow> look s p = None \<or> is_dir_at s p" by (rule reached_way [OF a(1,4)])
qed

lemma calm_name:
  assumes k: "calm st U s cs" and c: "valid_name c" "\<not> prefix whiteout_prefix c"
    and ch: "\<And>k. k \<noteq> U @ cs @ [wh c] \<Longrightarrow> k \<noteq> U @ cs @ [c] \<Longrightarrow> made_dirs s (U @ cs) t k"
    and pair: "look t (U @ cs @ [wh c]) \<noteq> None \<Longrightarrow> \<not> is_dir_at t (U @ cs @ [wh c]) \<and> look t (U @ cs @ [c]) = None"
  shows "tidy t U"
  unfolding tidy_iff
  by (rule tidy_frame [OF calm_tidy [OF k] calm_clean [OF k] calm_open [OF k] c ch]) (use pair in auto)

lemma tidy_remove:
  assumes k: "calm st U s cs" and c: "\<not> prefix whiteout_prefix c" and run: "fuse_remove lib st (of_comps cs) c dir s = (r, t)"
  shows "tidy t U"
proof (cases "t = s")
  case True
  then show ?thesis using calm_tidy [OF k] by (simp add: tidy_iff)
next
  case False
  then have v: "valid_name c" using run by (auto simp: fuse_remove_def split: if_splits)
  note p = calm_place [OF k]
  show ?thesis
  proof (cases r)
    case (Inl e)
    then have "look t (U @ cs @ [wh c]) = None \<and> (\<forall>k. k \<noteq> U @ cs @ [wh c] \<longrightarrow> made_dirs s (U @ cs) t k)"
      using remove_failed [OF place_mounted [OF p] place_valid [OF p] v place_plain [OF p]] run False
        calm_quiet [OF k] calm_way [OF k] by blast
    then show ?thesis by (intro calm_name [OF k v c]) simp_all
  next
    case (Inr u)
    then have "fuse_remove lib st (of_comps cs) c dir s = (Inr (), t)" using run by (cases u) simp
    from remove_success [OF place_mounted [OF p] place_valid [OF p] v place_plain [OF p] this]
    show ?thesis by (intro calm_name [OF k v c]) simp_all
  qed
qed

lemma calm_free:
  assumes k: "calm st U s cs" and v: "valid_name c" and new: "\<not> exists_pi (stat st s (join_path (of_comps cs) c))"
  shows "look s (U @ cs @ [c]) = None"
proof -
  note p = calm_place [OF k]
  have "\<not> exists_pi (entry st s U cs c)"
    using new stat_join [OF place_mounted [OF p] place_valid [OF p] v place_plain [OF p]] by simp
  then show ?thesis
    using tidy_butD(4) [OF calm_tidy [OF k], of cs c] by (auto simp: entry_none_iff)
qed

lemma tidy_makes:
  assumes k: "calm st U s cs" and c: "valid_name c" "\<not> prefix whiteout_prefix c"
    and new: "\<not> exists_pi (stat st s (join_path (of_comps cs) c))" and mk: "makes lib st (of_comps cs) c ok s t"
  shows "tidy t U"
proof -
  note p = calm_place [OF k]
  have n: "look s (U @ cs @ [c]) = None" by (rule calm_free [OF k c(1) new])
  then have pl: "plain s (U @ cs @ [c])"
    using plain_snoc [of s "U @ cs" c] place_plain [OF p] by (simp add: is_link_at_def)
  note ms = makes_spec [OF place_mounted [OF p] place_valid [OF p] c(1) pl mk]
  have nd: "\<not> is_dir_at s (U @ cs @ [wh c])"
    using tidy_butD(3) [OF calm_tidy [OF k], of cs c] is_dir_look [of s "U @ cs @ [wh c]"] by auto
  then have ok using ms calm_quiet [OF k] calm_way [OF k] n by blast
  then have w: "look t (U @ cs @ [wh c]) = None"
    and ch: "\<And>k. k \<noteq> U @ cs @ [wh c] \<Longrightarrow> k \<noteq> U @ cs @ [c] \<Longrightarrow> made_dirs s (U @ cs) t k"
    using ms by blast+
  show ?thesis by (rule calm_name [OF k c ch]) (simp_all add: w)
qed

text \<open>Changes of a node that the mount shows: opening it, copying it up, setting its attributes.\<close>

lemma tidy_seen:
  assumes k: "calm st U s cs" and c: "valid_name c" "\<not> prefix whiteout_prefix c"
    and ex: "exists_pi (stat st s (of_comps (cs @ [c])))"
    and ch: "\<And>k. k \<noteq> U @ cs @ [c] \<Longrightarrow> made_dirs s (U @ cs) t k"
  shows "tidy t U"
proof -
  note p = calm_place [OF k]
  have "exists_pi (entry st s U cs c)"
    using ex stat_entry [OF place_mounted [OF p] place_valid [OF p] c(1) place_plain [OF p]] by simp
  then have "look s (U @ cs @ [wh c]) = None" by (simp add: entry_none_iff)
  moreover have "made_dirs s (U @ cs) t (U @ cs @ [wh c])" by (rule ch) simp
  ultimately have w: "look t (U @ cs @ [wh c]) = None" by (auto simp: made_dirs_def)
  show ?thesis by (rule calm_name [OF k c ch]) (simp_all add: w)
qed

lemma tidy_same:
  assumes "tidy s U" and "\<And>q. q \<noteq> [] \<Longrightarrow> look t (U @ q) = look s (U @ q)"
  shows "tidy t U"
  using assms unfolding tidy_iff tidy_but_def is_dir_at_def by simp


section \<open>Renaming\<close>

lemma open_way_made:
  assumes "open_way s U ds" and "clean_names cs"
    and "\<And>es x. made_dirs s (U @ cs) t (U @ es @ [wh x])"
  shows "open_way t U ds"
proof -
  have "look t (U @ es @ [wh x]) = look s (U @ es @ [wh x])" for es x
    using assms(3) [of es x] assms(2) by (auto simp: made_dirs_def prefix_def clean_names_def)
  then show ?thesis using assms(1) by (simp add: open_way_def)
qed

text \<open>On a quiet host, the whiteouts of a name in a directory are made and taken away without fail.\<close>

lemma make_whiteout_quiet:
  assumes p: "place st U s cs" "is_dir_at s (U @ cs)" and c: "valid_name c" and q: "quiet s"
    and new: "look s (U @ cs @ [wh c]) = None" and run: "make_whiteout st (of_comps cs) c s = (r, t)"
  shows "r = Inr ()" and "k \<noteq> U @ cs @ [wh c] \<Longrightarrow> look t k = look s k" and "\<not> is_dir_at t (U @ cs @ [wh c])"
    and "place st U t cs" and "is_dir_at t (U @ cs)" and "quiet t"
proof -
  note mw = make_whiteout_in_dir [OF place_mounted [OF p(1)] place_valid [OF p(1)] c p(2) new run]
  show "r = Inr ()" "k \<noteq> U @ cs @ [wh c] \<Longrightarrow> look t k = look s k" "\<not> is_dir_at t (U @ cs @ [wh c])" "quiet t"
    using mw q same_host_quiet by blast+
  show d: "is_dir_at t (U @ cs)" using p(2) mw(3) [of "U @ cs"] by (simp add: is_dir_at_def)
  show "place st U t cs"
    using p(1) mw(1) dir_plain [OF mounted_wf [OF mw(1)] d] by (simp add: place_def)
qed

lemma clear_whiteout_quiet:
  assumes p: "place st U s cs" "is_dir_at s (U @ cs)" and c: "valid_name c" and q: "quiet s"
    and nd: "\<not> is_dir_at s (U @ cs @ [wh c])" and run: "clear_whiteout st (of_comps cs) c s = (r, t)"
  shows "r = Inr ()" and "look t = (look s)(U @ cs @ [wh c] := None)"
    and "place st U t cs" and "is_dir_at t (U @ cs)" and "quiet t"
proof -
  note cl = clear_whiteout_spec [OF place_mounted [OF p(1)] place_valid [OF p(1)] c p(2) run]
  show r: "r = Inr ()" using cl q nd by (auto simp: is_dir_at_def)
  then show l: "look t = (look s)(U @ cs @ [wh c] := None)" using cl by simp
  then show d: "is_dir_at t (U @ cs)" using p(2) by (simp add: is_dir_at_def)
  show "quiet t" using cl q same_host_quiet by blast
  have wf: "wf_os t" "is_dir_at t U" using cl l mounted_dir [OF place_mounted [OF p(1)]] by (simp_all add: is_dir_at_def)
  then show "place st U t cs" using p(1) dir_plain [OF wf(1) d] by (simp add: place_def mounted_def)
qed

lemma tidy_moved:
  assumes t: "tidy_but s U {cs @ [c]}" and d: "\<not> prefix whiteout_prefix d" "look s (U @ ds @ [wh d]) = None"
    and apart: "\<not> prefix (ds @ [d]) (cs @ [c])"
    and lk: "\<And>k. look t k = (if prefix (U @ ds @ [d]) k then look s ((U @ cs @ [c]) @ drop (length (U @ ds @ [d])) k)
      else if prefix (U @ cs @ [c]) k then None else look s k)"
  shows "tidy_but t U {}"
proof -
  have moved: "look t (U @ ds @ [d] @ r) = look s (U @ (cs @ [c] @ r))" for r
    using lk [of "U @ ds @ [d] @ r"] by simp
  have other: "look t (U @ q) = (if prefix (cs @ [c]) q then None else look s (U @ q))"
    if "\<not> prefix (ds @ [d]) q" for q
    using that by (simp only: lk [of "U @ q"] same_prefix_prefix if_False)
  have src: "look t (U @ cs @ [c]) = None" using other [OF apart] by simp
  have good: "\<exists>x. n = wh x \<and> valid_name x \<and> \<not> prefix whiteout_prefix x \<and>
      \<not> is_dir_at t (U @ es @ [n]) \<and> look t (U @ es @ [x]) = None"
    if n: "look t (U @ es @ [n]) \<noteq> None" "prefix whiteout_prefix n" for es n
  proof (cases "prefix (ds @ [d]) (es @ [n])")
    case True
    then obtain r where r: "es = ds @ [d] @ r" using n(2) d(1) by (auto simp: prefix_snoc) (auto simp: prefix_def)
    note look_t = moved [of "r @ [_]"]
    have w: "look s (U @ (cs @ [c] @ r) @ [n]) \<noteq> None" using n(1) look_t r by simp
    obtain x where x: "n = wh x" using n(2) by (auto simp: prefix_def)
    note k = tidy_butD [OF t, of "cs @ [c] @ r" x]
    show ?thesis using k w x look_t [of n] look_t [of x] r by (auto simp: is_dir_at_def)
  next
    case False
    then have same: "look t (U @ es @ [n]) = look s (U @ es @ [n])" using n(1) other by metis
    obtain x where x: "n = wh x" using n(2) by (auto simp: prefix_def)
    note k = tidy_butD [OF t, of es x]
    have "look t (U @ es @ [x]) = None"
    proof (cases "prefix (ds @ [d]) (es @ [x])")
      case True
      then have "es @ [x] = ds @ [d]" using False by (auto simp: prefix_snoc)
      then show ?thesis using d(2) n(1) same x by auto
    next
      case ot: False
      then show ?thesis using other [OF ot] k(4) n(1) same x src by (metis singletonD)
    qed
    then show ?thesis using k n(1) same x by (auto simp: is_dir_at_def)
  qed
  then show ?thesis unfolding tidy_but_def by blast
qed


lemma place_dir: "place st U s cs \<Longrightarrow> valid_path ds \<Longrightarrow> is_dir_at s (U @ ds) \<Longrightarrow> place st U s ds"
  using dir_plain mounted_wf by (auto simp: place_def)

text \<open>A rename from a source that the upper directory has: what is the case at both names.\<close>

definition ready :: "fuse_state \<Rightarrow> path \<Rightarrow> os \<Rightarrow> path \<Rightarrow> string \<Rightarrow> bool" where
  "ready st U s cs c \<longleftrightarrow> place st U s cs \<and> is_dir_at s (U @ cs) \<and> valid_name c \<and> \<not> prefix whiteout_prefix c \<and>
     clean_names cs \<and> open_way s U cs \<and> quiet s"

text \<open>Up to the move: the whiteout of the source is made, the one of the target is gone.\<close>

lemma rename_prepared:
  assumes p: "ready st U s cs c" and q: "ready st U s ds d" and k: "tidy_but s U {}"
    and ne: "cs @ [c] \<noteq> ds @ [d]" and apart: "\<not> prefix (cs @ [c]) ds" and nw: "look s (U @ cs @ [wh c]) = None"
    and three: "(if sw then make_whiteout st (of_comps cs) c s else (Inr (), s)) = (r3, s3)"
    and four: "(if has_whiteout st s3 (of_comps ds) d then clear_whiteout st (of_comps ds) d s3
      else (Inr (), s3)) = (r4, s4)"
  shows "r3 = Inr () \<and> r4 = Inr () \<and> place st U s4 cs \<and> is_dir_at s4 (U @ cs) \<and> place st U s4 ds \<and> is_dir_at s4 (U @ ds) \<and>
    quiet s4 \<and> tidy_but s4 U {cs @ [c]} \<and> open_way s4 U cs \<and> open_way s4 U ds \<and> look s4 (U @ ds @ [wh d]) = None \<and>
    (sw \<or> look s4 (U @ cs @ [wh c]) = None) \<and>
    (has_whiteout st s3 (of_comps ds) d \<longrightarrow> look s4 (U @ ds @ [d]) = None)"
proof -
  have c: "place st U s cs" "is_dir_at s (U @ cs)" "valid_name c" "\<not> prefix whiteout_prefix c" "clean_names cs" "open_way s U cs"
    and quiet: "quiet s" using p by (simp_all add: ready_def)
  have d: "is_dir_at s (U @ ds)" "valid_name d" "\<not> prefix whiteout_prefix d" "clean_names ds" "open_way s U ds" "valid_path ds"
    using q place_valid by (auto simp: ready_def)
  let ?wc = "U @ cs @ [wh c]" and ?wd = "U @ ds @ [wh d]"
  have nwd: "?wc \<noteq> ?wd" using ne by auto
  have nd: "U @ ds \<noteq> ?wc" "U @ cs \<noteq> ?wd" using c(5) d(4) by (auto simp: clean_names_def)
  have s3: "r3 = Inr () \<and> (\<forall>k. k \<noteq> ?wc \<longrightarrow> look s3 k = look s k) \<and> \<not> is_dir_at s3 ?wc \<and>
      (\<not> sw \<longrightarrow> look s3 ?wc = None) \<and> place st U s3 cs \<and> is_dir_at s3 (U @ cs) \<and> quiet s3"
  proof (cases sw)
    case True
    then have "make_whiteout st (of_comps cs) c s = (r3, s3)" using three by simp
    note mw = make_whiteout_quiet [OF c(1,2,3) quiet nw this]
    then show ?thesis using True by (auto simp: is_dir_at_def)
  qed (use three c quiet nw in \<open>auto simp: is_dir_at_def\<close>)
  then have l3: "k \<noteq> ?wc \<Longrightarrow> look s3 k = look s k" for k by blast
  have p3: "place st U s3 cs" "is_dir_at s3 (U @ cs)" and quiet3: "quiet s3" and nw3: "\<not> is_dir_at s3 ?wc" using s3 by blast+
  have q3: "is_dir_at s3 (U @ ds)" using d(1) l3 nd by (simp add: is_dir_at_def)
  have pl3: "place st U s3 ds" by (rule place_dir [OF p3(1) d(6) q3])
  have t3: "tidy_but s3 U {cs @ [c]}"
    by (rule tidy_frame [OF k c(5,6,3,4)]) (use l3 nw3 in \<open>simp_all add: made_dirs_def\<close>)
  have o3: "open_way s3 U ds"
    unfolding open_way_def
  proof (intro allI impI)
    fix es x assume e: "prefix (es @ [x]) ds"
    then have "U @ es @ [wh x] \<noteq> ?wc" using apart by auto
    then show "look s3 (U @ es @ [wh x]) = None" using l3 d(5) e by (simp add: open_way_def)
  qed
  have hw: "has_whiteout st s3 (of_comps ds) d \<longleftrightarrow> look s3 ?wd \<noteq> None"
    using has_whiteout_iff [OF place_mounted [OF pl3] d(6,2) place_plain [OF pl3]] by simp
  have s4: "r4 = Inr () \<and> look s4 = (look s3)(?wd := None) \<and> place st U s4 ds \<and> is_dir_at s4 (U @ ds) \<and> quiet s4"
  proof (cases "look s3 ?wd = None")
    case True
    then show ?thesis using four hw pl3 q3 quiet3 by auto
  next
    case False
    then have "clear_whiteout st (of_comps ds) d s3 = (r4, s4)" using four hw by simp
    from clear_whiteout_quiet [OF pl3 q3 d(2) quiet3 tidy_butD(3) [OF t3 False] this] show ?thesis by blast
  qed
  then have l4: "look s4 = (look s3)(?wd := None)" and q4: "place st U s4 ds" "is_dir_at s4 (U @ ds)" and quiet4: "quiet s4"
    by blast+
  have d4: "is_dir_at s4 (U @ cs)" using p3(2) l4 nd by (simp add: is_dir_at_def)
  have p4: "place st U s4 cs" by (rule place_dir [OF q4(1) place_valid [OF c(1)] d4])
  have t4: "tidy_but s4 U {cs @ [c]}"
    by (rule tidy_frame [OF t3 d(4) o3 d(2,3)]) (use l4 in \<open>auto simp: made_dirs_def\<close>)
  have o4: "open_way s4 U cs" "open_way s4 U ds"
  proof -
    have "look s4 (U @ es @ [wh x]) = None" if "look s (U @ es @ [wh x]) = None" "U @ es @ [wh x] \<noteq> ?wc" for es x
      using that l3 l4 by simp
    moreover have "U @ es @ [wh x] \<noteq> ?wc" if "prefix (es @ [x]) cs" for es x
      using that by (auto simp: prefix_def)
    moreover have "U @ es @ [wh x] \<noteq> ?wc" if "prefix (es @ [x]) ds" for es x
      using that apart by auto
    ultimately show "open_way s4 U cs" "open_way s4 U ds" using c(6) d(5) unfolding open_way_def by blast+
  qed
  have new: "look s4 (U @ ds @ [d]) = None" if "has_whiteout st s3 (of_comps ds) d"
  proof -
    have "look s3 ?wd \<noteq> None" using that hw by simp
    then have "look s3 (U @ ds @ [d]) = None" using tidy_butD(4) [OF t3, of ds d] ne by auto
    then show ?thesis using l4 by simp
  qed
  have "sw \<or> look s4 ?wc = None" using s3 l4 nwd by auto
  then show ?thesis using s3 s4 p4 d4 quiet4 t4 o4 new l4 by simp
qed

text \<open>The whiteouts when the move does not happen: as they were before the rename.\<close>

lemma rename_undone:
  assumes pl: "place st U s cs" "is_dir_at s (U @ cs)" "place st U s ds" "is_dir_at s (U @ ds)" and quiet: "quiet s"
    and c: "valid_name c" "\<not> prefix whiteout_prefix c" "clean_names cs" "open_way s U cs"
    and d: "valid_name d" "\<not> prefix whiteout_prefix d" "clean_names ds" "open_way s U ds"
    and k: "tidy_but s U {cs @ [c]}" and nw: "look s (U @ ds @ [wh d]) = None"
    and sw: "sw \<or> look s (U @ cs @ [wh c]) = None" and new: "dw \<Longrightarrow> look s (U @ ds @ [d]) = None"
    and u: "u = (if sw then snd (clear_whiteout st (of_comps cs) c s) else s)"
    and t: "t = (if dw then snd (make_whiteout st (of_comps ds) d u) else u)"
  shows "tidy t U"
proof -
  let ?wc = "U @ cs @ [wh c]"
  have six: "look u = (look s)(?wc := None) \<and> place st U u cs \<and> quiet u"
  proof (cases sw)
    case True
    then have cl: "clear_whiteout st (of_comps cs) c s = (fst (clear_whiteout st (of_comps cs) c s), u)" using u by simp
    have "\<not> is_dir_at s ?wc" using tidy_butD(3) [OF k, of cs c] is_dir_look [of s ?wc] by auto
    from clear_whiteout_quiet [OF pl(1,2) c(1) quiet this cl] show ?thesis by blast
  qed (use u sw pl quiet in auto)
  then have l6: "look u = (look s)(?wc := None)" and p6: "place st U u cs" and q6: "quiet u" by blast+
  have k6: "tidy_but u U {}"
    by (rule tidy_frame [OF k c(3,4,1,2)]) (use l6 in \<open>auto simp: made_dirs_def\<close>)
  show ?thesis
  proof (cases dw)
    case True
    have "U @ ds \<noteq> ?wc" using d(3) by (auto simp: clean_names_def)
    then have i: "is_dir_at u (U @ ds)" using pl(4) l6 by (simp add: is_dir_at_def)
    have p: "place st U u ds" by (rule place_dir [OF p6 place_valid [OF pl(3)] i])
    have mk: "make_whiteout st (of_comps ds) d u = (fst (make_whiteout st (of_comps ds) d u), t)" using t True by simp
    have n: "look u (U @ ds @ [wh d]) = None" "look u (U @ ds @ [d]) = None" using nw new [OF True] l6 by simp_all
    note n7 = make_whiteout_quiet(2,3) [OF p i d(1) q6 n(1) mk]
    have "open_way u U ds" using d(4) l6 by (simp add: open_way_def)
    note f = tidy_frame [OF k6 d(3) this d(1,2)]
    show ?thesis
      unfolding tidy_iff
      by (rule f) (use n7 n d(2) in \<open>auto simp: made_dirs_def\<close>)
  qed (use t k6 in \<open>simp add: tidy_iff\<close>)
qed

lemma tidy_rename_rest:
  assumes p: "ready st U s cs c" and q: "ready st U s ds d" and k: "tidy_but s U {}"
    and ne: "cs @ [c] \<noteq> ds @ [d]" and apart: "\<not> prefix (cs @ [c]) ds" and nw: "look s (U @ cs @ [wh c]) = None"
    and run: "rename_rest lib st (of_comps cs) c (of_comps ds) d sw s = (r, t)"
  shows "tidy t U"
proof -
  have c: "valid_name c" "\<not> prefix whiteout_prefix c" "clean_names cs" and d: "valid_name d" "\<not> prefix whiteout_prefix d" "clean_names ds"
    and pl: "place st U s cs" "place st U s ds" using p q by (simp_all add: ready_def)
  obtain r3 s3 where three: "(if sw then make_whiteout st (of_comps cs) c s else (Inr (), s)) = (r3, s3)" by force
  let ?dw = "has_whiteout st s3 (of_comps ds) d"
  obtain r4 s4 where four: "(if ?dw then clear_whiteout st (of_comps ds) d s3 else (Inr (), s3)) = (r4, s4)" by force
  note pr = rename_prepared [OF p q k ne apart nw three four]
  then have r34: "r3 = Inr ()" "r4 = Inr ()" and p4: "place st U s4 cs" "is_dir_at s4 (U @ cs)"
    and q4: "place st U s4 ds" "is_dir_at s4 (U @ ds)" and quiet: "quiet s4" and k4: "tidy_but s4 U {cs @ [c]}"
    and w4: "look s4 (U @ ds @ [wh d]) = None" by blast+
  obtain r5 s5 where five: "os_rename (abs_of ((U @ cs) @ [c])) (abs_of ((U @ ds) @ [d])) s4 = (r5, s5)" by force
  have "(U @ cs) @ [c] \<noteq> (U @ ds) @ [d]" using ne by simp
  note rn = rename_spec [OF place_wf [OF p4(1)] p4(2) c(1) q4(2) d(1) this five]
  define s6 where "s6 = (if sw then snd (clear_whiteout st (of_comps cs) c s5) else s5)"
  have rest: "case r5 of Inl _ \<Rightarrow> t = (if ?dw then snd (make_whiteout st (of_comps ds) d s6) else s6) | Inr _ \<Rightarrow> t = s5"
    using run [unfolded rename_rest_def Let_def place_name [OF pl(1) c(1)] place_name [OF pl(2) d(1)] three]
      four five r34 unfolding s6_def by (auto split: sum.splits)
  show ?thesis
  proof (cases r5)
    case (Inl e)
    then have l5: "look s5 = look s4" and h: "same_host s4 s5" using rn by simp_all
    have "mounted st U s5" using kept_os_rename(1) [OF p4(1) q4(1) c(1) d(1) five] by (simp add: kept_def)
    then have s5: "place st U s5 cs" "is_dir_at s5 (U @ cs)" "place st U s5 ds" "is_dir_at s5 (U @ ds)" "quiet s5"
        "open_way s5 U cs" "open_way s5 U ds" "tidy_but s5 U {cs @ [c]}"
      using p4 q4 k4 pr same_host_quiet [OF h quiet]
      by (simp_all add: place_def plain_def is_link_at_def is_dir_at_def l5 open_way_def tidy_but_def)
    show ?thesis
      by (rule rename_undone [OF s5(1-5) c s5(6) d s5(7,8) _ _ _ s6_def])
        (use pr l5 rest Inl in auto)
  next
    case (Inr u)
    then have t: "t = s5" and src: "look s4 ((U @ cs) @ [c]) \<noteq> None" and nd: "\<not> is_dir_at s4 ((U @ ds) @ [d])"
      and lk: "\<And>k. look s5 k = (if prefix ((U @ ds) @ [d]) k then look s4 (((U @ cs) @ [c]) @ drop (length ((U @ ds) @ [d])) k)
           else if prefix ((U @ cs) @ [c]) k then None else look s4 k)"
      using rn rest by simp_all
    have "\<not> prefix (ds @ [d]) (cs @ [c])"
    proof
      assume "prefix (ds @ [d]) (cs @ [c])"
      then obtain es where "cs @ [c] = (ds @ [d]) @ es" by (auto simp: prefix_def)
      then have es: "es \<noteq> []" "(U @ cs) @ [c] = ((U @ ds) @ [d]) @ es" using ne by auto
      then show False using wf_prefix_dir [OF place_wf [OF p4(1)], of "(U @ ds) @ [d]" es] src nd by auto
    qed
    then show ?thesis
      unfolding tidy_iff t by (rule tidy_moved [OF k4 d(2) w4]) (use lk in simp)
  qed
qed


text \<open>Up to the directory of the target: the source is there, and so are both directories.\<close>

lemma rename_started:
  assumes k: "calm st U s cs" and l: "calm st U s ds" and c: "valid_name c" "\<not> prefix whiteout_prefix c"
    and d: "valid_name d" "\<not> prefix whiteout_prefix d" and apart: "\<not> prefix (cs @ [c]) ds"
    and ex: "exists_pi (stat st s (of_comps (cs @ [c])))" and one: "copy_up st (of_comps (cs @ [c])) s = (r1, s1)"
    and two: "os_mkdir_all (upper_path st (of_comps ds)) 0x1ED s1 = (r2, s2)"
  shows "tidy s1 U" and "tidy s2 U"
    and "r2 = Inr () \<Longrightarrow> look s1 ((U @ cs) @ [c]) \<noteq> None \<Longrightarrow>
      ready st U s2 cs c \<and> ready st U s2 ds d \<and> look s2 (U @ cs @ [wh c]) = None"
proof -
  note p = calm_place [OF k] and q = calm_place [OF l]
  have cu: "mounted st U s1" "same_host s s1" and ch: "\<And>j. j \<noteq> U @ cs @ [c] \<Longrightarrow> made_dirs s (U @ cs) s1 j"
    using copy_up_frame [OF place_mounted [OF p] place_valid [OF p] c(1) place_plain [OF p] one] by blast+
  show t1: "tidy s1 U" by (rule tidy_seen [OF k c ex ch])
  have p1: "place st U s1 cs" by (rule place_copied_up [OF p p c(1) one]) (auto dest: prefix_length_le)
  have q1: "place st U s1 ds" by (rule place_copied_up [OF p q c(1) one apart])
  have whs: "made_dirs s (U @ cs) s1 (U @ es @ [wh x])" for es x
    by (rule ch) (use c(2) in auto)
  have o1: "open_way s1 U cs" "open_way s1 U ds"
    by (rule open_way_made [OF calm_open [OF k] calm_clean [OF k] whs],
        rule open_way_made [OF calm_open [OF l] calm_clean [OF k] whs])
  have two': "os_mkdir_all (abs_of (U @ ds)) 0x1ED s1 = (r2, s2)"
    using two upper_path_of [OF place_mounted [OF q1] place_valid [OF q1]] by simp
  have ud: "valid_path (U @ ds)" using place_full [OF q1] by simp
  note md = mkdir_all_spec [OF place_wf [OF q1] ud place_plain [OF q1] two']
  note gr = grown_made_dirs [OF md(3)]
  have o2: "open_way s2 U cs" "open_way s2 U ds"
    by (rule open_way_made [OF o1(1) calm_clean [OF l] gr], rule open_way_made [OF o1(2) calm_clean [OF l] gr])
  have same: "look s2 (U @ ds @ [x]) = look s1 (U @ ds @ [x])" for x
    by (rule grown_other [OF md(3)]) (auto dest: prefix_length_le)
  note f = tidy_frame [OF t1 [unfolded tidy_iff] calm_clean [OF l] o1(2) d gr]
  show t2: "tidy s2 U"
    unfolding tidy_iff
    by (rule f) (use tidy_butD(3,4) [OF t1 [unfolded tidy_iff], of ds d] in \<open>auto simp: same is_dir_at_def\<close>)
  assume ok: "r2 = Inr ()" "look s1 ((U @ cs) @ [c]) \<noteq> None"
  have quiet: "quiet s2" by (rule same_host_quiet [OF md(1) same_host_quiet [OF cu(2) calm_quiet [OF k]]])
  have dirs: "is_dir_at s2 (U @ cs)" "is_dir_at s2 (U @ ds)"
    using grown_dir [OF md(3)] known_parent [OF place_wf [OF p1] ok(2)] md(4) [OF ok(1)] by blast+
  have m2: "mounted st U s2" by (rule mounted_made_dirs [OF cu(1) md(2) gr])
  have p2: "place st U s2 cs" "place st U s2 ds"
    using p1 q1 m2 grown_plain [OF md(3)] by (simp_all add: place_def)
  have "exists_pi (entry st s U cs c)"
    using ex stat_entry [OF place_mounted [OF p] place_valid [OF p] c(1) place_plain [OF p]] by simp
  then have "look s (U @ cs @ [wh c]) = None" by (simp add: entry_none_iff)
  then have "look s1 (U @ cs @ [wh c]) = None" using whs [of cs c] by (auto simp: made_dirs_def)
  then have "look s2 (U @ cs @ [wh c]) = None"
    using gr [of "U @ cs @ [wh c]"] calm_clean [OF l] by (auto simp: made_dirs_def prefix_def clean_names_def)
  then show "ready st U s2 cs c \<and> ready st U s2 ds d \<and> look s2 (U @ cs @ [wh c]) = None"
    using dirs p2 c d calm_clean [OF k] calm_clean [OF l] o2 quiet by (simp add: ready_def)
qed

lemma tidy_rename:
  assumes k: "calm st U s cs" and l: "calm st U s ds" and c: "\<not> prefix whiteout_prefix c" "\<not> prefix whiteout_prefix d"
    and apart: "\<not> prefix (cs @ [c]) ds"
    and run: "fuse_rename lib st (of_comps cs) c other (of_comps ds) d flags s = (r, t)"
  shows "tidy t U"
proof (cases "t = s")
  case True
  then show ?thesis using k by (simp add: calm_def)
next
  case False
  let ?src = "join_path (of_comps cs) c"
  note p = calm_place [OF k] and q = calm_place [OF l]
  have v: "valid_name c" "valid_name d" and ex: "exists_pi (stat st s ?src)" and ne: "?src \<noteq> join_path (of_comps ds) d"
    using run False by (auto simp: fuse_rename_rest split: if_splits)
  have src: "?src = of_comps (cs @ [c])" using place_valid [OF p] v by (simp add: join_path_of_comps)
  have "cs @ [c] \<noteq> ds @ [d]" using ne by auto
  obtain r1 s1 where one: "copy_up st ?src s = (r1, s1)" by force
  note one' = one [unfolded src]
  obtain r2 s2 where two: "os_mkdir_all (upper_path st (of_comps ds)) 0x1ED s1 = (r2, s2)" by force
  note st = rename_started [OF k l v(1) c(1) v(2) c(2) apart ex [unfolded src] one' two]
  have p1: "place st U s1 cs" by (rule place_copied_up [OF p p v(1) one']) (auto dest: prefix_length_le)
  have there: "look s1 ((U @ cs) @ [c]) \<noteq> None" if "os_lstat s1 (upper_path st ?src) = Inr n" for n
    using that lstat_snoc [OF place_wf [OF p1] _ place_plain [OF p1], of c n] place_full [OF p1] place_name [OF p v(1)] v(1)
    by simp
  have "t = s1 \<or> t = s2 \<or> (r2 = Inr () \<and> look s1 ((U @ cs) @ [c]) \<noteq> None \<and>
      rename_rest lib st (of_comps cs) c (of_comps ds) d (pi_lower (stat st s ?src) \<noteq> None) s2 = (r, t))"
    using run False one two there by (auto simp: fuse_rename_rest split: if_splits sum.splits)
  then show ?thesis
    using st tidy_rename_rest [OF _ _ st(2) [unfolded tidy_iff] \<open>cs @ [c] \<noteq> ds @ [d]\<close> apart] by blast
qed


section \<open>The mount in use\<close>

text \<open>The requests of clients that use no whiteout names. The kernel asks to create only what it did
  not find.\<close>

fun clean_op :: "fuse_op \<Rightarrow> bool" where
  "clean_op (Open p flags) \<longleftrightarrow> clean_names p"
| "clean_op (Setattr p fh inp) \<longleftrightarrow> clean_names p"
| "clean_op (Create p name flags mode) \<longleftrightarrow> clean_names (p @ [name])"
| "clean_op (Mkdir p name mode) \<longleftrightarrow> clean_names (p @ [name])"
| "clean_op (Symlink p target name) \<longleftrightarrow> clean_names (p @ [name])"
| "clean_op (Remove p name dir) \<longleftrightarrow> clean_names (p @ [name])"
| "clean_op (Rename p name other q new_name flags) \<longleftrightarrow> clean_names (p @ [name]) \<and> clean_names (q @ [new_name])"

definition absent :: "fuse_state \<Rightarrow> os \<Rightarrow> path \<Rightarrow> string \<Rightarrow> bool" where
  "absent st s p name \<longleftrightarrow>
     reached st s p \<and> valid_name name \<and> \<not> exists_pi (stat st s (join_path (of_comps p) name))"

fun asked :: "fuse_state \<Rightarrow> os \<Rightarrow> path list \<Rightarrow> fuse_op \<Rightarrow> bool" where
  "asked st s fs (Create p name flags mode) \<longleftrightarrow> absent st s p name"
| "asked st s fs (Mkdir p name mode) \<longleftrightarrow> absent st s p name"
| "asked st s fs (Symlink p target name) \<longleftrightarrow> absent st s p name"
| "asked st s fs op \<longleftrightarrow> sent st s fs op"

text \<open>Reads and writes on an open file neither make nor remove a node, and do not fail the host's
  next calls.\<close>

definition file_use :: "path \<Rightarrow> os \<Rightarrow> os \<Rightarrow> bool" where
  "file_use q s t \<longleftrightarrow> file_change q s t \<and> same_host s t \<and> (look t q = None \<longleftrightarrow> look s q = None)"

definition use_law :: "fuse_lib \<Rightarrow> bool" where
  "use_law lib \<longleftrightarrow> (\<forall>q inp s. file_use q s (snd (fl_fsetattr lib q inp s)))"

inductive tidy_step :: "fuse_lib \<Rightarrow> fuse_state \<Rightarrow> os \<times> path list \<Rightarrow> use_event \<Rightarrow> os \<times> path list \<Rightarrow> bool"
  for lib st where
  request: "clean_op op \<Longrightarrow> asked st s fs op \<Longrightarrow> fuse_do lib st op s = (r, t) \<Longrightarrow>
    tidy_step lib st (s, fs) (Request op) (t, opened r @ fs)"
| file_io: "q \<in> set fs \<Longrightarrow> file_use q s t \<Longrightarrow> tidy_step lib st (s, fs) (FileIO q) (t, fs)"

definition tidy_start :: "fuse_lib \<Rightarrow> fuse_state \<Rightarrow> path \<Rightarrow> os \<times> path list \<Rightarrow> bool" where
  "tidy_start lib st U S \<longleftrightarrow> use_law lib \<and> mounted st U (fst S) \<and> quiet (fst S) \<and> tidy (fst S) U \<and> snd S = []"

text \<open>What every step keeps; the open files have ordinary names of the mount.\<close>

definition file_of :: "path \<Rightarrow> path \<Rightarrow> bool" where
  "file_of U q \<longleftrightarrow> (\<exists>cs. cs \<noteq> [] \<and> clean_names cs \<and> q = U @ cs)"

definition tidy_mount :: "fuse_state \<Rightarrow> path \<Rightarrow> os \<times> path list \<Rightarrow> bool" where
  "tidy_mount st U S \<longleftrightarrow>
     mounted st U (fst S) \<and> quiet (fst S) \<and> tidy (fst S) U \<and> (\<forall>q \<in> set (snd S). file_of U q)"

lemma file_of_below: "file_of U q \<Longrightarrow> strict_prefix U q"
  by (auto simp: file_of_def strict_prefix_def)

lemma use_law_file: "use_law lib \<Longrightarrow> file_law lib"
  by (simp add: use_law_def file_law_def file_use_def)

lemma tidy_mount_calm: "tidy_mount st U (s, fs) \<Longrightarrow> reached st s cs \<Longrightarrow> clean_names cs \<Longrightarrow> calm st U s cs"
  by (simp add: tidy_mount_def calm_def)

lemma absent_sent:
  assumes "tidy_mount st U (s, fs)" and "clean_names (p @ [c])" and "absent st s p c"
  shows "reached st s p" and "\<not> hidden_link st s p c"
proof -
  show r: "reached st s p" using assms(3) by (simp add: absent_def)
  have k: "calm st U s p" by (rule tidy_mount_calm [OF assms(1) r]) (use assms(2) in simp)
  have v: "valid_name c" using assms(3) by (simp add: absent_def)
  have "look s (U @ p @ [c]) = None" by (rule calm_free [OF k v]) (use assms(3) in \<open>simp add: absent_def\<close>)
  moreover note p = calm_place [OF k]
  have "os_lstat s (abs_of ((U @ p) @ [c])) = Inr n \<longleftrightarrow> look s ((U @ p) @ [c]) = Some n" for n
    by (rule lstat_snoc [OF place_wf [OF p] _ place_plain [OF p]]) (use place_full [OF p] v in simp)
  ultimately show "\<not> hidden_link st s p c"
    by (auto simp: hidden_link_def place_name [OF p v] split: sum.splits)
qed

lemma asked_sent: "tidy_mount st U (s, fs) \<Longrightarrow> clean_op op \<Longrightarrow> asked st s fs op \<Longrightarrow> sent st s fs op"
  using absent_sent by (cases op) auto

lemma tidy_makes_absent:
  assumes "tidy_mount st U (s, fs)" and "clean_names (p @ [c])" and "absent st s p c" and "makes lib st (of_comps p) c ok s t"
  shows "tidy t U"
proof -
  have "calm st U s p" using tidy_mount_calm [OF assms(1)] absent_sent(1) [OF assms(1-3)] assms(2) by simp
  then show ?thesis using tidy_makes assms(2-4) by (auto simp: absent_def)
qed

lemma known_calm:
  assumes "tidy_mount st U (s, fs)" and "known st s p" and "clean_names p"
  obtains cs c where "p = cs @ [c]" "calm st U s cs" "valid_name c" "\<not> prefix whiteout_prefix c"
    "exists_pi (stat st s (of_comps (cs @ [c])))"
proof (rule that [of "butlast p" "last p"])
  have e: "butlast p @ [last p] = p" using assms(2) by (simp add: known_def)
  then have "clean_names (butlast p @ [last p])" using assms(3) by (simp only: e)
  then show "calm st U s (butlast p)" "\<not> prefix whiteout_prefix (last p)"
    using tidy_mount_calm [OF assms(1)] assms(2) by (simp_all add: known_def)
  show "p = butlast p @ [last p]" "valid_name (last p)" "exists_pi (stat st s (of_comps (butlast p @ [last p])))"
    using assms(2) e by (simp_all add: known_def)
qed

lemma tidy_file_use:
  assumes k: "tidy_mount st U (s, fs)" and q: "file_of U q" and ch: "file_use q s t"
  shows "tidy_mount st U (t, fs)"
proof -
  have m: "mounted st U s" using k by (simp add: tidy_mount_def)
  obtain cs where cs: "q = U @ cs" "cs \<noteq> []" "clean_names cs" using q by (auto simp: file_of_def)
  have o: "j \<noteq> q \<Longrightarrow> look t j = look s j" for j using ch by (simp add: file_use_def file_change_def only_at_def)
  have n: "look t j = None \<longleftrightarrow> look s j = None" for j using o [of j] ch by (cases "j = q") (simp_all add: file_use_def)
  have w: "look t (U @ ds @ [d]) = look s (U @ ds @ [d])" if "prefix whiteout_prefix d" for ds d
    using cs(3) that by (intro o) (auto simp: cs(1))
  have "tidy t U"
    using k w unfolding tidy_mount_def tidy_iff tidy_but_def by (simp add: n is_dir_at_def)
  moreover have "mounted st U t"
    using kept_file_change [OF m file_of_below [OF q]] ch by (auto simp: file_use_def kept_def)
  moreover have "quiet t" using ch k same_host_quiet by (auto simp: file_use_def tidy_mount_def)
  ultimately show ?thesis using k by (simp add: tidy_mount_def)
qed


lemma tidy_open:
  assumes k: "tidy_mount st U (s, fs)" and c: "clean_names p" and ok: "sent st s fs (Open p flags)"
    and run: "fuse_open lib st (of_comps p) flags s = (r, t)"
  shows "tidy t U" and "r = Inr (Loopback q) \<Longrightarrow> file_of U q"
proof -
  have kn: "known st s p" and nl: "\<not> is_link_pi (stat st s (of_comps p))" using ok by simp_all
  obtain cs x where p: "p = cs @ [x]" "calm st U s cs" "valid_name x" "\<not> prefix whiteout_prefix x"
      "exists_pi (stat st s (of_comps (cs @ [x])))"
    by (rule known_calm [OF k kn c])
  note o = kept_open [OF calm_place [OF p(2)] p(3) nl [unfolded p(1)] run [unfolded p(1)]]
  show "tidy t U" by (rule tidy_seen [OF p(2-5) o(3)])
  show "r = Inr (Loopback q) \<Longrightarrow> file_of U q" using o(2) [of q] c unfolding file_of_def p(1) by blast
qed

lemma tidy_setattr:
  assumes k: "tidy_mount st U (s, fs)" and c: "clean_names p" and ok: "sent st s fs (Setattr p fh inp)"
    and law: "use_law lib" and run: "fuse_setattr lib st (of_comps p) fh inp s = (r, t)"
  shows "tidy t U"
proof (cases "\<exists>q. fh = Some (Loopback q)")
  case True
  then obtain q where q: "fh = Some (Loopback q)" by blast
  then have "t = snd (fl_fsetattr lib q inp s)" using run by (simp add: fuse_setattr_def)
  then have "file_use q s t" using law by (simp add: use_law_def)
  moreover have "file_of U q" using ok q k by (auto simp: tidy_mount_def)
  ultimately show ?thesis using tidy_file_use [OF k] by (simp add: tidy_mount_def)
next
  case False
  then have fh: "\<And>q. fh \<noteq> Some (Loopback q)" by blast
  have ok': "p = [] \<or> known st s p \<and>
      (\<not> is_link_pi (stat st s (of_comps p)) \<or> in_mode inp = None \<and> in_size inp = None)"
    using ok fh by (auto split: option.splits handle.splits)
  show ?thesis
  proof (cases "p = []")
    case True
    have "mounted st U s" "tidy s U" using k by (simp_all add: tidy_mount_def)
    then show ?thesis
      using kept_setattr_top(2) [OF _ fh] run True tidy_same by (auto simp: of_comps_def only_at_def)
  next
    case False
    then have kn: "known st s p" and nl: "\<not> is_link_pi (stat st s (of_comps p)) \<or> in_mode inp = None \<and> in_size inp = None"
      using ok' by blast+
    obtain cs x where p: "p = cs @ [x]" "calm st U s cs" "valid_name x" "\<not> prefix whiteout_prefix x"
        "exists_pi (stat st s (of_comps (cs @ [x])))"
      by (rule known_calm [OF k kn c])
    show ?thesis
      by (rule tidy_seen [OF p(2-5) kept_setattr(2) [OF calm_place [OF p(2)] p(3,5) nl [unfolded p(1)] fh run [unfolded p(1)]]])
  qed
qed

lemma tidy_request:
  assumes k: "tidy_mount st U (s, fs)" and law: "use_law lib" and c: "clean_op op" and ok: "asked st s fs op"
    and run: "fuse_do lib st op s = (r, t)"
  shows "tidy t U \<and> (\<forall>q \<in> set (opened r). file_of U q)"
proof (cases op)
  case (Open p flags)
  then obtain r1 where r1: "fuse_open lib st (of_comps p) flags s = (r1, t)" "r = map_sum id Some r1"
    using run by (auto simp: answer_iff)
  have cp: "clean_names p" and o: "sent st s fs (Open p flags)" using c ok Open by simp_all
  note o = tidy_open [OF k cp o r1(1)]
  show ?thesis using o r1(2) by (cases r1; cases "projr r1") auto
next
  case (Setattr p fh inp)
  then show ?thesis using tidy_setattr [OF k _ _ law] c ok run by (auto simp: answer_iff)
next
  case (Create p name flags mode)
  then have a: "clean_names (p @ [name])" "absent st s p name" using c ok by simp_all
  obtain r1 where r1: "fuse_create lib st (of_comps p) name flags mode s = (r1, t)" "r = map_sum id (Some \<circ> snd) r1"
    using run Create by (auto simp: answer_iff)
  have "mounted st U s" using k by (simp add: tidy_mount_def)
  note o = request_create(2) [OF reached_place [OF this absent_sent(1) [OF k a]] absent_sent(2) [OF k a] r1(1)]
  have "tidy t U" by (rule tidy_makes_absent [OF k a makesI(1) [OF r1(1)]])
  moreover have "file_of U q" if h: "q \<in> set (opened r)" for q
  proof -
    obtain e where "r1 = Inr (e, Loopback q)"
      using h r1(2) by (cases r1; cases "snd (projr r1)") auto
    then have "q = U @ p @ [name]" using o by blast
    then show ?thesis using a(1) unfolding file_of_def by blast
  qed
  ultimately show ?thesis by blast
next
  case (Remove p name dir)
  then have "calm st U s p" using tidy_mount_calm [OF k] c ok by simp
  moreover obtain r1 where "fuse_remove lib st (of_comps p) name dir s = (r1, t)"
    using run Remove by (cases dir) (auto simp: answer_iff fuse_rmdir_def fuse_unlink_def)
  ultimately show ?thesis using tidy_remove run c Remove by (auto simp: answer_iff)
next
  case (Rename p name other q new_name flags)
  then have "calm st U s p" "calm st U s q" using tidy_mount_calm [OF k] c ok by simp_all
  then show ?thesis using tidy_rename run c ok Rename by (auto simp: answer_iff)
next
  case (Mkdir p name mode)
  then show ?thesis using tidy_makes_absent [OF k _ _ makesI(2)] c ok run by (auto simp: answer_iff)
next
  case (Symlink p target name)
  then show ?thesis using tidy_makes_absent [OF k _ _ makesI(3)] c ok run by (auto simp: answer_iff)
qed

interpretation tidy_system: invariant_system "tidy_start lib st U" "tidy_step lib st"
    "\<lambda>S. use_law lib \<and> tidy_mount st U S" for lib st U
proof
  fix S ev T
  assume inv: "use_law lib \<and> tidy_mount st U S" and step: "tidy_step lib st S ev T"
  show "use_law lib \<and> tidy_mount st U T"
    using step
  proof (cases rule: tidy_step.cases)
    case (request op s fs r t)
    then have k: "tidy_mount st U (s, fs)" and law: "use_law lib" using inv by simp_all
    have m: "mounted st U s" "quiet s" and fs: "\<forall>q \<in> set fs. file_of U q" using k by (simp_all add: tidy_mount_def)
    then have "\<forall>q \<in> set fs. strict_prefix U q" using file_of_below by blast
    then have "mounted st U t"
      using kept_request [OF m(1) use_law_file [OF law] _ asked_sent [OF k request(4,5)] request(6)]
      by (simp add: kept_def)
    moreover have "same_host s t"
    proof (rule host.after_fuse_do [OF _ request(6)])
      fix q inp s r t assume "fl_fsetattr lib q inp s = (r, t)"
      then show "same_host s t"
        using law [unfolded use_law_def, rule_format, of q s inp] by (simp add: file_use_def)
    qed
    ultimately show ?thesis
      using tidy_request [OF k law request(4,5,6)] fs law same_host_quiet [OF _ m(2)]
      by (auto simp: tidy_mount_def request)
  next
    case (file_io q fs s t)
    then have "tidy_mount st U (s, fs)" "file_of U q" using inv by (auto simp: tidy_mount_def)
    then show ?thesis using tidy_file_use file_io inv by blast
  qed
qed (auto simp: tidy_start_def tidy_mount_def)


section \<open>Property\<close>

text \<open>C13: on a quiet host, whatever requests the clients make in whatever order, a mount whose clients use no
  whiteout names keeps its upper directory tidy: a whiteout there is a file and stands for an
  ordinary name that has no node of its own, so a commit of the directory shows what the mount
  shows. And no request runs into a symbolic link behind a whiteout: each one that the kernel makes
  of what it looked up is one for which the mount keeps to its upper directory.\<close>

theorem mount_stays_tidy:
  assumes "reachable (tidy_start lib st U) (tidy_step lib st) (s, fs)"
  shows "mounted st U s \<and> tidy s U \<and> (\<forall>op. clean_op op \<and> asked st s fs op \<longrightarrow> sent st s fs op)"
  using tidy_system.reachable_inv [OF assms] asked_sent by (auto simp: tidy_mount_def)

text \<open>The demonstration session again, with a file of the layers removed at last, and with the conditions on what the clients ask.\<close>

fun run_asked :: "fuse_lib \<Rightarrow> fuse_state \<Rightarrow> os \<times> path list \<Rightarrow> fuse_op list \<Rightarrow> (os \<times> path list) option" where
  "run_asked lib st S [] = Some S"
| "run_asked lib st (s, fs) (op # ops) =
     (if clean_op op \<and> asked st s fs op
      then (case fuse_do lib st op s of (r, t) \<Rightarrow> run_asked lib st (t, opened r @ fs) ops)
      else None)"

lemma run_asked_reachable:
  "reachable start (tidy_step lib st) S \<Longrightarrow> run_asked lib st S ops = Some T \<Longrightarrow>
     reachable start (tidy_step lib st) T"
proof (induction lib st S ops rule: run_asked.induct)
  case (2 lib st s fs op ops)
  obtain r t where rt: "fuse_do lib st op s = (r, t)" by force
  have ok: "clean_op op" "asked st s fs op" using "2.prems"(2) by (simp_all split: if_splits)
  have "reachable start (tidy_step lib st) (t, opened r @ fs)"
    by (rule reach_step [OF "2.prems"(1) tidy_step.request [OF ok rt]])
  then show ?case using "2.IH" [OF _ rt [symmetric]] "2.prems"(2) ok rt by simp
qed simp

definition tidy_session_end :: "(os \<times> path list) option" where
  "tidy_session_end = run_asked demo_lib demo_state (shared_host, []) (demo_session @ [Remove [''d''] ''g'' False])"

lemma tidy_demo_start: "tidy_start demo_lib demo_state [''u''] (shared_host, [])"
proof -
  have "mounted demo_state [''u''] shared_host" using demo_start by (simp add: mount_start_def)
  moreover have "quiet shared_host" "tidy shared_host [''u'']" by code_simp+
  moreover have "use_law demo_lib"
    by (simp add: use_law_def file_use_def file_change_def only_at_def demo_lib_def)
  ultimately show ?thesis by (simp add: tidy_start_def)
qed

theorem mount_stays_tidy_witness:
  "\<exists>s fs. tidy_session_end = Some (s, fs) \<and> look s [''u'', ''d'', ''.wh.g''] \<noteq> None \<and> tidy s [''u''] \<and>
     sent demo_state s fs (Mkdir [''n''] ''a'' 0x1ED)"
proof -
  have d: "tidy_session_end \<noteq> None" by code_simp
  let ?S = "the tidy_session_end"
  have v: "look (fst ?S) [''u'', ''d'', ''.wh.g''] \<noteq> None" "clean_op (Mkdir [''n''] ''a'' 0x1ED)"
    "asked demo_state (fst ?S) (snd ?S) (Mkdir [''n''] ''a'' 0x1ED)" by code_simp+
  obtain s fs where e: "tidy_session_end = Some (s, fs)" using d by auto
  then have S: "?S = (s, fs)" by (rule ssubst) (rule option.sel)
  have "reachable (tidy_start demo_lib demo_state [''u'']) (tidy_step demo_lib demo_state) (s, fs)"
    by (rule run_asked_reachable [OF reach_start [of "tidy_start demo_lib demo_state [''u'']", OF tidy_demo_start]
          e [unfolded tidy_session_end_def]])
  from mount_stays_tidy [OF this] have "tidy s [''u'']" "sent demo_state s fs (Mkdir [''n''] ''a'' 0x1ED)"
    using v unfolding S fst_conv snd_conv by blast+
  then show ?thesis using e v(1) unfolding S fst_conv by blast
qed

end
