(* ===== verification/ServiceBase.thy ===== *)
theory ServiceBase
  imports LayerMerge PathGuard
begin

text \<open>
  What the handlers of the daemon share: the classification of errors into gRPC codes
  (errors.go), the splitting of a writer's bytes into lines (progress.go), the commit selectors
  of the messages (manager.go: \<open>selFromLayer\<close>, \<open>selFromSelector\<close>) and \<open>checkPath\<close>.

  The texts of errors that other packages make are a parameter \<open>txt\<close>.
\<close>

section \<open>Errors to status codes\<close>

text \<open>\<open>err.Error()\<close>\<close>

fun error_text :: "(gerror \<Rightarrow> string) \<Rightarrow> gerror \<Rightarrow> string" where
  "error_text txt PathEscape = ''path escapes allowed root''"
| "error_text txt (Msg m) = m"
| "error_text txt (Wrap m e) = m @ error_text txt e"
| "error_text txt e = txt e"

text \<open>\<open>errors.Is\<close> and the second result of \<open>status.FromError\<close>: both follow wrapped errors.\<close>

fun error_is :: "gerror \<Rightarrow> gerror \<Rightarrow> bool" where
  "error_is (Wrap m e) target \<longleftrightarrow> Wrap m e = target \<or> error_is e target"
| "error_is e target \<longleftrightarrow> e = target"

fun has_status :: "gerror \<Rightarrow> bool" where
  "has_status (StatusErr c m) \<longleftrightarrow> True"
| "has_status (Wrap m e) \<longleftrightarrow> has_status e"
| "has_status e \<longleftrightarrow> False"

text \<open>\<open>mapError\<close> of an error that is not nil.\<close>

definition map_error :: "(gerror \<Rightarrow> string) \<Rightarrow> gerror \<Rightarrow> gerror" where
  "map_error txt e =
     (if has_status e then e
      else if error_is e PathEscape then StatusErr PermissionDenied (error_text txt e)
      else if error_is e Canceled then StatusErr CanceledCode (error_text txt e)
      else if error_is e DeadlineExceeded then StatusErr DeadlineExceededCode (error_text txt e)
      else if error_is e StateNotFound then StatusErr NotFound (error_text txt e)
      else if error_is e LockTimeout then StatusErr Aborted (error_text txt e)
      else if error_is e FormatUnsupported then StatusErr FailedPrecondition (error_text txt e)
      else StatusErr FailedPrecondition (error_text txt e))"

fun status_code :: "gerror \<Rightarrow> code option" where
  "status_code (StatusErr c m) = Some c"
| "status_code (Wrap m e) = status_code e"
| "status_code e = None"

text \<open>The error a chain of wrappers is about.\<close>

fun root_cause :: "gerror \<Rightarrow> gerror" where
  "root_cause (Wrap m e) = root_cause e"
| "root_cause e = e"

lemma error_is_cause: "(\<And>m e'. target \<noteq> Wrap m e') \<Longrightarrow> error_is e target \<longleftrightarrow> root_cause e = target"
  by (induction e target rule: error_is.induct) auto

lemma has_status_cause: "has_status e \<longleftrightarrow> (\<exists>c m. root_cause e = StatusErr c m)"
  by (induction e rule: has_status.induct) auto

lemma status_code_cause: "status_code e = (case root_cause e of StatusErr c m \<Rightarrow> Some c | _ \<Rightarrow> None)"
  by (induction e rule: status_code.induct) auto

lemma map_error_status: "\<exists>c. status_code (map_error txt e) = Some c"
  by (auto simp: map_error_def has_status_cause status_code_cause)

lemma map_error_idem: "map_error txt (map_error txt e) = map_error txt e"
  by (auto simp: map_error_def)

text \<open>Every error becomes a status, with the code of what it is about however often it was
  wrapped: a path outside the root is PermissionDenied, an unknown state NotFound, a busy lock
  Aborted, a cancelled or late call Canceled or DeadlineExceeded, a status keeps its code, and
  everything else is FailedPrecondition.\<close>

theorem map_error_classifies:
  "status_code (map_error txt e) = Some
     (case root_cause e of
        StatusErr c m \<Rightarrow> c
      | PathEscape \<Rightarrow> PermissionDenied
      | Canceled \<Rightarrow> CanceledCode
      | DeadlineExceeded \<Rightarrow> DeadlineExceededCode
      | StateNotFound \<Rightarrow> NotFound
      | LockTimeout \<Rightarrow> Aborted
      | _ \<Rightarrow> FailedPrecondition) \<and>
   map_error txt (map_error txt e) = map_error txt e"
  by (rule conjI [OF _ map_error_idem])
    (simp add: map_error_def has_status_cause status_code_cause error_is_cause split: gerror.splits)

section \<open>Lines of a writer\<close>

definition newline :: char where
  "newline = CHR 0x0A"

fun index_byte :: "char \<Rightarrow> bytes \<Rightarrow> nat option" where
  "index_byte c [] = None"
| "index_byte c (b # bs) = (if b = c then Some 0 else map_option Suc (index_byte c bs))"

lemma index_byte_less: "index_byte c bs = Some i \<Longrightarrow> i < length bs"
  by (induction bs arbitrary: i) (auto split: if_splits)

text \<open>The loop of \<open>lineWriter.Write\<close>: the complete lines, handed to \<open>onLine\<close> in order, and what is
  left in the buffer.\<close>

function drain :: "bytes \<Rightarrow> string list \<times> bytes" where
  "drain buf =
     (case index_byte newline buf of
        None \<Rightarrow> ([], buf)
      | Some i \<Rightarrow> (let (ls, rest) = drain (drop (Suc i) buf) in (take i buf # ls, rest)))"
  by auto
termination
  by (relation "measure length") (auto dest: index_byte_less)

declare drain.simps [simp del]

definition lw_write :: "bytes \<Rightarrow> bytes \<Rightarrow> string list \<times> bytes" where
  "lw_write buf p = drain (buf @ p)"

text \<open>A sequence of writes, with all lines in order.\<close>

fun lw_writes :: "bytes \<Rightarrow> bytes list \<Rightarrow> string list \<times> bytes" where
  "lw_writes buf [] = ([], buf)"
| "lw_writes buf (p # ps) =
     (let (ls, buf') = lw_write buf p; (ls', buf'') = lw_writes buf' ps in (ls @ ls', buf''))"

lemma index_byte_None: "index_byte c bs = None \<longleftrightarrow> c \<notin> set bs"
  by (induction bs) auto

lemma index_byte_append: "index_byte c bs = Some i \<Longrightarrow> index_byte c (bs @ cs) = Some i"
  by (induction bs arbitrary: i) (auto split: if_splits)

lemma index_byte_take:
  "index_byte c bs = Some i \<Longrightarrow> c \<notin> set (take i bs) \<and> bs = take i bs @ c # drop (Suc i) bs"
  by (induction bs arbitrary: i) (auto split: if_splits)

lemma drain_append: "drain (buf @ p) =
    (let (ls, rest) = drain buf; (ls', rest') = drain (rest @ p) in (ls @ ls', rest'))"
proof (induction buf rule: drain.induct)
  case (1 buf)
  show ?case
  proof (cases "index_byte newline buf")
    case None
    then show ?thesis by (simp add: drain.simps [of buf] split: prod.splits)
  next
    case (Some i)
    then have "i < length buf" by (rule index_byte_less)
    then show ?thesis
      using 1 [OF Some] Some index_byte_append [OF Some, of p]
      by (simp add: drain.simps [of buf] drain.simps [of "buf @ p"] split: prod.splits)
  qed
qed

lemma drain_rest: "drain buf = (ls, rest) \<Longrightarrow> newline \<notin> set rest"
proof (induction buf arbitrary: ls rest rule: drain.induct)
  case (1 buf)
  show ?case
  proof (cases "index_byte newline buf")
    case None
    then have "rest = buf" using "1.prems" by (simp add: drain.simps [of buf])
    then show ?thesis using None by (simp add: index_byte_None)
  next
    case (Some i)
    obtain ls' rest' where d: "drain (drop (Suc i) buf) = (ls', rest')" by force
    show ?thesis using "1.IH" [OF Some d] "1.prems" Some d by (simp add: drain.simps [of buf])
  qed
qed

lemma drain_lines: "drain buf = (ls, rest) \<Longrightarrow>
    concat (map (\<lambda>l. l @ [newline]) ls) @ rest = buf \<and> (\<forall>l \<in> set ls. newline \<notin> set l)"
proof (induction buf arbitrary: ls rest rule: drain.induct)
  case (1 buf)
  show ?case
  proof (cases "index_byte newline buf")
    case None
    then show ?thesis using "1.prems" by (auto simp: drain.simps [of buf])
  next
    case (Some i)
    obtain ls' rest' where d: "drain (drop (Suc i) buf) = (ls', rest')" by force
    then have "ls = take i buf # ls'" "rest = rest'" using "1.prems" Some by (simp_all add: drain.simps [of buf])
    then show ?thesis using "1.IH" [OF Some d] index_byte_take [OF Some] by simp
  qed
qed

lemma drain_done: "newline \<notin> set buf \<Longrightarrow> drain buf = ([], buf)"
  by (simp add: drain.simps [of buf] index_byte_None [symmetric])

lemma lw_writes_drain: "newline \<notin> set buf \<Longrightarrow> lw_writes buf ps = drain (buf @ concat ps)"
proof (induction ps arbitrary: buf)
  case Nil
  then show ?case by (simp add: drain_done)
next
  case (Cons p ps)
  obtain ls rest where d: "drain (buf @ p) = (ls, rest)" by force
  have "lw_writes rest ps = drain (rest @ concat ps)" by (rule Cons.IH [OF drain_rest [OF d]])
  then show ?case using drain_append [of "buf @ p" "concat ps"] d by (simp add: lw_write_def)
qed

text \<open>C40: the lines the progress writer reports do not depend on how the bytes are cut into
  writes, no byte is lost or changed: the lines with their line ends and the rest of the buffer
  are the bytes written.\<close>

theorem line_writer_chunks:
  "(case lw_writes [] ps of (ls, rest) \<Rightarrow>
      lw_writes [] ps = lw_write [] (concat ps) \<and>
      concat (map (\<lambda>l. l @ [newline]) ls) @ rest = concat ps \<and>
      newline \<notin> set (concat ls) \<and> newline \<notin> set rest)"
proof -
  obtain ls rest where d: "drain (concat ps) = (ls, rest)" by force
  have "lw_writes [] ps = (ls, rest)" using lw_writes_drain [of "[]" ps] d by simp
  then show ?thesis using drain_lines [OF d] drain_rest [OF d] d by (simp add: lw_write_def)
qed

section \<open>Selectors of the messages\<close>

text \<open>The oneof of a commit selector; no selector and no revision are both \<open>None\<close>.\<close>

datatype selector = SelState string | SelBranch string

record layer_msg =
  lm_repo :: string
  lm_revision :: "selector option"

definition sel_from_selector :: "string \<Rightarrow> selector option \<Rightarrow> layer_sel" where
  "sel_from_selector repo sel =
     (let out = \<lparr>ls_repo = repo, ls_state = '''', ls_branch = ''''\<rparr> in
      case sel of
        Some (SelState x) \<Rightarrow> out\<lparr>ls_state := x\<rparr>
      | Some (SelBranch b) \<Rightarrow> out\<lparr>ls_branch := b\<rparr>
      | None \<Rightarrow> out)"

definition sel_from_layer :: "layer_msg \<Rightarrow> layer_sel" where
  "sel_from_layer l = sel_from_selector (lm_repo l) (lm_revision l)"

section \<open>Checked paths\<close>

text \<open>A handler's \<open>checkPath\<close> with the error it returns.\<close>

definition check_path :: "(gerror \<Rightarrow> string) \<Rightarrow> path_guard \<Rightarrow> os \<Rightarrow> string \<Rightarrow> gerror + string" where
  "check_path txt g s p = (case check g s p of Inl e \<Rightarrow> Inl (map_error txt e) | Inr canon \<Rightarrow> Inr canon)"

definition invalid :: "string \<Rightarrow> gerror" where
  "invalid m = StatusErr InvalidArgument m"

lemma check_path_Inr: "check_path txt g s p = Inr q \<longleftrightarrow> check g s p = Inr q"
  by (simp add: check_path_def split: sum.splits)

end
