(* ===== verification/Manager.thy ===== *)
theory Manager
  imports ServiceBase Overlay
begin

text \<open>
  The mount manager (manager.go): the registry of live mounts and the cache of merged trees that
  mounts of the same layers share, with its reference counts. The sections that run under the
  mutex are definitions of their own (\<open>cached_tree_of\<close>, \<open>cache_tree\<close>, \<open>release_tree\<close>,
  \<open>register\<close>, \<open>take_mount\<close>); the methods are composed of them. ManagerSteps lets concurrent
  calls interleave at those sections.

  What is outside the repository is the record \<open>mount_pkg\<close>: the fvs2 repository package on a
  state of the host, mounting and unmounting (go-fuse), the random bytes, the programs that are
  run, and the texts of foreign errors.
\<close>

section \<open>Data\<close>

record mount_spec =
  sp_mount_point :: string
  sp_layers :: "layer_msg list"
  sp_upper_path :: string
  sp_clear_bits :: bool
  sp_debug :: bool

record resolved_layer =
  rl_repository_path :: string
  rl_state_id :: string
  rl_blocks_path :: string
  rl_block_size :: u32

record mount =
  mt_id :: string
  mt_spec :: mount_spec
  mt_server :: nat
  mt_point :: string
  mt_resolved :: "resolved_layer list"
  mt_tree :: fs_tree
  mt_upper :: string
  mt_nodes :: nat
  mt_at :: int
  mt_tree_key :: string

record mount_msg =
  mm_id :: string
  mm_spec :: mount_spec
  mm_resolved_layers :: "resolved_layer list"
  mm_node_count :: nat
  mm_mounted_at :: int

definition proto :: "mount \<Rightarrow> mount_msg" where
  "proto m = \<lparr>mm_id = mt_id m, mm_spec = mt_spec m, mm_resolved_layers = mt_resolved m,
     mm_node_count = mt_nodes m, mm_mounted_at = mt_at m\<rparr>"

record cached_tree =
  ct_tree :: fs_tree
  ct_refs :: int

record manager =
  mg_mounts :: "(string \<times> mount) list"
  mg_trees :: "(string \<times> cached_tree) list"
  mg_started :: int
  mg_guard :: path_guard

definition new_mount_manager :: "path_guard option \<Rightarrow> os \<Rightarrow> manager" where
  "new_mount_manager guard s =
     \<lparr>mg_mounts = [], mg_trees = [], mg_started = os_clock s,
      mg_guard = (case guard of None \<Rightarrow> \<lparr>guard_root = ''''\<rparr> | Some g \<Rightarrow> g)\<rparr>"

type_synonym 'a call = "os \<Rightarrow> (gerror + 'a) \<times> os"

record mount_pkg =
  mk_repo :: "os \<Rightarrow> repo_pkg"
  mk_mount :: "string \<Rightarrow> fuse_state \<Rightarrow> bool \<Rightarrow> nat call"
  mk_unmount :: "nat \<Rightarrow> unit call"
  mk_random :: "bytes call"
  mk_look_path :: "os \<Rightarrow> string \<Rightarrow> gerror + string"
  mk_run :: "string \<Rightarrow> string list \<Rightarrow> unit call"
  mk_text :: "gerror \<Rightarrow> string"
  mk_quote :: "string \<Rightarrow> string"

abbreviation (input) etext :: "mount_pkg \<Rightarrow> gerror \<Rightarrow> string" where
  "etext pk e \<equiv> error_text (mk_text pk) e"

section \<open>The cache of trees\<close>

definition tree_key :: "resolved_commit list \<Rightarrow> string" where
  "tree_key layers =
     join_with [CHR 0x1F] (map (\<lambda>l. rc_repo l @ [CHR 0x00] @ rc_state_id l) layers)"

text \<open>The first locked section of \<open>acquireTree\<close>.\<close>

definition cached_tree_of :: "string \<Rightarrow> manager \<Rightarrow> (fs_tree \<times> manager) option" where
  "cached_tree_of key mgr =
     (case map_of (mg_trees mgr) key of
        None \<Rightarrow> None
      | Some c \<Rightarrow> Some (ct_tree c,
          mgr\<lparr>mg_trees := AList.update key (c\<lparr>ct_refs := ct_refs c + 1\<rparr>) (mg_trees mgr)\<rparr>))"

text \<open>The second one, after the tree was built without the lock.\<close>

definition cache_tree :: "string \<Rightarrow> fs_tree \<Rightarrow> manager \<Rightarrow> fs_tree \<times> manager" where
  "cache_tree key tree mgr =
     (case map_of (mg_trees mgr) key of
        Some c \<Rightarrow> (ct_tree c,
          mgr\<lparr>mg_trees := AList.update key (c\<lparr>ct_refs := ct_refs c + 1\<rparr>) (mg_trees mgr)\<rparr>)
      | None \<Rightarrow> (tree,
          mgr\<lparr>mg_trees := AList.update key \<lparr>ct_tree = tree, ct_refs = 1\<rparr> (mg_trees mgr)\<rparr>))"

definition acquire_tree ::
    "repo_pkg \<Rightarrow> resolved_commit list \<Rightarrow> manager \<Rightarrow> (gerror + string \<times> fs_tree) \<times> manager" where
  "acquire_tree pkg layers mgr =
     (let key = tree_key layers in
      case cached_tree_of key mgr of
        Some (tree, mgr') \<Rightarrow> (Inr (key, tree), mgr')
      | None \<Rightarrow>
          (case build_merged_tree pkg layers '''' of
             Inl e \<Rightarrow> (Inl e, mgr)
           | Inr tree \<Rightarrow> (let (tree', mgr') = cache_tree key tree mgr in (Inr (key, tree'), mgr'))))"

definition release_tree :: "string \<Rightarrow> manager \<Rightarrow> manager" where
  "release_tree key mgr =
     (case map_of (mg_trees mgr) key of
        None \<Rightarrow> mgr
      | Some c \<Rightarrow>
          (let c' = c\<lparr>ct_refs := ct_refs c - 1\<rparr> in
           if ct_refs c' = 0 then mgr\<lparr>mg_trees := AList.delete key (mg_trees mgr)\<rparr>
           else mgr\<lparr>mg_trees := AList.update key c' (mg_trees mgr)\<rparr>))"

definition release_mount_caches :: "mount \<Rightarrow> manager \<Rightarrow> manager" where
  "release_mount_caches m = release_tree (mt_tree_key m)"

section \<open>Creating a mount\<close>

text \<open>\<open>newMountID\<close>: eight random bytes in hexadecimal.\<close>

definition hex_digit :: "nat \<Rightarrow> char" where
  "hex_digit n = ''0123456789abcdef'' ! (n mod 16)"

definition hex_encode :: "bytes \<Rightarrow> string" where
  "hex_encode bs = concat (map (\<lambda>b. [hex_digit (of_char b div 16), hex_digit (of_char b)]) bs)"

definition new_mount_id :: "mount_pkg \<Rightarrow> string call" where
  "new_mount_id pk s =
     (case mk_random pk s of (Inl e, s') \<Rightarrow> (Inl e, s') | (Inr b, s') \<Rightarrow> (Inr (hex_encode b), s'))"

text \<open>The loop over the layers of the specification.\<close>

fun check_layers ::
    "(gerror \<Rightarrow> string) \<Rightarrow> path_guard \<Rightarrow> os \<Rightarrow> layer_msg list \<Rightarrow> gerror + layer_sel list" where
  "check_layers txt g s [] = Inr []"
| "check_layers txt g s (l # ls) =
     (if lm_repo l = '''' then Inl (invalid ''layer repository_path is required'')
      else (case check_path txt g s (lm_repo l) of
              Inl e \<Rightarrow> Inl e
            | Inr canon \<Rightarrow>
                (case check_layers txt g s ls of
                   Inl e \<Rightarrow> Inl e
                 | Inr sels \<Rightarrow> Inr ((sel_from_layer l)\<lparr>ls_repo := canon\<rparr> # sels))))"

fun resolve_layers ::
    "(gerror \<Rightarrow> string) \<Rightarrow> repo_pkg \<Rightarrow> layer_sel list \<Rightarrow> gerror + resolved_commit list" where
  "resolve_layers txt pkg [] = Inr []"
| "resolve_layers txt pkg (sel # sels) =
     (case resolve_layer pkg sel of
        Inl e \<Rightarrow> Inl (StatusErr NotFound
          (''resolve layer '' @ ls_repo sel @ '': '' @ error_text txt e))
      | Inr rc \<Rightarrow>
          (case resolve_layers txt pkg sels of Inl e \<Rightarrow> Inl e | Inr rcs \<Rightarrow> Inr (rc # rcs)))"

definition resolved_layer_of :: "resolved_commit \<Rightarrow> resolved_layer" where
  "resolved_layer_of rc =
     \<lparr>rl_repository_path = rc_repo rc, rl_state_id = rc_state_id rc, rl_blocks_path = rc_blocks rc,
      rl_block_size = word_of_int (rc_block_size rc)\<rparr>"

text \<open>\<open>create\<close> up to \<open>acquireTree\<close>: the mount point and the resolved layers.\<close>

definition prepare ::
    "mount_pkg \<Rightarrow> path_guard \<Rightarrow> mount_spec \<Rightarrow> os \<Rightarrow> gerror + string \<times> resolved_commit list" where
  "prepare pk g spec s =
     (if sp_mount_point spec = '''' then Inl (invalid ''mount_point is required'')
      else if sp_layers spec = [] then Inl (invalid ''at least one layer is required'')
      else (case check_path (mk_text pk) g s (sp_mount_point spec) of
              Inl e \<Rightarrow> Inl e
            | Inr point \<Rightarrow>
                (case check_layers (mk_text pk) g s (sp_layers spec) of
                   Inl e \<Rightarrow> Inl e
                 | Inr sels \<Rightarrow>
                     (case resolve_layers (mk_text pk) (mk_repo pk s) sels of
                        Inl e \<Rightarrow> Inl e
                      | Inr rcs \<Rightarrow> Inr (point, rcs)))))"

text \<open>\<open>create\<close> between \<open>acquireTree\<close> and the registration: the upper directory and the mount.\<close>

definition prepare_upper :: "mount_pkg \<Rightarrow> path_guard \<Rightarrow> string \<Rightarrow> string call" where
  "prepare_upper pk g upper s =
     (if upper = '''' then (Inr '''', s)
      else (case check_path (mk_text pk) g s upper of
              Inl e \<Rightarrow> (Inl e, s)
            | Inr canon \<Rightarrow>
                (case os_mkdir_all canon 0x1ED s of
                   (Inl e, s') \<Rightarrow> (Inl (StatusErr Internal (''upper dir: '' @ etext pk (Errno e))), s')
                 | (Inr _, s') \<Rightarrow> (Inr canon, s'))))"

definition make_mount ::
    "mount_pkg \<Rightarrow> path_guard \<Rightarrow> mount_spec \<Rightarrow> string \<Rightarrow> resolved_commit list \<Rightarrow> string \<Rightarrow> fs_tree \<Rightarrow>
     mount call" where
  "make_mount pk g spec point rcs key tree s =
     (case prepare_upper pk g (sp_upper_path spec) s of
        (Inl e, s1) \<Rightarrow> (Inl e, s1)
      | (Inr upper, s1) \<Rightarrow>
          (case mk_mount pk point (new_fuse_root s1 (Some tree) upper (sp_clear_bits spec))
              (sp_debug spec) s1 of
             (Inl e, s2) \<Rightarrow> (Inl (StatusErr Internal (''mount: '' @ etext pk e)), s2)
           | (Inr server, s2) \<Rightarrow>
               (case new_mount_id pk s2 of
                  (Inl e, s3) \<Rightarrow>
                    (Inl (StatusErr Internal (''mount id: '' @ etext pk e)),
                     snd (mk_unmount pk server s3))
                | (Inr i, s3) \<Rightarrow>
                    (Inr \<lparr>mt_id = i, mt_spec = spec, mt_server = server, mt_point = point,
                       mt_resolved = map resolved_layer_of rcs, mt_tree = tree, mt_upper = upper,
                       mt_nodes = length (t_nodes tree), mt_at = os_clock s3, mt_tree_key = key\<rparr>,
                     s3))))"

definition register :: "mount \<Rightarrow> manager \<Rightarrow> manager" where
  "register m mgr = mgr\<lparr>mg_mounts := AList.update (mt_id m) m (mg_mounts mgr)\<rparr>"

definition create ::
    "mount_pkg \<Rightarrow> mount_spec \<Rightarrow> manager \<Rightarrow> os \<Rightarrow> (gerror + mount_msg) \<times> manager \<times> os" where
  "create pk spec mgr s =
     (case prepare pk (mg_guard mgr) spec s of
        Inl e \<Rightarrow> (Inl e, mgr, s)
      | Inr (point, rcs) \<Rightarrow>
          (case acquire_tree (mk_repo pk s) rcs mgr of
             (Inl e, mgr1) \<Rightarrow> (Inl (StatusErr Internal (''build tree: '' @ etext pk e)), mgr1, s)
           | (Inr (key, tree), mgr1) \<Rightarrow>
               (case make_mount pk (mg_guard mgr) spec point rcs key tree s of
                  (Inl e, s1) \<Rightarrow> (Inl e, release_tree key mgr1, s1)
                | (Inr m, s1) \<Rightarrow> (Inr (proto m), register m mgr1, s1))))"

section \<open>Looking up and listing\<close>

definition get :: "mount_pkg \<Rightarrow> string \<Rightarrow> manager \<Rightarrow> gerror + mount_msg" where
  "get pk i mgr =
     (case map_of (mg_mounts mgr) i of
        None \<Rightarrow> Inl (StatusErr NotFound (''no mount with id '' @ mk_quote pk i))
      | Some m \<Rightarrow> Inr (proto m))"

text \<open>Go iterates over the map in an order of its own; this is one of them.\<close>

definition list_mounts :: "manager \<Rightarrow> mount_msg list" where
  "list_mounts mgr = map (\<lambda>(i, m). proto m) (mg_mounts mgr)"

definition mount_view :: "string \<Rightarrow> manager \<Rightarrow> gerror + fs_tree \<times> string" where
  "mount_view i mgr =
     (case map_of (mg_mounts mgr) i of
        None \<Rightarrow> Inl (StatusErr NotFound (''mount '' @ i @ '' not found''))
      | Some m \<Rightarrow> Inr (mt_tree m, mt_upper m))"

section \<open>Unmounting\<close>

text \<open>\<open>lazyUnmount\<close> (main.go): the first of the two programs that is installed.\<close>

fun lazy_unmount_by :: "mount_pkg \<Rightarrow> string list \<Rightarrow> string \<Rightarrow> unit call" where
  "lazy_unmount_by pk [] point s = (Inl (Msg ''fusermount not found''), s)"
| "lazy_unmount_by pk (command # commands) point s =
     (case mk_look_path pk s command of
        Inr path \<Rightarrow> mk_run pk path [''-uz'', point] s
      | Inl _ \<Rightarrow> lazy_unmount_by pk commands point s)"

definition lazy_unmount :: "mount_pkg \<Rightarrow> string \<Rightarrow> unit call" where
  "lazy_unmount pk = lazy_unmount_by pk [''fusermount3'', ''fusermount'']"

definition detach :: "mount_pkg \<Rightarrow> mount \<Rightarrow> bool \<Rightarrow> unit call" where
  "detach pk m lazy s =
     (case (if lazy then lazy_unmount pk (mt_point m) s else (Inl (Msg []), s)) of
        (Inr _, s') \<Rightarrow> (Inr (), s')
      | (Inl _, s') \<Rightarrow> mk_unmount pk (mt_server m) s')"

definition take_mount :: "string \<Rightarrow> manager \<Rightarrow> manager" where
  "take_mount i mgr = mgr\<lparr>mg_mounts := AList.delete i (mg_mounts mgr)\<rparr>"

definition unmount ::
    "mount_pkg \<Rightarrow> string \<Rightarrow> bool \<Rightarrow> manager \<Rightarrow> os \<Rightarrow> (gerror + unit) \<times> manager \<times> os" where
  "unmount pk i lazy mgr s =
     (case map_of (mg_mounts mgr) i of
        None \<Rightarrow> (Inl (StatusErr NotFound (''no mount with id '' @ mk_quote pk i)), mgr, s)
      | Some m \<Rightarrow>
          (let mgr1 = take_mount i mgr in
           case detach pk m lazy s of
             (Inl e, s1) \<Rightarrow>
               (Inl (StatusErr Internal (''unmount '' @ mt_point m @ '': '' @ etext pk e)),
                release_mount_caches m mgr1, s1)
           | (Inr _, s1) \<Rightarrow> (Inr (), release_mount_caches m mgr1, s1)))"

text \<open>The sweep of \<open>unmountAll\<close>; the result lists the failures that are logged.\<close>

fun sweep ::
    "mount_pkg \<Rightarrow> bool \<Rightarrow> mount list \<Rightarrow> manager \<Rightarrow> os \<Rightarrow> (string \<times> gerror) list \<times> manager \<times> os" where
  "sweep pk lazy [] mgr s = ([], mgr, s)"
| "sweep pk lazy (m # ms) mgr s =
     (let mgr1 = release_mount_caches m mgr; (r, s1) = detach pk m lazy s;
          (logged, mgr2, s2) = sweep pk lazy ms mgr1 s1 in
      ((case r of Inl e \<Rightarrow> [(mt_id m, e)] | Inr _ \<Rightarrow> []) @ logged, mgr2, s2))"

definition unmount_all ::
    "mount_pkg \<Rightarrow> bool \<Rightarrow> manager \<Rightarrow> os \<Rightarrow> (string \<times> gerror) list \<times> manager \<times> os" where
  "unmount_all pk lazy mgr s =
     sweep pk lazy (map snd (mg_mounts mgr)) (mgr\<lparr>mg_mounts := []\<rparr>) s"

section \<open>A package to try the manager with\<close>

text \<open>Mounting succeeds, unmounting reports that the server is busy.\<close>

definition demo_mk :: mount_pkg where
  "demo_mk =
     \<lparr>mk_repo = (\<lambda>_. demo_pkg), mk_mount = (\<lambda>_ _ _ s. (Inr 7, s)),
      mk_unmount = (\<lambda>_ s. (Inl (Errno EBUSY), s)), mk_random = (\<lambda>s. (Inr ''ABCDEFGH'', s)),
      mk_look_path = (\<lambda>_ _. Inl (Msg ''not found'')), mk_run = (\<lambda>_ _ s. (Inr (), s)),
      mk_text = (\<lambda>_. ''error''), mk_quote = id\<rparr>"

end
