(* ===== verification/ManagerSteps.thy ===== *)
theory ManagerSteps
  imports Manager "HOL-Library.Multiset"
begin

text \<open>
  Concurrent calls of the mount manager: its state and the calls that are between two locked
  sections, with one rule per section. The reference count of a cached tree is the number of
  mounts and calls that hold it, in every state that any interleaving reaches; \<open>create\<close>,
  \<open>unmount\<close> and \<open>unmountAll\<close> without interference are sequences of such steps.
\<close>

section \<open>Steps\<close>

text \<open>
  A call of \<open>create\<close> that builds its tree after a miss in the cache, one that holds a reference,
  and a call of \<open>unmount\<close> or \<open>unmountAll\<close> that took a mount away and still has to release its
  tree.
\<close>

datatype pending =
    Building "resolved_commit list"
  | Holding string fs_tree
  | Releasing string

record system =
  sy_mgr :: manager
  sy_calls :: "pending multiset"

datatype event =
  Hit string | Miss string | BuildFailed | Built string | Registered string | Abandoned string
  | Taken string | Released string | Swept

inductive step :: "system \<Rightarrow> event \<Rightarrow> system \<Rightarrow> bool" where
  hit: "cached_tree_of (tree_key layers) mgr = Some (tree, mgr') \<Longrightarrow>
    step \<lparr>sy_mgr = mgr, sy_calls = cs\<rparr> (Hit (tree_key layers))
      \<lparr>sy_mgr = mgr', sy_calls = add_mset (Holding (tree_key layers) tree) cs\<rparr>"
| miss: "cached_tree_of (tree_key layers) mgr = None \<Longrightarrow>
    step \<lparr>sy_mgr = mgr, sy_calls = cs\<rparr> (Miss (tree_key layers))
      \<lparr>sy_mgr = mgr, sy_calls = add_mset (Building layers) cs\<rparr>"
| build_failed: "build_merged_tree pkg layers '''' = Inl e \<Longrightarrow>
    step \<lparr>sy_mgr = mgr, sy_calls = add_mset (Building layers) cs\<rparr> BuildFailed
      \<lparr>sy_mgr = mgr, sy_calls = cs\<rparr>"
| built: "build_merged_tree pkg layers '''' = Inr tree \<Longrightarrow>
    cache_tree (tree_key layers) tree mgr = (tree', mgr') \<Longrightarrow>
    step \<lparr>sy_mgr = mgr, sy_calls = add_mset (Building layers) cs\<rparr> (Built (tree_key layers))
      \<lparr>sy_mgr = mgr', sy_calls = add_mset (Holding (tree_key layers) tree') cs\<rparr>"
| registered: "mt_tree_key m = key \<Longrightarrow> mt_tree m = tree \<Longrightarrow>
    map_of (mg_mounts mgr) (mt_id m) = None \<Longrightarrow>
    step \<lparr>sy_mgr = mgr, sy_calls = add_mset (Holding key tree) cs\<rparr> (Registered (mt_id m))
      \<lparr>sy_mgr = register m mgr, sy_calls = cs\<rparr>"
| abandoned:
    "step \<lparr>sy_mgr = mgr, sy_calls = add_mset (Holding key tree) cs\<rparr> (Abandoned key)
      \<lparr>sy_mgr = release_tree key mgr, sy_calls = cs\<rparr>"
| taken: "map_of (mg_mounts mgr) i = Some m \<Longrightarrow>
    step \<lparr>sy_mgr = mgr, sy_calls = cs\<rparr> (Taken i)
      \<lparr>sy_mgr = take_mount i mgr, sy_calls = add_mset (Releasing (mt_tree_key m)) cs\<rparr>"
| released:
    "step \<lparr>sy_mgr = mgr, sy_calls = add_mset (Releasing key) cs\<rparr> (Released key)
      \<lparr>sy_mgr = release_tree key mgr, sy_calls = cs\<rparr>"
| swept:
    "step \<lparr>sy_mgr = mgr, sy_calls = cs\<rparr> Swept
      \<lparr>sy_mgr = mgr\<lparr>mg_mounts := []\<rparr>,
       sy_calls = mset (map (\<lambda>(i, m). Releasing (mt_tree_key m)) (mg_mounts mgr)) + cs\<rparr>"

inductive_cases stepE: "step S e T"

definition started :: "system \<Rightarrow> bool" where
  "started S \<longleftrightarrow> mg_mounts (sy_mgr S) = [] \<and> mg_trees (sy_mgr S) = [] \<and> sy_calls S = {#}"

section \<open>Who holds a tree\<close>

fun held :: "pending \<Rightarrow> (string \<times> fs_tree option) option" where
  "held (Building layers) = None"
| "held (Holding key tree) = Some (key, Some tree)"
| "held (Releasing key) = Some (key, None)"

definition holds_key :: "string \<Rightarrow> pending \<Rightarrow> bool" where
  "holds_key key p \<longleftrightarrow> (case held p of Some (k, _) \<Rightarrow> k = key | None \<Rightarrow> False)"

definition mounts_of :: "string \<Rightarrow> manager \<Rightarrow> nat" where
  "mounts_of key mgr = length (filter (\<lambda>(i, m). mt_tree_key m = key) (mg_mounts mgr))"

definition holders :: "string \<Rightarrow> system \<Rightarrow> nat" where
  "holders key S = mounts_of key (sy_mgr S) + size (filter_mset (holds_key key) (sy_calls S))"

text \<open>Every mount and every call holds the tree that is cached under its key.\<close>

definition shares :: "string \<Rightarrow> fs_tree \<Rightarrow> system \<Rightarrow> bool" where
  "shares key tree S \<longleftrightarrow>
     (\<forall>(i, m) \<in> set (mg_mounts (sy_mgr S)). mt_tree_key m = key \<longrightarrow> mt_tree m = tree) \<and>
     (\<forall>p \<in># sy_calls S. \<forall>t. held p = Some (key, Some t) \<longrightarrow> t = tree)"

definition counted :: "system \<Rightarrow> string \<Rightarrow> bool" where
  "counted S key \<longleftrightarrow>
     (case map_of (mg_trees (sy_mgr S)) key of
        None \<Rightarrow> holders key S = 0
      | Some c \<Rightarrow> 0 < holders key S \<and> ct_refs c = int (holders key S) \<and> shares key (ct_tree c) S)"

definition refs_ok :: "system \<Rightarrow> bool" where
  "refs_ok S \<longleftrightarrow>
     distinct (map fst (mg_mounts (sy_mgr S))) \<and> distinct (map fst (mg_trees (sy_mgr S))) \<and>
     (\<forall>i m. map_of (mg_mounts (sy_mgr S)) i = Some m \<longrightarrow> mt_id m = i) \<and>
     (\<forall>key. counted S key)"

lemma holds_key_simps [simp]:
  "\<not> holds_key key (Building layers)"
  "holds_key key (Holding k t) \<longleftrightarrow> k = key"
  "holds_key key (Releasing k) \<longleftrightarrow> k = key"
  by (simp_all add: holds_key_def)

lemma update_fresh: "map_of al k = None \<Longrightarrow> AList.update k v al = al @ [(k, v)]"
  by (induction al) auto

lemma length_filter_delete:
  "distinct (map fst al) \<Longrightarrow> map_of al k = Some v \<Longrightarrow>
     length (filter P al) = length (filter P (AList.delete k al)) + (if P (k, v) then 1 else 0)"
proof (induction al)
  case (Cons a al)
  show ?case
  proof (cases "fst a = k")
    case True
    then have "k \<notin> fst ` set al" using Cons.prems(1) by auto
    then have "AList.delete k al = al" by simp
    then show ?thesis using True Cons.prems by (cases a) auto
  next
    case False
    then show ?thesis using Cons by (cases a) auto
  qed
qed simp

lemma mounts_of_register:
  "map_of (mg_mounts mgr) (mt_id m) = None \<Longrightarrow>
     mounts_of key (register m mgr) = mounts_of key mgr + (if mt_tree_key m = key then 1 else 0)"
  by (simp add: mounts_of_def register_def update_fresh)

lemma mounts_of_take:
  "distinct (map fst (mg_mounts mgr)) \<Longrightarrow> map_of (mg_mounts mgr) i = Some m \<Longrightarrow>
     mounts_of key mgr = mounts_of key (take_mount i mgr) + (if mt_tree_key m = key then 1 else 0)"
  by (simp add: mounts_of_def take_mount_def length_filter_delete [of _ i m])

lemma mounts_of_trees [simp]: "mounts_of key (mgr\<lparr>mg_trees := ts\<rparr>) = mounts_of key mgr"
  by (simp add: mounts_of_def)

text \<open>A step that keeps the holders and the cached trees of the other keys.\<close>

lemma shares_mono:
  "shares key tree S \<Longrightarrow> set (mg_mounts (sy_mgr T)) \<subseteq> set (mg_mounts (sy_mgr S)) \<Longrightarrow>
     (\<And>p t. p \<in># sy_calls T \<Longrightarrow> held p = Some (key, Some t) \<Longrightarrow> p \<in># sy_calls S \<or> t = tree) \<Longrightarrow>
     shares key tree T"
  unfolding shares_def by blast

lemma release_tree_mounts [simp]: "mg_mounts (release_tree key mgr) = mg_mounts mgr"
  by (simp add: release_tree_def Let_def split: option.splits)

lemma map_of_release:
  "distinct (map fst (mg_trees mgr)) \<Longrightarrow>
   map_of (mg_trees (release_tree key mgr)) k =
     (if k = key then
        (case map_of (mg_trees mgr) key of
           None \<Rightarrow> None
         | Some c \<Rightarrow> if ct_refs c = 1 then None else Some (c\<lparr>ct_refs := ct_refs c - 1\<rparr>))
      else map_of (mg_trees mgr) k) \<and>
   distinct (map fst (mg_trees (release_tree key mgr)))"
  by (auto simp: release_tree_def Let_def update_conv' delete_conv' distinct_update distinct_delete
      split: option.splits)

lemma release_ok:
  assumes ok: "refs_ok \<lparr>sy_mgr = mgr, sy_calls = add_mset p cs\<rparr>" and p: "holds_key key p"
  shows "refs_ok \<lparr>sy_mgr = release_tree key mgr, sy_calls = cs\<rparr>"
proof -
  let ?S = "\<lparr>sy_mgr = mgr, sy_calls = add_mset p cs\<rparr>" and ?T = "\<lparr>sy_mgr = release_tree key mgr, sy_calls = cs\<rparr>"
  have d: "distinct (map fst (mg_trees mgr))" using ok by (simp add: refs_ok_def)
  have one: "holders k ?S = holders k ?T + (if k = key then 1 else 0)" for k
    using p by (auto simp: holders_def mounts_of_def holds_key_def split: option.splits)
  have sh: "shares k t ?T" if "shares k t ?S" for k t
    using that by (rule shares_mono) auto
  have "counted ?T k" for k
  proof (cases "map_of (mg_trees mgr) k")
    case None
    then have "holders k ?S = 0" using ok by (auto simp: refs_ok_def counted_def dest: spec [of _ k])
    then show ?thesis using None one [of k] map_of_release [OF d, of key k]
      by (auto simp: counted_def split: if_splits)
  next
    case (Some c)
    then have c: "ct_refs c = int (holders k ?S)" "shares k (ct_tree c) ?S" "0 < holders k ?S"
      using ok by (auto simp: refs_ok_def counted_def dest: spec [of _ k])
    show ?thesis
      using Some c one [of k] sh [OF c(2)] map_of_release [OF d, of key k] by (auto simp: counted_def)
  qed
  then show ?thesis
    using ok map_of_release [OF d] by (simp add: refs_ok_def)
qed

lemma gain_ok:
  assumes ok: "refs_ok \<lparr>sy_mgr = mgr, sy_calls = cs\<rparr>" and c: "cache_tree key tree mgr = (t, mgr')"
  shows "refs_ok \<lparr>sy_mgr = mgr', sy_calls = add_mset (Holding key t) cs\<rparr>"
proof -
  let ?S = "\<lparr>sy_mgr = mgr, sy_calls = cs\<rparr>" and ?T = "\<lparr>sy_mgr = mgr', sy_calls = add_mset (Holding key t) cs\<rparr>"
  have d: "distinct (map fst (mg_trees mgr))" using ok by (simp add: refs_ok_def)
  have m: "mg_mounts mgr' = mg_mounts mgr" "distinct (map fst (mg_trees mgr'))"
    and look: "map_of (mg_trees mgr') k =
      (if k = key then Some (case map_of (mg_trees mgr) key of
           None \<Rightarrow> \<lparr>ct_tree = t, ct_refs = 1\<rparr> | Some c \<Rightarrow> c\<lparr>ct_refs := ct_refs c + 1\<rparr>)
       else map_of (mg_trees mgr) k)"
    and t: "\<And>c. map_of (mg_trees mgr) key = Some c \<Longrightarrow> t = ct_tree c" for k
    using c d by (auto simp: cache_tree_def update_conv' distinct_update simp del: map_of_eq_Some_iff
        split: option.splits)
  have one: "holders k ?T = holders k ?S + (if k = key then 1 else 0)" for k
    by (auto simp: holders_def mounts_of_def m)
  have "counted ?T k" for k
  proof (cases "map_of (mg_trees mgr) k")
    case None
    then have z: "holders k ?S = 0" using ok by (auto simp: refs_ok_def counted_def dest: spec [of _ k])
    show ?thesis
    proof (cases "k = key")
      case True
      have "shares key t ?T"
        using z True unfolding shares_def holders_def mounts_of_def
        by (fastforce simp: m filter_empty_conv holds_key_def)
      then show ?thesis using True None one [of k] z look [of k] by (simp add: counted_def)
    qed (use None one [of k] z look [of k] in \<open>simp add: counted_def\<close>)
  next
    case (Some c)
    then have c: "ct_refs c = int (holders k ?S)" "shares k (ct_tree c) ?S" "0 < holders k ?S"
      using ok by (auto simp: refs_ok_def counted_def dest: spec [of _ k])
    have "shares k (ct_tree c) ?T"
      by (rule shares_mono [OF c(2)]) (use t Some m in auto)
    then show ?thesis using Some c one [of k] look [of k] by (auto simp: counted_def)
  qed
  then show ?thesis using ok m by (simp add: refs_ok_def)
qed

lemma hit_cache: "cached_tree_of key mgr = Some (t, mgr') \<Longrightarrow> cache_tree key tree mgr = (t, mgr')"
  by (simp add: cached_tree_of_def cache_tree_def split: option.splits)

text \<open>A step that only changes who holds a tree.\<close>

lemma same_holders_ok:
  assumes ok: "refs_ok S" and t: "mg_trees (sy_mgr T) = mg_trees (sy_mgr S)"
    and h: "\<And>k. holders k T = holders k S" and sh: "\<And>k t. shares k t S \<Longrightarrow> 0 < holders k S \<Longrightarrow> shares k t T"
    and m: "distinct (map fst (mg_mounts (sy_mgr T)))"
      "\<And>i m. map_of (mg_mounts (sy_mgr T)) i = Some m \<Longrightarrow> mt_id m = i"
  shows "refs_ok T"
proof -
  have "counted T k" for k
    using ok t h [of k] sh [of k] by (auto simp: refs_ok_def counted_def split: option.splits dest: spec [of _ k])
  then show ?thesis using assms by (simp add: refs_ok_def del: map_of_eq_Some_iff)
qed

lemma building_ok:
  "refs_ok \<lparr>sy_mgr = mgr, sy_calls = add_mset (Building layers) cs\<rparr> \<longleftrightarrow> refs_ok \<lparr>sy_mgr = mgr, sy_calls = cs\<rparr>"
proof -
  have "counted \<lparr>sy_mgr = mgr, sy_calls = add_mset (Building layers) cs\<rparr> =
      counted \<lparr>sy_mgr = mgr, sy_calls = cs\<rparr>"
    by (rule ext) (simp add: counted_def holders_def shares_def cong: option.case_cong)
  then show ?thesis by (simp add: refs_ok_def)
qed

lemma register_ok:
  assumes ok: "refs_ok \<lparr>sy_mgr = mgr, sy_calls = add_mset (Holding (mt_tree_key m) (mt_tree m)) cs\<rparr>"
    and new: "map_of (mg_mounts mgr) (mt_id m) = None"
  shows "refs_ok \<lparr>sy_mgr = register m mgr, sy_calls = cs\<rparr>"
proof (rule same_holders_ok [OF ok])
  let ?S = "\<lparr>sy_mgr = mgr, sy_calls = add_mset (Holding (mt_tree_key m) (mt_tree m)) cs\<rparr>"
  show "holders k \<lparr>sy_mgr = register m mgr, sy_calls = cs\<rparr> = holders k ?S" for k
    by (simp add: holders_def mounts_of_register [OF new])
  show "shares k t ?S \<Longrightarrow> shares k t \<lparr>sy_mgr = register m mgr, sy_calls = cs\<rparr>" for k t
    unfolding shares_def by (auto simp: register_def update_fresh [OF new])
qed (use ok in \<open>auto simp: refs_ok_def register_def distinct_update update_conv' split: if_splits\<close>)

lemma take_ok:
  assumes ok: "refs_ok \<lparr>sy_mgr = mgr, sy_calls = cs\<rparr>" and i: "map_of (mg_mounts mgr) i = Some m"
  shows "refs_ok \<lparr>sy_mgr = take_mount i mgr, sy_calls = add_mset (Releasing (mt_tree_key m)) cs\<rparr>"
proof (rule same_holders_ok [OF ok])
  have d: "distinct (map fst (mg_mounts mgr))" using ok by (simp add: refs_ok_def)
  have sub: "set (AList.delete i (mg_mounts mgr)) \<subseteq> set (mg_mounts mgr)"
    by (auto simp: AList.delete_eq)
  let ?S = "\<lparr>sy_mgr = mgr, sy_calls = cs\<rparr>"
  let ?T = "\<lparr>sy_mgr = take_mount i mgr, sy_calls = add_mset (Releasing (mt_tree_key m)) cs\<rparr>"
  show "holders k ?T = holders k ?S" for k
    using mounts_of_take [OF d i, of k] by (auto simp: holders_def)
  show "shares k t ?S \<Longrightarrow> shares k t ?T" for k t
    by (erule shares_mono) (use sub in \<open>auto simp: take_mount_def\<close>)
qed (use ok in \<open>auto simp: refs_ok_def take_mount_def distinct_delete delete_conv' split: if_splits\<close>)

lemma sweep_ok:
  assumes ok: "refs_ok \<lparr>sy_mgr = mgr, sy_calls = cs\<rparr>"
  shows "refs_ok \<lparr>sy_mgr = mgr\<lparr>mg_mounts := []\<rparr>,
    sy_calls = mset (map (\<lambda>(i, m). Releasing (mt_tree_key m)) (mg_mounts mgr)) + cs\<rparr>"
proof (rule same_holders_ok [OF ok])
  let ?S = "\<lparr>sy_mgr = mgr, sy_calls = cs\<rparr>"
  let ?T = "\<lparr>sy_mgr = mgr\<lparr>mg_mounts := []\<rparr>,
    sy_calls = mset (map (\<lambda>(i, m). Releasing (mt_tree_key m)) (mg_mounts mgr)) + cs\<rparr>"
  show "holders k ?T = holders k ?S" for k
    by (simp add: holders_def mounts_of_def mset_filter [symmetric] filter_map comp_def case_prod_beta'
        del: mset_filter mset_map)
  show "shares k t ?S \<Longrightarrow> shares k t ?T" for k t
    by (erule shares_mono) auto
qed simp_all

lemma step_refs_ok: "step S e T \<Longrightarrow> refs_ok S \<Longrightarrow> refs_ok T"
proof (induction rule: step.induct)
  case hit
  then show ?case by (blast intro: gain_ok hit_cache)
next
  case built
  then show ?case by (blast intro: gain_ok dest: building_ok [THEN iffD1])
next
  case registered
  then show ?case by (blast intro: register_ok)
next
  case (abandoned mgr key tree cs)
  then show ?case by (rule release_ok) simp
next
  case (released mgr key cs)
  then show ?case by (rule release_ok) simp
next
  case (swept mgr cs)
  then show ?case by (rule sweep_ok)
qed (auto simp: building_ok intro: take_ok)

lemma started_refs_ok: "started S \<Longrightarrow> refs_ok S"
  by (simp add: started_def refs_ok_def counted_def holders_def mounts_of_def)

interpretation manager_system: invariant_system started step refs_ok
  by unfold_locales (auto intro: started_refs_ok step_refs_ok)

section \<open>The methods as sequences of steps\<close>

definition runs :: "system \<Rightarrow> system \<Rightarrow> bool" where
  "runs = (\<lambda>S T. \<exists>e. step S e T)\<^sup>*\<^sup>*"

lemma runs_refl [simp]: "runs S S"
  by (simp add: runs_def)

lemma runs_step: "step S e T \<Longrightarrow> runs T U \<Longrightarrow> runs S U"
  unfolding runs_def by (rule converse_rtranclp_into_rtranclp) blast

lemma runs_trans: "runs S T \<Longrightarrow> runs T U \<Longrightarrow> runs S U"
  by (simp add: runs_def)

lemma runs_refs_ok: "runs S T \<Longrightarrow> refs_ok S \<Longrightarrow> refs_ok T"
  unfolding runs_def by (induction rule: rtranclp_induct) (auto intro: step_refs_ok)

lemma runs_reachable: "runs S T \<Longrightarrow> reachable started step S \<Longrightarrow> reachable started step T"
  unfolding runs_def by (induction rule: rtranclp_induct) (auto intro: reach_step)

lemma acquire_runs:
  assumes "acquire_tree pkg layers mgr = (r, mgr')"
  shows "case r of
      Inl e \<Rightarrow> mgr' = mgr \<and> runs \<lparr>sy_mgr = mgr, sy_calls = cs\<rparr> \<lparr>sy_mgr = mgr', sy_calls = cs\<rparr>
    | Inr (key, tree) \<Rightarrow> key = tree_key layers \<and> mg_mounts mgr' = mg_mounts mgr \<and> mg_guard mgr' = mg_guard mgr \<and>
        runs \<lparr>sy_mgr = mgr, sy_calls = cs\<rparr> \<lparr>sy_mgr = mgr', sy_calls = add_mset (Holding key tree) cs\<rparr>"
proof (cases "cached_tree_of (tree_key layers) mgr")
  case (Some x)
  obtain tree m where x: "x = (tree, m)" by force
  then have "r = Inr (tree_key layers, tree)" "mgr' = m"
    using assms Some by (simp_all add: acquire_tree_def)
  moreover have "mg_mounts m = mg_mounts mgr \<and> mg_guard m = mg_guard mgr"
    using Some x by (auto simp: cached_tree_of_def split: option.splits)
  moreover have "runs \<lparr>sy_mgr = mgr, sy_calls = cs\<rparr>
      \<lparr>sy_mgr = m, sy_calls = add_mset (Holding (tree_key layers) tree) cs\<rparr>"
    by (rule runs_step [OF step.hit [OF Some [unfolded x]] runs_refl])
  ultimately show ?thesis by simp
next
  case None
  note one = step.miss [OF None, of cs]
  show ?thesis
  proof (cases "build_merged_tree pkg layers ''''")
    case (Inl e)
    then show ?thesis
      using assms None runs_step [OF one runs_step [OF step.build_failed [OF Inl] runs_refl]]
      by (auto simp: acquire_tree_def)
  next
    case (Inr tree)
    obtain t m where c: "cache_tree (tree_key layers) tree mgr = (t, m)" by force
    have "mg_mounts m = mg_mounts mgr \<and> mg_guard m = mg_guard mgr"
      using c by (auto simp: cache_tree_def split: option.splits)
    moreover have "r = Inr (tree_key layers, t)" "mgr' = m"
      using assms None Inr c by (simp_all add: acquire_tree_def)
    ultimately show ?thesis
      using runs_step [OF one runs_step [OF step.built [OF Inr c] runs_refl]] by simp
  qed
qed

lemma make_mount_fields:
  assumes "make_mount pk g spec point rcs key tree s = (Inr m, s')"
  shows "mt_tree_key m = key \<and> mt_tree m = tree \<and> mt_point m = point \<and> mt_spec m = spec \<and>
    mt_resolved m = map resolved_layer_of rcs \<and>
    (\<exists>s1. prepare_upper pk g (sp_upper_path spec) s = (Inr (mt_upper m), s1))"
  using assms by (auto simp: make_mount_def split: prod.splits sum.splits)

text \<open>What a call of \<open>create\<close> did: nothing, an acquired tree given back, or a registered mount.\<close>

lemma create_cases [consumes 1, case_names refused failed made]:
  assumes "create pk spec mgr s = (r, mgr', s')"
  obtains (refused) e where "r = Inl e" "mgr' = mgr"
  | (failed) e rcs key tree mgr1 where "r = Inl e"
      "acquire_tree (mk_repo pk s) rcs mgr = (Inr (key, tree), mgr1)" "mgr' = release_tree key mgr1"
  | (made) point rcs key tree mgr1 m where "r = Inr (proto m)"
      "prepare pk (mg_guard mgr) spec s = Inr (point, rcs)"
      "acquire_tree (mk_repo pk s) rcs mgr = (Inr (key, tree), mgr1)"
      "make_mount pk (mg_guard mgr) spec point rcs key tree s = (Inr m, s')" "mgr' = register m mgr1"
proof (cases "prepare pk (mg_guard mgr) spec s")
  case (Inl e)
  then show thesis using assms by (auto simp: create_def intro: refused)
next
  case (Inr pr)
  obtain point rcs where pr: "pr = (point, rcs)" by force
  obtain r1 mgr1 where ac: "acquire_tree (mk_repo pk s) rcs mgr = (r1, mgr1)" by force
  show thesis
  proof (cases r1)
    case (Inl e)
    then have "mgr1 = mgr" using acquire_runs [OF ac, of "{#}"] by simp
    then show thesis
      using assms \<open>prepare pk (mg_guard mgr) spec s = Inr pr\<close> pr ac Inl
      by (auto simp: create_def intro: refused)
  next
    case (Inr kt)
    obtain key tree where kt: "kt = (key, tree)" by force
    obtain r2 s2 where mk: "make_mount pk (mg_guard mgr) spec point rcs key tree s = (r2, s2)" by force
    note run = assms [unfolded create_def \<open>prepare pk (mg_guard mgr) spec s = Inr pr\<close> pr sum.case prod.case
      ac Inr kt mk]
    show thesis
    proof (cases r2)
      case (Inl e)
      then show thesis using failed [of e rcs key tree mgr1] ac \<open>r1 = Inr kt\<close> kt run by simp
    next
      case (Inr m)
      then show thesis
        using made [of m point rcs key tree mgr1] \<open>prepare pk (mg_guard mgr) spec s = Inr pr\<close> pr ac
          \<open>r1 = Inr kt\<close> kt run mk
        by simp
    qed
  qed
qed

lemma create_runs:
  assumes run: "create pk spec mgr s = (r, mgr', s')"
    and fresh: "\<And>msg. r = Inr msg \<Longrightarrow> map_of (mg_mounts mgr) (mm_id msg) = None"
  shows "runs \<lparr>sy_mgr = mgr, sy_calls = cs\<rparr> \<lparr>sy_mgr = mgr', sy_calls = cs\<rparr>"
  using run
proof (cases rule: create_cases)
  case (failed e rcs key tree mgr1)
  then show ?thesis
    using acquire_runs [OF failed(2), of cs] runs_trans runs_step [OF step.abandoned runs_refl] by fastforce
next
  case (made point rcs key tree mgr1 m)
  note a = acquire_runs [OF made(3), of cs]
  have "map_of (mg_mounts mgr1) (mt_id m) = None" using fresh [OF made(1)] a by (simp add: proto_def)
  then have "step \<lparr>sy_mgr = mgr1, sy_calls = add_mset (Holding key tree) cs\<rparr> (Registered (mt_id m))
      \<lparr>sy_mgr = register m mgr1, sy_calls = cs\<rparr>"
    using make_mount_fields [OF made(4)] by (intro step.registered) simp_all
  then show ?thesis using a made(5) runs_trans runs_step [OF _ runs_refl] by fastforce
qed simp

lemma unmount_runs:
  assumes "unmount pk i lazy mgr s = (r, mgr', s')"
  shows "runs \<lparr>sy_mgr = mgr, sy_calls = cs\<rparr> \<lparr>sy_mgr = mgr', sy_calls = cs\<rparr>"
proof (cases "map_of (mg_mounts mgr) i")
  case None
  then show ?thesis using assms by (simp add: unmount_def)
next
  case (Some m)
  then have "mgr' = release_tree (mt_tree_key m) (take_mount i mgr)"
    using assms by (auto simp: unmount_def Let_def release_mount_caches_def split: prod.splits sum.splits)
  then show ?thesis
    using runs_step [OF step.taken [OF Some] runs_step [OF step.released runs_refl]] by simp
qed

lemma sweep_runs:
  "sweep pk lazy ms mgr s = (logged, mgr', s') \<Longrightarrow>
     runs \<lparr>sy_mgr = mgr, sy_calls = mset (map (\<lambda>m. Releasing (mt_tree_key m)) ms) + cs\<rparr>
       \<lparr>sy_mgr = mgr', sy_calls = cs\<rparr>"
proof (induction ms arbitrary: mgr s logged)
  case (Cons m ms)
  then show ?case
    by (auto simp: Let_def release_mount_caches_def split: prod.splits
        intro: runs_step [OF step.released])
qed simp

lemma unmount_all_runs:
  assumes "unmount_all pk lazy mgr s = (logged, mgr', s')"
  shows "runs \<lparr>sy_mgr = mgr, sy_calls = cs\<rparr> \<lparr>sy_mgr = mgr', sy_calls = cs\<rparr>"
proof (rule runs_step [OF step.swept])
  have "map (\<lambda>(i, m). Releasing (mt_tree_key m)) (mg_mounts mgr) =
      map (\<lambda>m. Releasing (mt_tree_key m)) (map snd (mg_mounts mgr))"
    by auto
  then show "runs \<lparr>sy_mgr = mgr\<lparr>mg_mounts := []\<rparr>,
      sy_calls = mset (map (\<lambda>(i, m). Releasing (mt_tree_key m)) (mg_mounts mgr)) + cs\<rparr>
      \<lparr>sy_mgr = mgr', sy_calls = cs\<rparr>"
    using sweep_runs assms by (simp only: unmount_all_def)
qed

end
