(* ===== verification/ManagerProps.thy ===== *)
theory ManagerProps
  imports ManagerSteps
begin

text \<open>
  The properties of the mount manager: keys of the tree cache are faithful, reference counts are
  exact in every interleaving, failed calls leave no trace in the registry, mounts stay inside the
  sandbox, and what unmounting does.
\<close>

section \<open>Keys of the cache\<close>

lemma split_at_sep: "a @ c # r = b @ c # t \<Longrightarrow> c \<notin> set a \<Longrightarrow> c \<notin> set b \<Longrightarrow> a = b \<and> r = t"
  by (metis takeWhile_neq_append dropWhile_neq_append list.inject)

definition plain_layer :: "resolved_commit \<Rightarrow> bool" where
  "plain_layer l \<longleftrightarrow> CHR 0x00 \<notin> set (rc_repo l) \<and> CHR 0x00 \<notin> set (rc_state_id l) \<and>
     CHR 0x1F \<notin> set (rc_state_id l)"

lemma tree_key_Cons:
  "tree_key (l # ls) = rc_repo l @ CHR 0x00 # rc_state_id l @
     (if ls = [] then [] else CHR 0x1F # tree_key ls)"
  by (cases ls) (simp_all add: tree_key_def)

lemma tree_key_ne: "tree_key (l # ls) \<noteq> []"
  by (simp add: tree_key_Cons)

lemma tree_key_inj_lemma:
  "(\<And>l. l \<in> set xs \<union> set ys \<Longrightarrow> plain_layer l) \<Longrightarrow> tree_key xs = tree_key ys \<Longrightarrow>
     map (\<lambda>l. (rc_repo l, rc_state_id l)) xs = map (\<lambda>l. (rc_repo l, rc_state_id l)) ys"
proof (induction xs arbitrary: ys)
  case Nil
  have "tree_key [] = []" by (simp add: tree_key_def)
  then have "ys = []" using Nil.prems(2) tree_key_ne by (metis neq_Nil_conv)
  then show ?case by simp
next
  case (Cons x xs)
  show ?case
  proof (cases ys)
    case Nil
    then show ?thesis using Cons.prems(2) tree_key_ne by (simp add: tree_key_def [of "[]"])
  next
    case (Cons y ys')
    have px: "plain_layer x" "plain_layer y" using Cons.prems(1) Cons by simp_all
    let ?tail = "\<lambda>zs. if zs = [] then [] else CHR 0x1F # tree_key zs"
    have "rc_repo x = rc_repo y \<and> rc_state_id x @ ?tail xs = rc_state_id y @ ?tail ys'"
      using Cons.prems(2) px unfolding Cons tree_key_Cons plain_layer_def by (intro split_at_sep) blast+
    then have repo: "rc_repo x = rc_repo y" and rest: "rc_state_id x @ ?tail xs = rc_state_id y @ ?tail ys'"
      by simp_all
    have "xs = [] \<longleftrightarrow> ys' = []"
      using arg_cong [OF rest, of "\<lambda>z. CHR 0x1F \<in> set z"] px by (simp add: plain_layer_def split: if_splits)
    then consider "xs = []" "ys' = []" | "xs \<noteq> []" "ys' \<noteq> []" by blast
    then show ?thesis
    proof cases
      case 1
      then show ?thesis using repo rest Cons by simp
    next
      case 2
      then have "rc_state_id x = rc_state_id y \<and> tree_key xs = tree_key ys'"
        using rest px unfolding plain_layer_def by (intro split_at_sep) (simp, blast+)
      then show ?thesis using Cons.IH [of ys'] Cons.prems(1) repo Cons by simp
    qed
  qed
qed

text \<open>C38: mounts share a cached tree only when their layers are the same states of the same
  repositories: two lists of layers have one key only if they name the same repositories and
  states in the same order. (Paths have no zero byte, and state identifiers neither a zero byte nor
  a unit separator; a path may contain the separator.)\<close>

theorem tree_key_inj:
  assumes "\<forall>l \<in> set xs \<union> set ys. plain_layer l" and "tree_key xs = tree_key ys"
  shows "map (\<lambda>l. (rc_repo l, rc_state_id l)) xs = map (\<lambda>l. (rc_repo l, rc_state_id l)) ys"
  using assms by (intro tree_key_inj_lemma) simp_all

theorem tree_key_inj_witness:
  "tree_key demo_layers \<noteq> tree_key [demo_layer ''s1'' [], demo_layer ''s3'' []]"
proof
  assume "tree_key demo_layers = tree_key [demo_layer ''s1'' [], demo_layer ''s3'' []]"
  moreover have "\<forall>l \<in> set demo_layers \<union> set [demo_layer ''s1'' [], demo_layer ''s3'' []]. plain_layer l"
    by (simp add: demo_layers_def demo_layer_def plain_layer_def)
  ultimately show False using tree_key_inj [of demo_layers "[demo_layer ''s1'' [], demo_layer ''s3'' []]"]
    by (simp add: demo_layers_def demo_layer_def)
qed

section \<open>Reference counts\<close>

text \<open>C8: in every state that concurrent calls can reach, the count of a cached tree is the number
  of mounts and calls that hold it, which is at least one, and all of them hold the same tree; a
  key nobody holds is not in the cache.\<close>

theorem refcounts_exact:
  assumes "reachable started step S"
  shows "\<forall>key. (case map_of (mg_trees (sy_mgr S)) key of
      None \<Rightarrow> holders key S = 0
    | Some c \<Rightarrow> 0 < holders key S \<and> ct_refs c = int (holders key S) \<and> shares key (ct_tree c) S)"
  using manager_system.reachable_inv [OF assms] by (simp add: refs_ok_def counted_def)

definition fresh_system :: system where
  "fresh_system = \<lparr>sy_mgr = new_mount_manager None guard_os, sy_calls = {#}\<rparr>"

lemma fresh_reachable: "reachable started step fresh_system"
  by (intro reach_start) (simp add: started_def fresh_system_def new_mount_manager_def)

text \<open>Two calls that build the same tree at the same time: the second finds the first one's.\<close>

definition demo_merged :: fs_tree where
  "demo_merged = (case build_merged_tree demo_pkg demo_layers '''' of Inr t \<Rightarrow> t | Inl _ \<Rightarrow> build_tree demo_store 4 [])"

lemma demo_merged: "build_merged_tree demo_pkg demo_layers '''' = Inr demo_merged"
  by (simp add: demo_merged_def build_merged_tree_def demo_layers_def demo_layer_def demo_pkg_def
      split: sum.splits prod.splits)

theorem refcounts_exact_witness:
  "\<exists>S. reachable started step S \<and>
     map_of (mg_trees (sy_mgr S)) (tree_key demo_layers) = Some \<lparr>ct_tree = demo_merged, ct_refs = 2\<rparr> \<and>
     holders (tree_key demo_layers) S = 2"
proof -
  let ?k = "tree_key demo_layers" and ?m = "sy_mgr fresh_system"
  let ?c = "\<lambda>n. ?m\<lparr>mg_trees := [(?k, \<lparr>ct_tree = demo_merged, ct_refs = n\<rparr>)]\<rparr>"
  let ?h = "Holding ?k demo_merged" and ?b = "Building demo_layers"
  have m: "mg_trees ?m = []" by (simp add: fresh_system_def new_mount_manager_def)
  have miss: "cached_tree_of ?k ?m = None" by (simp add: cached_tree_of_def m)
  have c1: "cache_tree ?k demo_merged ?m = (demo_merged, ?c 1)"
    and c2: "cache_tree ?k demo_merged (?c 1) = (demo_merged, ?c 2)"
    by (simp_all add: cache_tree_def m)
  have "runs fresh_system \<lparr>sy_mgr = ?c 2, sy_calls = {#?h, ?h#}\<rparr>"
    using runs_step [OF step.miss [OF miss, of "{#}"] runs_step [OF step.miss [OF miss, of "{#?b#}"]
      runs_step [OF step.built [OF demo_merged c1, of "{#?b#}"]
      runs_step [OF step.built [OF demo_merged c2, of "{#?h#}", unfolded add_mset_commute [of ?b]] runs_refl]]]]
    by (simp add: fresh_system_def add_mset_commute)
  then have r: "reachable started step \<lparr>sy_mgr = ?c 2, sy_calls = {#?h, ?h#}\<rparr>"
    by (rule runs_reachable [OF _ fresh_reachable])
  have "holders ?k \<lparr>sy_mgr = ?c 2, sy_calls = {#?h, ?h#}\<rparr> = 2"
    using spec [OF refcounts_exact [OF r], of ?k] by simp
  then show ?thesis using r by fastforce
qed

text \<open>No tree leaks and none is dropped too early: once no mount and no call is left the cache is
  empty, and the tree of a live mount is in the cache for as long as the mount is registered.\<close>

theorem cache_drained:
  assumes "reachable started step S"
  shows "(mg_mounts (sy_mgr S) = [] \<and> sy_calls S = {#} \<longrightarrow> mg_trees (sy_mgr S) = []) \<and>
    (\<forall>i m. map_of (mg_mounts (sy_mgr S)) i = Some m \<longrightarrow>
       (\<exists>c. map_of (mg_trees (sy_mgr S)) (mt_tree_key m) = Some c \<and> ct_tree c = mt_tree m \<and> 1 \<le> ct_refs c))"
proof (intro conjI impI allI)
  have ok: "refs_ok S" by (rule manager_system.reachable_inv [OF assms])
  then have c: "counted S key" for key by (simp add: refs_ok_def)
  assume "mg_mounts (sy_mgr S) = [] \<and> sy_calls S = {#}"
  then have "map_of (mg_trees (sy_mgr S)) key = None" for key
    using c [of key] by (auto simp: counted_def holders_def mounts_of_def split: option.splits)
  then have "map_of (mg_trees (sy_mgr S)) = Map.empty" by (simp add: fun_eq_iff)
  then show "mg_trees (sy_mgr S) = []" by (simp only: map_of_eq_empty_iff)
next
  have ok: "refs_ok S" by (rule manager_system.reachable_inv [OF assms])
  fix i m assume "map_of (mg_mounts (sy_mgr S)) i = Some m"
  then have m: "(i, m) \<in> set (mg_mounts (sy_mgr S))" by (rule map_of_SomeD)
  then have "0 < mounts_of (mt_tree_key m) (sy_mgr S)"
    by (auto simp: mounts_of_def filter_empty_conv)
  then have "0 < holders (mt_tree_key m) S" by (simp add: holders_def)
  moreover have "counted S (mt_tree_key m)" using ok by (simp add: refs_ok_def)
  ultimately show "\<exists>c. map_of (mg_trees (sy_mgr S)) (mt_tree_key m) = Some c \<and> ct_tree c = mt_tree m \<and> 1 \<le> ct_refs c"
    using m by (force simp: counted_def shares_def split: option.splits)
qed

theorem cache_drained_witness:
  "mg_trees (sy_mgr fresh_system) = []"
  using cache_drained [OF fresh_reachable] by (simp add: fresh_system_def new_mount_manager_def)

section \<open>Creating a mount\<close>

lemma resolve_layer_repo: "resolve_layer pkg sel = Inr rc \<Longrightarrow> rc_repo rc = ls_repo sel"
  by (auto simp: resolve_layer_def load_resolved_layer_def split: sum.splits)

lemma resolve_layers_repos:
  "resolve_layers txt pkg sels = Inr rcs \<Longrightarrow> list_all2 (\<lambda>sel rc. rc_repo rc = ls_repo sel) sels rcs"
  by (induction sels arbitrary: rcs) (auto split: sum.splits dest: resolve_layer_repo)

lemma check_layers_paths:
  "check_layers txt g s ls = Inr sels \<Longrightarrow>
     list_all2 (\<lambda>l sel. lm_repo l \<noteq> '''' \<and> check g s (lm_repo l) = Inr (ls_repo sel)) ls sels"
  by (induction ls arbitrary: sels) (auto simp: check_path_Inr split: if_splits sum.splits)

lemma prepare_checked:
  assumes "prepare pk g spec s = Inr (point, rcs)"
  shows "sp_mount_point spec \<noteq> '''' \<and> sp_layers spec \<noteq> [] \<and>
    check g s (sp_mount_point spec) = Inr point \<and>
    list_all2 (\<lambda>l rc. lm_repo l \<noteq> '''' \<and> check g s (lm_repo l) = Inr (rc_repo rc)) (sp_layers spec) rcs"
proof -
  obtain sels where one: "check_layers (mk_text pk) g s (sp_layers spec) = Inr sels"
    and two: "resolve_layers (mk_text pk) (mk_repo pk s) sels = Inr rcs"
    and rest: "sp_mount_point spec \<noteq> ''''" "sp_layers spec \<noteq> []" "check g s (sp_mount_point spec) = Inr point"
    using assms by (auto simp: prepare_def check_path_Inr split: if_splits sum.splits)
  have "list_all2 (\<lambda>l rc. lm_repo l \<noteq> '''' \<and> check g s (lm_repo l) = Inr (rc_repo rc)) (sp_layers spec) rcs"
    by (rule list_all2_trans [OF _ check_layers_paths [OF one] resolve_layers_repos [OF two]]) simp
  then show ?thesis using rest by simp
qed

lemma prepare_upper_checked:
  "prepare_upper pk g upper s = (Inr u, s') \<Longrightarrow>
     (upper = '''' \<longrightarrow> u = '''') \<and> (upper \<noteq> '''' \<longrightarrow> check g s upper = Inr u)"
  by (auto simp: prepare_upper_def check_path_Inr split: if_splits sum.splits prod.splits)

lemma create_checked:
  assumes "create pk spec mgr s = (Inr msg, mgr', s')"
  shows "\<exists>m. map_of (mg_mounts mgr') (mm_id msg) = Some m \<and> proto m = msg \<and>
    get pk (mm_id msg) mgr' = Inr msg \<and> mt_spec m = spec \<and>
    check (mg_guard mgr) s (sp_mount_point spec) = Inr (mt_point m) \<and>
    list_all2 (\<lambda>l r. lm_repo l \<noteq> '''' \<and> check (mg_guard mgr) s (lm_repo l) = Inr (rl_repository_path r))
      (sp_layers spec) (mt_resolved m) \<and>
    (if sp_upper_path spec = '''' then mt_upper m = ''''
     else check (mg_guard mgr) s (sp_upper_path spec) = Inr (mt_upper m)) \<and>
    (\<forall>i. i \<noteq> mm_id msg \<longrightarrow> map_of (mg_mounts mgr') i = map_of (mg_mounts mgr) i)"
  using assms
proof (cases rule: create_cases)
  case (made point rcs key tree mgr1 m)
  note f = make_mount_fields [OF made(4)]
  have msg: "msg = proto m" "mm_id msg = mt_id m" using made(1) by (simp_all add: proto_def)
  have reg: "map_of (mg_mounts mgr') = (map_of (mg_mounts mgr))(mt_id m \<mapsto> m)"
    using acquire_runs [OF made(3), of "{#}"] made(5) by (simp add: register_def update_conv')
  have "list_all2 (\<lambda>l r. lm_repo l \<noteq> '''' \<and> check (mg_guard mgr) s (lm_repo l) = Inr (rl_repository_path r))
      (sp_layers spec) (mt_resolved m)"
    using prepare_checked [OF made(2)] f by (simp add: list_all2_map2 resolved_layer_of_def)
  then show ?thesis
    using prepare_checked [OF made(2)] f msg reg prepare_upper_checked by (fastforce simp: get_def)
qed simp_all

text \<open>The layers of a specification, checked and resolved one by one.\<close>

definition resolves_to :: "mount_pkg \<Rightarrow> path_guard \<Rightarrow> os \<Rightarrow> layer_msg \<Rightarrow> resolved_commit \<Rightarrow> bool" where
  "resolves_to pk g s l rc \<longleftrightarrow> lm_repo l \<noteq> '''' \<and> check g s (lm_repo l) = Inr (rc_repo rc) \<and>
     resolve_layer (mk_repo pk s) ((sel_from_layer l)\<lparr>ls_repo := rc_repo rc\<rparr>) = Inr rc"

lemma prepare_resolves:
  assumes "prepare pk g spec s = Inr (point, rcs)"
  shows "list_all2 (resolves_to pk g s) (sp_layers spec) rcs"
proof -
  have each: "check_layers tx g s ls = Inr sels \<Longrightarrow> resolve_layers tx (mk_repo pk s) sels = Inr rcs \<Longrightarrow>
      list_all2 (resolves_to pk g s) ls rcs" for tx ls sels rcs
  proof (induction ls arbitrary: sels rcs)
    case (Cons l ls)
    obtain canon sels' where c: "lm_repo l \<noteq> ''''" "check g s (lm_repo l) = Inr canon"
      "check_layers tx g s ls = Inr sels'" "sels = (sel_from_layer l)\<lparr>ls_repo := canon\<rparr> # sels'"
      using Cons.prems(1) by (auto simp: check_path_Inr split: if_splits sum.splits)
    then obtain rc rcs' where r: "resolve_layer (mk_repo pk s) ((sel_from_layer l)\<lparr>ls_repo := canon\<rparr>) = Inr rc"
      "resolve_layers tx (mk_repo pk s) sels' = Inr rcs'" "rcs = rc # rcs'"
      using Cons.prems(2) by (auto split: sum.splits)
    have "rc_repo rc = canon" using resolve_layer_repo [OF r(1)] by simp
    then show ?case using Cons.IH [OF c(3) r(2)] c(1,2) r(1,3) by (simp add: resolves_to_def)
  qed simp
  show ?thesis using assms by (auto simp: prepare_def intro: each split: if_splits sum.splits)
qed

lemma acquired_tree:
  assumes "acquire_tree pkg rcs mgr = (Inr (key, tree), mgr1)"
  shows "case map_of (mg_trees mgr) (tree_key rcs) of
      None \<Rightarrow> build_merged_tree pkg rcs '''' = Inr tree
    | Some c \<Rightarrow> tree = ct_tree c"
  using assms
  by (auto simp: acquire_tree_def cached_tree_of_def cache_tree_def Let_def split: option.splits sum.splits prod.splits)

text \<open>What the new mount serves.\<close>

lemma create_serves:
  assumes "create pk spec mgr s = (Inr msg, mgr', s')"
  shows "\<exists>m rcs s1 s2. map_of (mg_mounts mgr') (mm_id msg) = Some m \<and>
    list_all2 (resolves_to pk (mg_guard mgr) s) (sp_layers spec) rcs \<and> mt_resolved m = map resolved_layer_of rcs \<and>
    (case map_of (mg_trees mgr) (tree_key rcs) of
       None \<Rightarrow> build_merged_tree (mk_repo pk s) rcs '''' = Inr (mt_tree m)
     | Some c \<Rightarrow> mt_tree m = ct_tree c) \<and>
    mk_mount pk (mt_point m) (new_fuse_root s1 (Some (mt_tree m)) (mt_upper m) (sp_clear_bits spec)) (sp_debug spec) s1 =
      (Inr (mt_server m), s2)"
  using assms
proof (cases rule: create_cases)
  case (made point rcs key tree mgr1 m)
  note f = make_mount_fields [OF made(4)]
  have "map_of (mg_mounts mgr') (mm_id msg) = Some m" using made(1,5) by (simp add: proto_def register_def update_conv')
  moreover obtain s1 s2 where "mk_mount pk (mt_point m) (new_fuse_root s1 (Some (mt_tree m)) (mt_upper m) (sp_clear_bits spec))
      (sp_debug spec) s1 = (Inr (mt_server m), s2)"
    using made(4) by (auto simp: make_mount_def split: prod.splits sum.splits)
  ultimately show ?thesis
    using prepare_resolves [OF made(2)] acquired_tree [OF made(3)] f by blast
qed simp_all

text \<open>C21: a mount that was created is registered under its identifier as the reply says, with the
  canonical forms the guard accepted: its mount point, the repository of every layer and the upper
  directory. Its layers are what the selectors of the specification resolve to, one by one; its tree
  is the stacked tree built from them, or the one in the cache under the key of the same layers; and
  the kernel mount that was made serves this tree and that upper directory at the mount point. The
  other mounts stay registered as they were.\<close>

theorem create_checked_mount:
  assumes "create pk spec mgr s = (Inr msg, mgr', s')"
  shows "\<exists>m rcs s1 s2. map_of (mg_mounts mgr') (mm_id msg) = Some m \<and> proto m = msg \<and>
    get pk (mm_id msg) mgr' = Inr msg \<and> mt_spec m = spec \<and>
    check (mg_guard mgr) s (sp_mount_point spec) = Inr (mt_point m) \<and>
    (if sp_upper_path spec = '''' then mt_upper m = ''''
     else check (mg_guard mgr) s (sp_upper_path spec) = Inr (mt_upper m)) \<and>
    list_all2 (resolves_to pk (mg_guard mgr) s) (sp_layers spec) rcs \<and> mt_resolved m = map resolved_layer_of rcs \<and>
    (case map_of (mg_trees mgr) (tree_key rcs) of
       None \<Rightarrow> build_merged_tree (mk_repo pk s) rcs '''' = Inr (mt_tree m)
     | Some c \<Rightarrow> mt_tree m = ct_tree c) \<and>
    mk_mount pk (mt_point m) (new_fuse_root s1 (Some (mt_tree m)) (mt_upper m) (sp_clear_bits spec)) (sp_debug spec) s1 =
      (Inr (mt_server m), s2) \<and>
    (\<forall>i. i \<noteq> mm_id msg \<longrightarrow> map_of (mg_mounts mgr') i = map_of (mg_mounts mgr) i)"
proof -
  obtain m where m: "map_of (mg_mounts mgr') (mm_id msg) = Some m" "proto m = msg" "get pk (mm_id msg) mgr' = Inr msg"
    "mt_spec m = spec" "check (mg_guard mgr) s (sp_mount_point spec) = Inr (mt_point m)"
    "if sp_upper_path spec = '''' then mt_upper m = '''' else check (mg_guard mgr) s (sp_upper_path spec) = Inr (mt_upper m)"
    "\<forall>i. i \<noteq> mm_id msg \<longrightarrow> map_of (mg_mounts mgr') i = map_of (mg_mounts mgr) i"
    using create_checked [OF assms] by blast
  then show ?thesis using create_serves [OF assms] by (metis option.inject)
qed

definition demo_spec :: mount_spec where
  "demo_spec = \<lparr>sp_mount_point = ''/box/m'',
     sp_layers = [\<lparr>lm_repo = ''/out'', lm_revision = Some (SelState ''s1'')\<rparr>],
     sp_upper_path = ''/box/u'', sp_clear_bits = False, sp_debug = False\<rparr>"

definition demo_mgr :: manager where
  "demo_mgr = new_mount_manager None guard_os"

lemma demo_create: "isl (fst (create demo_mk demo_spec demo_mgr guard_os)) = False"
  by code_simp

theorem create_checked_mount_witness:
  "\<exists>msg mgr' s' m rc. create demo_mk demo_spec demo_mgr guard_os = (Inr msg, mgr', s') \<and>
     map_of (mg_mounts mgr') (mm_id msg) = Some m \<and> mt_upper m = ''/box/u'' \<and>
     build_merged_tree demo_pkg [rc] '''' = Inr (mt_tree m)"
proof -
  obtain msg mgr' s' where run: "create demo_mk demo_spec demo_mgr guard_os = (Inr msg, mgr', s')"
    using demo_create by (cases "create demo_mk demo_spec demo_mgr guard_os"; cases "fst (create demo_mk demo_spec demo_mgr guard_os)") auto
  have d: "mg_trees demo_mgr = []" "sp_upper_path demo_spec = ''/box/u''" "length (sp_layers demo_spec) = 1"
    "check (mg_guard demo_mgr) guard_os ''/box/u'' = Inr ''/box/u''" by code_simp+
  have "mk_repo demo_mk guard_os = demo_pkg" by (simp add: demo_mk_def)
  obtain m rcs where m: "map_of (mg_mounts mgr') (mm_id msg) = Some m" "mt_upper m = ''/box/u''"
    "list_all2 (resolves_to demo_mk (mg_guard demo_mgr) guard_os) (sp_layers demo_spec) rcs"
    "build_merged_tree demo_pkg rcs '''' = Inr (mt_tree m)"
    using create_checked_mount [OF run] d \<open>mk_repo demo_mk guard_os = demo_pkg\<close> by auto
  moreover obtain rc where "rcs = [rc]" using list_all2_lengthD [OF m(3)] d(3) by (cases rcs; cases "tl rcs") auto
  ultimately show ?thesis using run by blast
qed

lemma check_empty [simp]: "check g s '''' = Inr ''''"
  by (simp add: check_def)

lemma check_layers_refused:
  "l \<in> set ls \<Longrightarrow> check g s (lm_repo l) = Inl e \<Longrightarrow> \<exists>e'. check_layers txt g s ls = Inl e'"
proof (induction ls)
  case (Cons x xs)
  then show ?case by (cases "check_path txt g s (lm_repo x)") (auto simp: check_path_def split: sum.splits)
qed simp

text \<open>A path that create does not take: one that is missing, or one that the guard refuses.\<close>

definition bad_path :: "path_guard \<Rightarrow> os \<Rightarrow> string \<Rightarrow> bool" where
  "bad_path g s p \<longleftrightarrow> p = '''' \<or> isl (check g s p)"

lemma check_layers_first:
  "case find (bad_path g s) (map lm_repo ls) of
     None \<Rightarrow> \<exists>sels. check_layers txt g s ls = Inr sels
   | Some p \<Rightarrow> check_layers txt g s ls =
       Inl (if p = '''' then invalid ''layer repository_path is required''
            else map_error txt (projl (check g s p)))"
proof (induction ls)
  case (Cons l ls)
  then show ?case
    by (cases "lm_repo l = ''''"; cases "check g s (lm_repo l)")
      (auto simp: bad_path_def check_path_def split: option.splits)
qed simp

lemma acquire_release:
  assumes ok: "refs_ok \<lparr>sy_mgr = mgr, sy_calls = cs\<rparr>" and ac: "acquire_tree pkg layers mgr = (Inr (key, t), mgr1)"
  shows "map_of (mg_trees (release_tree key mgr1)) k = map_of (mg_trees mgr) k"
proof -
  have d: "distinct (map fst (mg_trees mgr))" using ok by (simp add: refs_ok_def)
  obtain tree where c: "cache_tree key tree mgr = (t, mgr1)"
    using ac hit_cache by (fastforce simp: acquire_tree_def Let_def split: option.splits sum.splits prod.splits)
  have "counted \<lparr>sy_mgr = mgr, sy_calls = cs\<rparr> key" using ok by (simp add: refs_ok_def)
  then have "map_of (mg_trees mgr) key = Some x \<Longrightarrow> 1 \<le> ct_refs x" for x by (simp add: counted_def)
  moreover have "distinct (map fst (mg_trees mgr1))"
    using c d by (auto simp: cache_tree_def distinct_update split: option.splits)
  ultimately show ?thesis
    using c map_of_release [of mgr1 key k]
    by (cases "map_of (mg_trees mgr) key")
      (auto simp: cache_tree_def update_conv' fun_upd_def simp del: map_of_eq_Some_iff split: option.splits)
qed

lemma create_upper_refused:
  assumes "refs_ok \<lparr>sy_mgr = mgr, sy_calls = cs\<rparr>" and "check (mg_guard mgr) s (sp_upper_path spec) = Inl e"
  shows "\<exists>e' mgr'. create pk spec mgr s = (Inl e', mgr', s) \<and> mg_mounts mgr' = mg_mounts mgr \<and>
    map_of (mg_trees mgr') = map_of (mg_trees mgr) \<and>
    (e' = map_error (mk_text pk) e \<or>
     (case prepare pk (mg_guard mgr) spec s of Inl _ \<Rightarrow> True
      | Inr (_, rcs) \<Rightarrow> isl (fst (acquire_tree (mk_repo pk s) rcs mgr))))"
proof (cases "prepare pk (mg_guard mgr) spec s")
  case (Inr pr)
  obtain point rcs where pr: "pr = (point, rcs)" by force
  obtain r mgr1 where ac: "acquire_tree (mk_repo pk s) rcs mgr = (r, mgr1)" by force
  have "sp_upper_path spec \<noteq> ''''" using assms(2) by auto
  then have mk: "make_mount pk (mg_guard mgr) spec point rcs key tree s = (Inl (map_error (mk_text pk) e), s)" for key tree
    using assms(2) by (simp add: make_mount_def prepare_upper_def check_path_def)
  show ?thesis
  proof (cases r)
    case (Inl e1)
    then have "mgr1 = mgr" using acquire_runs [OF ac, of "{#}"] by simp
    then show ?thesis using Inl by (simp add: create_def Inr pr ac)
  next
    case (Inr kt)
    obtain key tree where kt: "kt = (key, tree)" by force
    have "mg_mounts mgr1 = mg_mounts mgr" using acquire_runs [OF ac, of "{#}"] Inr kt by simp
    then show ?thesis
      using acquire_release [OF assms(1) ac [unfolded Inr kt]] mk
      by (auto simp: create_def \<open>prepare pk (mg_guard mgr) spec s = Inr pr\<close> pr ac Inr kt fun_eq_iff)
  qed
qed (simp add: create_def)

text \<open>C36: paths are looked at before anything is done: without a mount point or without layers the call is
  InvalidArgument; otherwise the first path, of the mount point and then the repositories in their
  order, that is missing or that the guard refuses decides the reply, InvalidArgument or the status
  of the refusal, and manager and host are as before. A refused upper directory makes the call fail
  too, with the status of this refusal unless a layer could not be resolved or built; the host is
  then untouched, no mount is registered and the tree that was acquired is given back.\<close>

theorem create_refuses:
  assumes "reachable started step \<lparr>sy_mgr = mgr, sy_calls = cs\<rparr>"
  shows "(if sp_mount_point spec = '''' then
       create pk spec mgr s = (Inl (StatusErr InvalidArgument ''mount_point is required''), mgr, s)
     else if sp_layers spec = [] then
       create pk spec mgr s = (Inl (StatusErr InvalidArgument ''at least one layer is required''), mgr, s)
     else (case find (bad_path (mg_guard mgr) s) (sp_mount_point spec # map lm_repo (sp_layers spec)) of
         None \<Rightarrow> True
       | Some p \<Rightarrow>
           if p = '''' then
             create pk spec mgr s = (Inl (StatusErr InvalidArgument ''layer repository_path is required''), mgr, s)
           else \<exists>e. check (mg_guard mgr) s p = Inl e \<and> create pk spec mgr s = (Inl (map_error (mk_text pk) e), mgr, s))) \<and>
    (\<forall>e. check (mg_guard mgr) s (sp_upper_path spec) = Inl e \<longrightarrow>
       (\<exists>e' mgr'. create pk spec mgr s = (Inl e', mgr', s) \<and> mg_mounts mgr' = mg_mounts mgr \<and>
          map_of (mg_trees mgr') = map_of (mg_trees mgr) \<and>
          (e' = map_error (mk_text pk) e \<or>
           (case prepare pk (mg_guard mgr) spec s of Inl _ \<Rightarrow> True
            | Inr (_, rcs) \<Rightarrow> isl (fst (acquire_tree (mk_repo pk s) rcs mgr)))))) \<and>
    map_error (mk_text pk) PathEscape = StatusErr PermissionDenied ''path escapes allowed root''"
  (is "?first \<and> (\<forall>e. ?refused e \<longrightarrow> ?given_back e) \<and> _")
proof (intro conjI allI impI)
  have bad: "\<exists>e. check (mg_guard mgr) s p = Inl e"
    if "find (bad_path (mg_guard mgr) s) ps = Some p" "p \<noteq> ''''" for p ps
    using that by (auto simp: find_Some_iff bad_path_def isl_def)
  note first = check_layers_first [of "mk_text pk" "mg_guard mgr" s "sp_layers spec"]
  show ?first
  proof (cases "find (bad_path (mg_guard mgr) s) (map lm_repo (sp_layers spec))")
    case None
    then show ?thesis by (auto simp: create_def prepare_def invalid_def check_path_def bad_path_def isl_def)
  next
    case (Some p)
    note layers = first [unfolded Some option.case]
    show ?thesis
      using layers bad [OF Some]
      by (cases "check (mg_guard mgr) s (sp_mount_point spec)")
        (auto simp: create_def prepare_def invalid_def check_path_def bad_path_def Some)
  qed
  show "?given_back e" if "?refused e" for e
    by (rule create_upper_refused [OF manager_system.reachable_inv [OF assms] that])
qed (simp add: map_error_def)

definition box_mgr :: manager where
  "box_mgr = new_mount_manager (Some box_guard) guard_os"

definition box_spec :: "string \<Rightarrow> string list \<Rightarrow> string \<Rightarrow> mount_spec" where
  "box_spec point repos upper = \<lparr>sp_mount_point = point,
     sp_layers = map (\<lambda>r. \<lparr>lm_repo = r, lm_revision = Some (SelState ''s1'')\<rparr>) repos,
     sp_upper_path = upper, sp_clear_bits = False, sp_debug = False\<rparr>"

lemma box_guard_mgr: "mg_guard box_mgr = box_guard" "mg_mounts box_mgr = []"
  by (simp_all add: box_mgr_def new_mount_manager_def)

lemma box_mgr_reachable: "reachable started step \<lparr>sy_mgr = box_mgr, sy_calls = {#}\<rparr>"
  by (intro reach_start) (simp add: started_def box_mgr_def new_mount_manager_def)

text \<open>A refused mount point, a repository that is missing behind a good one, a refused repository,
  and a refused upper directory with everything else in place.\<close>

theorem create_refuses_witness:
  "create demo_mk (box_spec ''/boxer'' [''/box''] '''') box_mgr guard_os =
     (Inl (StatusErr PermissionDenied ''path escapes allowed root''), box_mgr, guard_os) \<and>
   create demo_mk (box_spec ''/box/m'' [''/box'', '''', ''/out''] '''') box_mgr guard_os =
     (Inl (StatusErr InvalidArgument ''layer repository_path is required''), box_mgr, guard_os) \<and>
   create demo_mk (box_spec ''/box/m'' [''/box'', ''/out''] '''') box_mgr guard_os =
     (Inl (StatusErr PermissionDenied ''path escapes allowed root''), box_mgr, guard_os) \<and>
   (\<exists>mgr'. create demo_mk (box_spec ''/box/m'' [''/box''] ''/out/u'') box_mgr guard_os =
      (Inl (StatusErr PermissionDenied ''path escapes allowed root''), mgr', guard_os) \<and>
      mg_mounts mgr' = [] \<and> map_of (mg_trees mgr') = map_of (mg_trees box_mgr))"
proof -
  note refuses = create_refuses [OF box_mgr_reachable, where pk = demo_mk and s = guard_os, unfolded box_guard_mgr]
  have code: "map_error (mk_text demo_mk) PathEscape = StatusErr PermissionDenied ''path escapes allowed root''"
    using refuses by blast
  have c: "check box_guard guard_os ''/boxer'' = Inl PathEscape" "check box_guard guard_os ''/out'' = Inl PathEscape"
    "check box_guard guard_os ''/out/u'' = Inl PathEscape"
    "\<not> isl (check box_guard guard_os ''/box/m'')" "\<not> isl (check box_guard guard_os ''/box'')"
    by code_simp+
  have "sp_mount_point (box_spec a b u) = a" "map lm_repo (sp_layers (box_spec a b u)) = b"
    "sp_layers (box_spec a b u) = [] \<longleftrightarrow> b = []" "sp_upper_path (box_spec a b u) = u" for a b u
    by (simp_all add: box_spec_def comp_def)
  note sp = this
  have "case prepare demo_mk box_guard (box_spec ''/box/m'' [''/box''] ''/out/u'') guard_os of Inl _ \<Rightarrow> False
      | Inr (_, rcs) \<Rightarrow> \<not> isl (fst (acquire_tree (mk_repo demo_mk guard_os) rcs box_mgr))"
    by code_simp
  then show ?thesis
    using refuses [of "box_spec ''/boxer'' [''/box''] ''''"]
      refuses [of "box_spec ''/box/m'' [''/box'', '''', ''/out''] ''''"]
      refuses [of "box_spec ''/box/m'' [''/box'', ''/out''] ''''"]
      refuses [of "box_spec ''/box/m'' [''/box''] ''/out/u''"] c code
    by (auto simp: sp bad_path_def split: sum.splits prod.splits)
qed

text \<open>C39: a call of create that fails leaves the registry and the cache of trees as they were: a
  tree that was acquired before the mount failed is given back.\<close>

theorem create_failed_unchanged:
  assumes "reachable started step \<lparr>sy_mgr = mgr, sy_calls = cs\<rparr>"
    and "create pk spec mgr s = (Inl e, mgr', s')"
  shows "mg_mounts mgr' = mg_mounts mgr \<and> map_of (mg_trees mgr') = map_of (mg_trees mgr)"
  using assms(2)
proof (cases rule: create_cases)
  case (failed e' rcs key tree mgr1)
  have ok: "refs_ok \<lparr>sy_mgr = mgr, sy_calls = cs\<rparr>" by (rule manager_system.reachable_inv [OF assms(1)])
  show ?thesis
    using failed acquire_release [OF ok failed(2)] acquire_runs [OF failed(2), of "{#}"] by (auto simp: fun_eq_iff)
qed simp_all

theorem create_failed_unchanged_witness:
  "mg_trees (fst (snd (create (demo_mk\<lparr>mk_mount := \<lambda>_ _ _ s. (Inl (Errno EBUSY), s)\<rparr>) demo_spec demo_mgr guard_os))) = [] \<and>
   (\<exists>point rcs. prepare demo_mk (mg_guard demo_mgr) demo_spec guard_os = Inr (point, rcs) \<and>
      mg_trees (snd (acquire_tree demo_pkg rcs demo_mgr)) \<noteq> [])"
proof -
  let ?run = "create (demo_mk\<lparr>mk_mount := \<lambda>_ _ _ s. (Inl (Errno EBUSY), s)\<rparr>) demo_spec demo_mgr guard_os"
  have "isl (fst ?run)" by code_simp
  then obtain e mgr' s' where run: "?run = (Inl e, mgr', s')" by (cases ?run; cases "fst ?run") auto
  have "reachable started step \<lparr>sy_mgr = demo_mgr, sy_calls = {#}\<rparr>"
    using fresh_reachable by (simp add: fresh_system_def demo_mgr_def)
  from create_failed_unchanged [OF this run] run have "mg_trees (fst (snd ?run)) = []"
    by (simp add: demo_mgr_def new_mount_manager_def)
  moreover have "case prepare demo_mk (mg_guard demo_mgr) demo_spec guard_os of Inl _ \<Rightarrow> False
      | Inr (point, rcs) \<Rightarrow> mg_trees (snd (acquire_tree demo_pkg rcs demo_mgr)) \<noteq> []"
    by code_simp
  ultimately show ?thesis by (auto split: sum.splits)
qed

section \<open>Unmounting\<close>

text \<open>Unmounting an identifier that is not registered is NotFound and changes nothing; otherwise
  the mount is taken out of the registry, whatever the detaching returns, the other mounts stay,
  and the reply is an error exactly when detaching failed.\<close>

theorem unmount_exact:
  "case map_of (mg_mounts mgr) i of
     None \<Rightarrow> unmount pk i lazy mgr s = (Inl (StatusErr NotFound (''no mount with id '' @ mk_quote pk i)), mgr, s)
   | Some m \<Rightarrow>
       (case unmount pk i lazy mgr s of (r, mgr', s') \<Rightarrow>
          map_of (mg_mounts mgr') = (map_of (mg_mounts mgr))(i := None) \<and>
          isl r = isl (fst (detach pk m lazy s)) \<and> s' = snd (detach pk m lazy s))"
  by (auto simp: unmount_def Let_def take_mount_def release_mount_caches_def delete_conv'
      split: option.splits prod.splits sum.splits)

text \<open>A failed unmount cannot be tried again: the mount is still there on the host, but the
  manager has forgotten it, so the next call for the same identifier is NotFound and detaches
  nothing.\<close>

theorem unmount_forgets:
  assumes "map_of (mg_mounts mgr) i = Some m" and "detach pk m lazy s = (Inl e, s1)"
  shows "\<exists>e' mgr'. unmount pk i lazy mgr s = (Inl e', mgr', s1) \<and> status_code e' = Some Internal \<and>
    unmount pk i lazy' mgr' s1 = (Inl (StatusErr NotFound (''no mount with id '' @ mk_quote pk i)), mgr', s1)"
  using assms by (simp add: unmount_def Let_def take_mount_def release_mount_caches_def delete_conv')

theorem unmount_forgets_witness:
  "\<exists>i mgr e mgr'. unmount demo_mk i False mgr guard_os = (Inl e, mgr', guard_os) \<and>
     get demo_mk i mgr \<noteq> get demo_mk i mgr'"
proof -
  obtain msg mgr s' where run: "create demo_mk demo_spec demo_mgr guard_os = (Inr msg, mgr, s')"
    using demo_create by (cases "create demo_mk demo_spec demo_mgr guard_os"; cases "fst (create demo_mk demo_spec demo_mgr guard_os)") auto
  then obtain m where m: "map_of (mg_mounts mgr) (mm_id msg) = Some m"
  proof (cases rule: create_cases)
    case (made point rcs key tree mgr1 m)
    then show thesis using that [of m] by (simp add: proto_def register_def update_conv')
  qed simp_all
  have d: "detach demo_mk m False guard_os = (Inl (Errno EBUSY), guard_os)"
    by (simp add: detach_def demo_mk_def)
  from unmount_forgets [OF m d, of False] obtain e mgr' where
    u: "unmount demo_mk (mm_id msg) False mgr guard_os = (Inl e, mgr', guard_os)" by blast
  have "map_of (mg_mounts mgr') (mm_id msg) = None"
    using u m by (auto simp: unmount_def Let_def take_mount_def release_mount_caches_def delete_conv'
      split: prod.splits sum.splits)
  then have "get demo_mk (mm_id msg) mgr \<noteq> get demo_mk (mm_id msg) mgr'" using m by (simp add: get_def)
  then show ?thesis using u by blast
qed

lemma sweep_hosts:
  "snd (snd (sweep pk lazy ms mgr s)) = fold (\<lambda>m t. snd (detach pk m lazy t)) ms s \<and>
   mg_mounts (fst (snd (sweep pk lazy ms mgr s))) = mg_mounts mgr"
  by (induction ms arbitrary: mgr s) (simp_all add: Let_def release_mount_caches_def case_prod_beta')

text \<open>The failures of a sweep: the mounts whose detaching failed, each on the host that the mounts
  before it left.\<close>

lemma sweep_logged:
  "fst (sweep pk lazy ms mgr s) =
     concat (map (\<lambda>n. case fst (detach pk (ms ! n) lazy (fold (\<lambda>m t. snd (detach pk m lazy t)) (take n ms) s)) of
       Inl e \<Rightarrow> [(mt_id (ms ! n), e)] | Inr _ \<Rightarrow> []) [0..<length ms])"
proof (induction ms arbitrary: mgr s)
  case (Cons m ms)
  have up: "[0..<Suc n] = 0 # map Suc [0..<n]" for n by (simp add: upt_conv_Cons map_Suc_upt del: upt_Suc)
  show ?case
    unfolding list.size add_0_right add_Suc_right up
    by (simp add: Let_def case_prod_beta' Cons.IH comp_def cong del: sum.case_cong_weak)
qed simp

text \<open>C34: on shutdown every mount is detached, one after the other, each on the host that the ones
  before it left; a failure does not stop the sweep, and exactly the failures are logged, each with
  the identifier of its mount. Afterwards the registry is empty, and the cache too when no other call
  is under way.\<close>

theorem unmount_all_sweeps:
  assumes "reachable started step \<lparr>sy_mgr = mgr, sy_calls = {#}\<rparr>"
    and "unmount_all pk lazy mgr s = (logged, mgr', s')"
  shows "(let ms = map snd (mg_mounts mgr); host = (\<lambda>n. fold (\<lambda>m t. snd (detach pk m lazy t)) (take n ms) s) in
      s' = host (length ms) \<and>
      logged = concat (map (\<lambda>n. case fst (detach pk (ms ! n) lazy (host n)) of
        Inl e \<Rightarrow> [(mt_id (ms ! n), e)] | Inr _ \<Rightarrow> []) [0..<length ms])) \<and>
    mg_mounts mgr' = [] \<and> mg_trees mgr' = []"
proof -
  let ?ms = "map snd (mg_mounts mgr)"
  have m: "s' = fold (\<lambda>m t. snd (detach pk m lazy t)) ?ms s" "mg_mounts mgr' = []"
    "logged = fst (sweep pk lazy ?ms (mgr\<lparr>mg_mounts := []\<rparr>) s)"
    using sweep_hosts [of pk lazy ?ms "mgr\<lparr>mg_mounts := []\<rparr>" s] assms(2)
    by (simp_all add: unmount_all_def)
  have "reachable started step \<lparr>sy_mgr = mgr', sy_calls = {#}\<rparr>"
    by (rule runs_reachable [OF unmount_all_runs [OF assms(2)] assms(1)])
  then have "refs_ok \<lparr>sy_mgr = mgr', sy_calls = {#}\<rparr>" by (rule manager_system.reachable_inv)
  then have "counted \<lparr>sy_mgr = mgr', sy_calls = {#}\<rparr> key" for key by (simp add: refs_ok_def)
  then have "map_of (mg_trees mgr') key = None" for key
    using m(2) by (force simp: counted_def holders_def mounts_of_def split: option.splits)
  then have "map_of (mg_trees mgr') = Map.empty" by (simp add: fun_eq_iff)
  then have "mg_trees mgr' = []" by (simp only: map_of_eq_empty_iff)
  then show ?thesis using m sweep_logged [of pk lazy ?ms] by (simp add: Let_def)
qed

text \<open>A host on which every call takes time and whose first server cannot be stopped.\<close>

definition busy_mk :: mount_pkg where
  "busy_mk = demo_mk
     \<lparr>mk_mount := \<lambda>_ _ _ s. (Inr (nat (os_clock s)), s\<lparr>os_clock := os_clock s + 1\<rparr>),
      mk_unmount := \<lambda>server s. (if server = 0 then Inl (Errno EBUSY) else Inr (), s),
      mk_random := \<lambda>s. (Inr (replicate (nat (os_clock s)) CHR 0x0A), s)\<rparr>"

text \<open>Two mounts of the same layers, which share one tree; the first cannot be detached.\<close>

definition first_mount :: "(gerror + mount_msg) \<times> manager \<times> os" where
  "first_mount = create busy_mk demo_spec demo_mgr guard_os"

definition second_mount :: "(gerror + mount_msg) \<times> manager \<times> os" where
  "second_mount = create busy_mk demo_spec (fst (snd first_mount)) (snd (snd first_mount))"

definition new_id :: "gerror + mount_msg \<Rightarrow> string" where
  "new_id r = (case r of Inr msg \<Rightarrow> mm_id msg | Inl _ \<Rightarrow> '''')"

lemma two_mounts:
  "map fst (mg_mounts (fst (snd first_mount))) = [''0a'']"
  "new_id (fst second_mount) = ''0a0a''"
  "map fst (mg_mounts (fst (snd second_mount))) = [''0a'', ''0a0a'']"
  "map (ct_refs \<circ> snd) (mg_trees (fst (snd second_mount))) = [2]"
  "fst (unmount_all busy_mk True (fst (snd second_mount)) (snd (snd second_mount))) = [(''0a'', Errno EBUSY)]"
  by code_simp+

lemma two_mounts_reachable: "reachable started step \<lparr>sy_mgr = fst (snd second_mount), sy_calls = {#}\<rparr>"
proof (rule runs_reachable [OF create_runs])
  show "create busy_mk demo_spec (fst (snd first_mount)) (snd (snd first_mount)) =
      (fst second_mount, fst (snd second_mount), snd (snd second_mount))"
    by (simp add: second_mount_def)
  show "fst second_mount = Inr msg \<Longrightarrow> map_of (mg_mounts (fst (snd first_mount))) (mm_id msg) = None" for msg
    using two_mounts(1,2) by (auto simp: new_id_def map_of_eq_None_iff simp flip: set_map)
  show "reachable started step \<lparr>sy_mgr = fst (snd first_mount), sy_calls = {#}\<rparr>"
  proof (rule runs_reachable [OF create_runs])
    show "create busy_mk demo_spec demo_mgr guard_os =
        (fst first_mount, fst (snd first_mount), snd (snd first_mount))"
      by (simp add: first_mount_def)
    show "reachable started step \<lparr>sy_mgr = demo_mgr, sy_calls = {#}\<rparr>"
      using fresh_reachable by (simp add: fresh_system_def demo_mgr_def)
  qed (simp add: demo_mgr_def new_mount_manager_def)
qed

theorem unmount_all_sweeps_witness:
  "\<exists>mgr s mgr' s'. map fst (mg_mounts mgr) = [''0a'', ''0a0a''] \<and> map (ct_refs \<circ> snd) (mg_trees mgr) = [2] \<and>
     unmount_all busy_mk True mgr s = ([(''0a'', Errno EBUSY)], mgr', s') \<and> mg_mounts mgr' = [] \<and> mg_trees mgr' = []"
proof -
  obtain logged mgr' s' where
    u: "unmount_all busy_mk True (fst (snd second_mount)) (snd (snd second_mount)) = (logged, mgr', s')"
    by (rule prod_cases3)
  have "mg_mounts mgr' = []" "mg_trees mgr' = []"
    using unmount_all_sweeps [OF two_mounts_reachable u] by simp_all
  then show ?thesis using u two_mounts(3-5) by (metis fst_conv)
qed

end
