(* ===== verification/RepoService.thy ===== *)
theory RepoService
  imports Manager
begin

text \<open>
  The repository handlers of the gRPC service (manager.go: \<open>InitRepository\<close> to \<open>Diff\<close>) and the
  handlers that hand over to the mount manager. A request is the list of its fields; a unary
  handler returns an error or its reply, a streaming handler an error or unit with the stream
  it has sent to.

  The operations of the fvs2 repository package that change the host are the record \<open>svc_pkg\<close>;
  a commit or a restore also returns the chunks of bytes it writes to its verbose writer.
\<close>

section \<open>Messages and packages\<close>

record commit_result =
  cr_state_id :: string
  cr_created_at :: int
  cr_file_count :: nat
  cr_created :: bool

record repo_state =
  rs_id :: string
  rs_created_at :: int
  rs_message :: string

record restore_options =
  ro_to :: string
  ro_clean :: bool
  ro_reset :: bool

record restore_msg =
  rm_state_id :: string
  rm_destination :: string

record svc_pkg =
  sv_mount :: mount_pkg
  sv_init :: "string \<Rightarrow> int \<Rightarrow> (string \<times> int) call"
  sv_commit :: "string \<Rightarrow> string \<Rightarrow> bool \<Rightarrow> os \<Rightarrow> (gerror + commit_result) \<times> os \<times> bytes list"
  sv_states :: "os \<Rightarrow> string \<Rightarrow> gerror + repo_state list"
  sv_restore :: "string \<Rightarrow> string \<Rightarrow> restore_options \<Rightarrow> os \<Rightarrow>
    (gerror + restore_msg) \<times> os \<times> bytes list"

abbreviation (input) sv_text :: "svc_pkg \<Rightarrow> gerror \<Rightarrow> string" where
  "sv_text pk \<equiv> mk_text (sv_mount pk)"

abbreviation (input) sv_repo :: "svc_pkg \<Rightarrow> os \<Rightarrow> repo_pkg" where
  "sv_repo pk \<equiv> mk_repo (sv_mount pk)"

record commit_msg =
  cm_repository_path :: string
  cm_state_id :: string
  cm_created_at :: int
  cm_file_count :: nat
  cm_message :: string
  cm_created :: bool

record commit_summary_msg =
  cs_repository_path :: string
  cs_state_id :: string
  cs_created_at :: int
  cs_message :: string
  cs_file_count :: nat

record progress =
  pg_phase :: string
  pg_current :: int
  pg_message :: string
  pg_done :: bool
  pg_commit :: "commit_msg option"
  pg_restore :: "restore_msg option"

definition no_progress :: progress where
  "no_progress = \<lparr>pg_phase = '''', pg_current = 0, pg_message = '''', pg_done = False,
     pg_commit = None, pg_restore = None\<rparr>"

section \<open>Streams\<close>

text \<open>
  The server side of a stream: the messages handed to \<open>Send\<close> so far, the error the n-th call of
  \<open>Send\<close> returns, and the error of the context after n calls.
\<close>

record 'm stream =
  st_sent :: "'m list"
  st_fails :: "nat \<Rightarrow> gerror option"
  st_ctx_err :: "nat \<Rightarrow> gerror option"

definition send :: "'m \<Rightarrow> 'm stream \<Rightarrow> (gerror + unit) \<times> 'm stream" where
  "send m st =
     ((case st_fails st (length (st_sent st)) of None \<Rightarrow> Inr () | Some e \<Rightarrow> Inl e),
      st\<lparr>st_sent := st_sent st @ [m]\<rparr>)"

text \<open>The progress lines of a commit or a restore; \<open>n\<close> lines were sent before, and the errors of
  \<open>Send\<close> are ignored.\<close>

fun send_lines :: "string \<Rightarrow> string \<Rightarrow> int \<Rightarrow> string list \<Rightarrow> progress stream \<Rightarrow> progress stream" where
  "send_lines phase pre n [] st = st"
| "send_lines phase pre n (l # ls) st =
     send_lines phase pre (i64 (n + 1)) ls
       (snd (send (no_progress\<lparr>pg_phase := phase, pg_current := i64 (n + 1),
          pg_message := trim_prefix pre l\<rparr>) st))"

section \<open>Commits\<close>

definition init_repository :: "svc_pkg \<Rightarrow> path_guard \<Rightarrow> string \<Rightarrow> nat \<Rightarrow> (string \<times> u32) call" where
  "init_repository pk g path block_size s =
     (if path = '''' then (Inl (invalid ''repository_path is required''), s)
      else (case check_path (sv_text pk) g s path of
              Inl e \<Rightarrow> (Inl e, s)
            | Inr root \<Rightarrow>
                (case sv_init pk root (int block_size) s of
                   (Inl e, s') \<Rightarrow> (Inl (map_error (sv_text pk) e), s')
                 | (Inr (p, bs), s') \<Rightarrow> (Inr (p, word_of_int bs), s'))))"

definition commit_response :: "repo_pkg \<Rightarrow> string \<Rightarrow> commit_result \<Rightarrow> string \<Rightarrow> commit_msg" where
  "commit_response pkg repo res requested =
     (let msg = (if cr_created res then requested
        else (case rp_describe_state pkg repo (cr_state_id res) of
                Inr detail \<Rightarrow> sd_message detail
              | Inl _ \<Rightarrow> requested)) in
      \<lparr>cm_repository_path = repo, cm_state_id = cr_state_id res, cm_created_at = cr_created_at res,
       cm_file_count = cr_file_count res, cm_message = msg, cm_created = cr_created res\<rparr>)"

definition commit_unary ::
    "svc_pkg \<Rightarrow> path_guard \<Rightarrow> string \<Rightarrow> string \<Rightarrow> bool \<Rightarrow> commit_msg call" where
  "commit_unary pk g path message allow_empty s =
     (if path = '''' then (Inl (invalid ''repository_path is required''), s)
      else (case check_path (sv_text pk) g s path of
              Inl e \<Rightarrow> (Inl e, s)
            | Inr root \<Rightarrow>
                (case sv_commit pk root message allow_empty s of
                   (Inl e, s', _) \<Rightarrow> (Inl (map_error (sv_text pk) e), s')
                 | (Inr res, s', _) \<Rightarrow> (Inr (commit_response (sv_repo pk s') root res message), s'))))"

definition commit_stream ::
    "svc_pkg \<Rightarrow> path_guard \<Rightarrow> string \<Rightarrow> string \<Rightarrow> bool \<Rightarrow> progress stream \<Rightarrow> os \<Rightarrow>
     (gerror + unit) \<times> progress stream \<times> os" where
  "commit_stream pk g path message allow_empty st s =
     (if path = '''' then (Inl (invalid ''repository_path is required''), st, s)
      else (case check_path (sv_text pk) g s path of
              Inl e \<Rightarrow> (Inl e, st, s)
            | Inr root \<Rightarrow>
                (case send (no_progress\<lparr>pg_phase := ''hashing'', pg_message := ''starting commit''\<rparr>) st of
                   (Inl e, st1) \<Rightarrow> (Inl e, st1, s)
                 | (Inr _, st1) \<Rightarrow>
                     (case sv_commit pk root message allow_empty s of
                        (r, s', chunks) \<Rightarrow>
                          (let st2 = send_lines ''hashing'' ''hashing: '' 0 (fst (lw_writes [] chunks)) st1 in
                           case r of
                             Inl e \<Rightarrow> (Inl (map_error (sv_text pk) e), st2, s')
                           | Inr res \<Rightarrow>
                               (let (r', st3) = send (no_progress\<lparr>pg_phase := ''done'', pg_done := True,
                                  pg_commit := Some (commit_response (sv_repo pk s') root res message)\<rparr>) st2 in
                                (r', st3, s')))))))"

definition commit_summary :: "repo_pkg \<Rightarrow> string \<Rightarrow> repo_state \<Rightarrow> commit_summary_msg" where
  "commit_summary pkg repo x =
     \<lparr>cs_repository_path = repo, cs_state_id = rs_id x, cs_created_at = rs_created_at x,
      cs_message = rs_message x,
      cs_file_count = (case rp_describe_state pkg repo (rs_id x) of
        Inr detail \<Rightarrow> sd_file_count detail | Inl _ \<Rightarrow> 0)\<rparr>"

text \<open>The page of a listing: the bounds of the slice and the token of the next page.\<close>

definition page_bounds :: "nat \<Rightarrow> int \<Rightarrow> string \<Rightarrow> (nat \<times> nat \<times> string) option" where
  "page_bounds count_all page_size token =
     (case (if token = '''' then Some 0 else
         (case atoi token of
            None \<Rightarrow> None
          | Some n \<Rightarrow> if n < 0 \<or> n > int count_all then None else Some n)) of
        None \<Rightarrow> None
      | Some start \<Rightarrow>
          if page_size > 0 \<and> i64 (start + page_size) < int count_all
          then Some (nat start, nat (i64 (start + page_size)), itoa (i64 (start + page_size)))
          else Some (nat start, count_all, ''''))"

definition list_commits ::
    "svc_pkg \<Rightarrow> path_guard \<Rightarrow> os \<Rightarrow> string \<Rightarrow> int \<Rightarrow> string \<Rightarrow> gerror + commit_summary_msg list \<times> string" where
  "list_commits pk g s path page_size token =
     (if path = '''' then Inl (invalid ''repository_path is required'')
      else (case check_path (sv_text pk) g s path of
              Inl e \<Rightarrow> Inl e
            | Inr root \<Rightarrow>
                (case sv_states pk s root of
                   Inl e \<Rightarrow> Inl (map_error (sv_text pk) e)
                 | Inr states \<Rightarrow>
                     (case page_bounds (length states) page_size token of
                        None \<Rightarrow> Inl (invalid ''invalid page_token'')
                      | Some (start, stop, next_token) \<Rightarrow>
                          Inr (map (commit_summary (sv_repo pk s) root) (drop start (take stop states)),
                            next_token)))))"

definition get_commit :: "svc_pkg \<Rightarrow> path_guard \<Rightarrow> os \<Rightarrow> string \<Rightarrow> string \<Rightarrow> gerror + commit_msg" where
  "get_commit pk g s path state =
     (if path = '''' \<or> state = ''''
      then Inl (invalid ''repository_path and state_id_or_prefix are required'')
      else (case check_path (sv_text pk) g s path of
              Inl e \<Rightarrow> Inl e
            | Inr root \<Rightarrow>
                (case rp_describe_state (sv_repo pk s) root state of
                   Inl e \<Rightarrow> Inl (map_error (sv_text pk) e)
                 | Inr d \<Rightarrow>
                     Inr \<lparr>cm_repository_path = root, cm_state_id = sd_id d, cm_created_at = sd_created_at d,
                       cm_file_count = sd_file_count d, cm_message = sd_message d, cm_created = True\<rparr>)))"

section \<open>Restoring\<close>

text \<open>The checks \<open>Restore\<close> and \<open>RestoreStream\<close> begin with: the repository and the destination.\<close>

definition restore_paths ::
    "svc_pkg \<Rightarrow> path_guard \<Rightarrow> os \<Rightarrow> string \<Rightarrow> string \<Rightarrow> string \<Rightarrow> gerror + string \<times> string" where
  "restore_paths pk g s path state dest =
     (if path = '''' then Inl (invalid ''repository_path is required'')
      else if state = '''' then Inl (invalid ''state_id_or_prefix is required'')
      else (case check_path (sv_text pk) g s path of
              Inl e \<Rightarrow> Inl e
            | Inr root \<Rightarrow>
                if dest = '''' then Inr (root, '''')
                else (case check_path (sv_text pk) g s dest of Inl e \<Rightarrow> Inl e | Inr d \<Rightarrow> Inr (root, d))))"

definition restore_unary ::
    "svc_pkg \<Rightarrow> path_guard \<Rightarrow> string \<Rightarrow> string \<Rightarrow> string \<Rightarrow> bool \<Rightarrow> bool \<Rightarrow> restore_msg call" where
  "restore_unary pk g path state dest clean reset s =
     (case restore_paths pk g s path state dest of
        Inl e \<Rightarrow> (Inl e, s)
      | Inr (root, d) \<Rightarrow>
          (case sv_restore pk root state \<lparr>ro_to = d, ro_clean = clean, ro_reset = reset\<rparr> s of
             (Inl e, s', _) \<Rightarrow> (Inl (map_error (sv_text pk) e), s')
           | (Inr res, s', _) \<Rightarrow> (Inr res, s')))"

definition restore_stream ::
    "svc_pkg \<Rightarrow> path_guard \<Rightarrow> string \<Rightarrow> string \<Rightarrow> string \<Rightarrow> bool \<Rightarrow> bool \<Rightarrow> progress stream \<Rightarrow> os \<Rightarrow>
     (gerror + unit) \<times> progress stream \<times> os" where
  "restore_stream pk g path state dest clean reset st s =
     (case restore_paths pk g s path state dest of
        Inl e \<Rightarrow> (Inl e, st, s)
      | Inr (root, d) \<Rightarrow>
          (case send (no_progress\<lparr>pg_phase := ''restoring'', pg_message := ''starting restore''\<rparr>) st of
             (Inl e, st1) \<Rightarrow> (Inl e, st1, s)
           | (Inr _, st1) \<Rightarrow>
               (case sv_restore pk root state \<lparr>ro_to = d, ro_clean = clean, ro_reset = reset\<rparr> s of
                  (r, s', chunks) \<Rightarrow>
                    (let st2 = send_lines ''restoring'' ''restoring: '' 0 (fst (lw_writes [] chunks)) st1 in
                     case r of
                       Inl e \<Rightarrow> (Inl (map_error (sv_text pk) e), st2, s')
                     | Inr res \<Rightarrow>
                         (let (r', st3) = send (no_progress\<lparr>pg_phase := ''done'', pg_done := True,
                            pg_restore := Some res\<rparr>) st2 in
                          (r', st3, s'))))))"

end
