(* ===== verification/FileService.thy ===== *)
theory FileService
  imports RepoService
begin

text \<open>
  The read-only handlers over committed states (manager.go: \<open>ListFiles\<close>, \<open>GetFile\<close>, \<open>Diff\<close>) and
  their properties, with the paging of \<open>ListCommits\<close>.
\<close>

section \<open>Listing and reading files\<close>

record file_info =
  fi_path :: string
  fi_mode :: u32
  fi_size :: int
  fi_link :: string

definition list_files ::
    "svc_pkg \<Rightarrow> path_guard \<Rightarrow> os \<Rightarrow> string \<Rightarrow> selector option \<Rightarrow> gerror + file_info list" where
  "list_files pk g s path revision =
     (if path = '''' then Inl (invalid ''repository_path is required'')
      else (case check_path (sv_text pk) g s path of
              Inl e \<Rightarrow> Inl e
            | Inr root \<Rightarrow>
                (let sel = sel_from_selector root revision in
                 case rp_resolve_commit (sv_repo pk s) root (ls_state sel) (ls_branch sel) of
                   Inl e \<Rightarrow> Inl (map_error (sv_text pk) e)
                 | Inr i \<Rightarrow>
                     if i = '''' then Inl (StatusErr NotFound ''no commit to list (empty branch or no states)'')
                     else (case rp_state_files (sv_repo pk s) root i of
                             Inl e \<Rightarrow> Inl (map_error (sv_text pk) e)
                           | Inr files \<Rightarrow>
                               Inr (map (\<lambda>f. \<lparr>fi_path = fe_path f, fi_mode = fe_mode f, fi_size = fe_size f,
                                 fi_link = fe_link f\<rparr>) files)))))"

record file_chunk =
  fc_data :: bytes
  fc_offset :: int

definition default_chunk_size :: int where
  "default_chunk_size = 256 * 1024"

text \<open>The loop of \<open>GetFile\<close> from offset \<open>off\<close> on.\<close>

function get_file_loop ::
    "(gerror \<Rightarrow> string) \<Rightarrow> fs_tree \<Rightarrow> file_node \<Rightarrow> int \<Rightarrow> int \<Rightarrow> file_chunk stream \<Rightarrow>
     (gerror + unit) \<times> file_chunk stream" where
  "get_file_loop txt t node chunk off st =
     (if off \<ge> n_size node then (Inr (), st)
      else (case st_ctx_err st (length (st_sent st)) of
              Some e \<Rightarrow> (Inl (map_error txt e), st)
            | None \<Rightarrow>
                (case read_at t node off (if chunk > n_size node - off then n_size node - off else chunk) of
                   Inl e \<Rightarrow> (Inl (map_error txt e), st)
                 | Inr data \<Rightarrow>
                     if data = [] then (Inr (), st)
                     else (case send \<lparr>fc_data = data, fc_offset = off\<rparr> st of
                             (Inl e, st') \<Rightarrow> (Inl e, st')
                           | (Inr _, st') \<Rightarrow>
                               get_file_loop txt t node chunk (off + int (length data)) st'))))"
  by pat_completeness auto
termination
  by (relation "measure (\<lambda>(txt, t, node, chunk, off, st). nat (n_size node - off))") auto

declare get_file_loop.simps [simp del]

definition get_file ::
    "svc_pkg \<Rightarrow> path_guard \<Rightarrow> os \<Rightarrow> string \<Rightarrow> selector option \<Rightarrow> string \<Rightarrow> int \<Rightarrow> file_chunk stream \<Rightarrow>
     (gerror + unit) \<times> file_chunk stream" where
  "get_file pk g s path revision file chunk_size st =
     (if path = '''' \<or> file = '''' then (Inl (invalid ''repository_path and path are required''), st)
      else (case check_path (sv_text pk) g s path of
              Inl e \<Rightarrow> (Inl e, st)
            | Inr root \<Rightarrow>
                (case resolve_layer (sv_repo pk s) (sel_from_selector root revision) of
                   Inl e \<Rightarrow> (Inl (map_error (sv_text pk) e), st)
                 | Inr rc \<Rightarrow>
                     (case rp_disk_store (sv_repo pk s) (path_join [root, ''.fvs2'', ''blocks'']) of
                        Inl e \<Rightarrow> (Inl (map_error (sv_text pk) e), st)
                      | Inr store \<Rightarrow>
                          (let tree = build_tree store (rc_block_size rc) (rc_files rc);
                               clean = trim_char slash (path_clean (sep @ file)) in
                           case lookup_tree_path tree clean of
                             None \<Rightarrow> (Inl (StatusErr NotFound (''file not found: '' @ file)), st)
                           | Some node \<Rightarrow>
                               if n_is_dir node
                               then (Inl (StatusErr NotFound (''file not found: '' @ file)), st)
                               else get_file_loop (sv_text pk) tree node
                                 (if chunk_size \<le> 0 then default_chunk_size else chunk_size) 0 st)))))"

section \<open>Comparing two states\<close>

definition same_file_entry :: "file_entry \<Rightarrow> file_entry \<Rightarrow> bool" where
  "same_file_entry a b \<longleftrightarrow>
     fe_size a = fe_size b \<and> fe_mode a = fe_mode b \<and> fe_link a = fe_link b \<and> fe_blocks a = fe_blocks b"

datatype change_kind = Added | Modified | Removed

record file_change =
  ch_path :: string
  ch_kind :: change_kind
  ch_delta :: int

text \<open>The map from paths to entries that the handler fills.\<close>

definition by_path :: "file_entry list \<Rightarrow> (string \<times> file_entry) list" where
  "by_path files = fold (\<lambda>f. AList.update (fe_path f) f) files []"

text \<open>One round of each of the two loops over the maps.\<close>

definition to_change :: "(string \<times> file_entry) list \<Rightarrow> string \<Rightarrow> file_entry \<Rightarrow> file_change list" where
  "to_change fm p tf =
     (case map_of fm p of
        Some ff \<Rightarrow>
          if same_file_entry ff tf then []
          else [\<lparr>ch_path = p, ch_kind = Modified, ch_delta = i64 (fe_size tf - fe_size ff)\<rparr>]
      | None \<Rightarrow> [\<lparr>ch_path = p, ch_kind = Added, ch_delta = fe_size tf\<rparr>])"

definition from_change :: "(string \<times> file_entry) list \<Rightarrow> string \<Rightarrow> file_entry \<Rightarrow> file_change list" where
  "from_change tm p ff =
     (if map_of tm p = None then [\<lparr>ch_path = p, ch_kind = Removed, ch_delta = i64 (- fe_size ff)\<rparr>]
      else [])"

text \<open>Go runs through the maps in an order of its own; the changes are sorted afterwards.\<close>

definition diff_files :: "file_entry list \<Rightarrow> file_entry list \<Rightarrow> file_change list" where
  "diff_files from to =
     (let fm = by_path from; tm = by_path to in
      sort_key ch_path
        (concat (map (\<lambda>(p, tf). to_change fm p tf) tm) @
         concat (map (\<lambda>(p, ff). from_change tm p ff) fm)))"

definition diff ::
    "svc_pkg \<Rightarrow> path_guard \<Rightarrow> os \<Rightarrow> string \<Rightarrow> string \<Rightarrow> string \<Rightarrow> gerror + file_change list" where
  "diff pk g s path from to =
     (if path = '''' \<or> from = '''' \<or> to = ''''
      then Inl (invalid ''repository_path, from_state and to_state are required'')
      else (case check_path (sv_text pk) g s path of
              Inl e \<Rightarrow> Inl e
            | Inr root \<Rightarrow>
           (case rp_resolve_commit (sv_repo pk s) root from '''' of
              Inl e \<Rightarrow> Inl (map_error (sv_text pk) e)
            | Inr from_id \<Rightarrow>
           (case rp_resolve_commit (sv_repo pk s) root to '''' of
              Inl e \<Rightarrow> Inl (map_error (sv_text pk) e)
            | Inr to_id \<Rightarrow>
           (case rp_state_files (sv_repo pk s) root from_id of
              Inl e \<Rightarrow> Inl (map_error (sv_text pk) e)
            | Inr from_files \<Rightarrow>
           (case rp_state_files (sv_repo pk s) root to_id of
              Inl e \<Rightarrow> Inl (map_error (sv_text pk) e)
            | Inr to_files \<Rightarrow> Inr (diff_files from_files to_files)))))))"

section \<open>Paging\<close>

text \<open>The tokens that stand for the position \<open>n\<close>.\<close>

definition token_of :: "nat \<Rightarrow> string \<Rightarrow> bool" where
  "token_of n token \<longleftrightarrow> (token = '''' \<and> n = 0) \<or> token = itoa (int n)"

lemma itoa_ne [simp]: "itoa i \<noteq> ''''"
  using itoa_nat_ne by (simp add: itoa_def)

lemma page_bounds_start:
  assumes "n \<le> m" and "int m < 2 ^ 62" and "0 < psize" and "psize < 2 ^ 31" and "token_of n token"
  shows "page_bounds m psize token =
    (if int n + psize < int m then Some (n, n + nat psize, itoa (int n + psize)) else Some (n, m, ''''))"
proof -
  have t: "(if token = '''' then Some 0 else
      (case atoi token of None \<Rightarrow> None | Some n \<Rightarrow> if n < 0 \<or> n > int m then None else Some n)) = Some (int n)"
    using assms(1,2,5) atoi_itoa [of "int n"] by (auto simp: token_of_def)
  have "i64 (int n + psize) = int n + psize" using assms(1-4) by (intro i64_nat_id) auto
  then show ?thesis unfolding page_bounds_def t using assms(3) by (auto simp: nat_add_distrib)
qed

text \<open>A client that follows the tokens, for at most \<open>fuel\<close> requests.\<close>

fun all_pages ::
    "nat \<Rightarrow> (string \<Rightarrow> gerror + 'a list \<times> string) \<Rightarrow> string \<Rightarrow> 'a list option" where
  "all_pages 0 request token = None"
| "all_pages (Suc fuel) request token =
     (case request token of
        Inl e \<Rightarrow> None
      | Inr (page, next_token) \<Rightarrow>
          if next_token = '''' then Some page
          else map_option ((@) page) (all_pages fuel request next_token))"

lemma all_pages_rest:
  assumes req: "\<And>token. request token = (case page_bounds (length xs) psize token of
      None \<Rightarrow> Inl e | Some (a, b, next_token) \<Rightarrow> Inr (map f (drop a (take b xs)), next_token))"
    and m: "int (length xs) < 2 ^ 62" and psize: "0 < psize" "psize < 2 ^ 31"
  shows "n \<le> length xs \<Longrightarrow> length xs - n < fuel \<Longrightarrow> token_of n token \<Longrightarrow>
    all_pages fuel request token = Some (map f (drop n xs))"
proof (induction fuel arbitrary: n token)
  case (Suc fuel)
  note b = page_bounds_start [OF Suc.prems(1) m psize Suc.prems(3)]
  show ?case
  proof (cases "int n + psize < int (length xs)")
    case True
    let ?k = "n + nat psize"
    have k: "int n + psize = int ?k" using psize by simp
    have "all_pages fuel request (itoa (int n + psize)) = Some (map f (drop ?k xs))"
    proof (rule Suc.IH)
      show "token_of ?k (itoa (int n + psize))" unfolding k token_of_def by blast
    qed (use True Suc.prems(2) psize in linarith)+
    moreover have "drop n (take ?k xs) @ drop ?k xs = drop n xs"
      using append_take_drop_id [of "nat psize" "drop n xs"] by (simp add: drop_take add.commute)
    then have "map f (drop n (take ?k xs)) @ map f (drop ?k xs) = map f (drop n xs)"
      by (metis map_append)
    moreover have "request token = Inr (map f (drop n (take ?k xs)), itoa (int n + psize))"
      unfolding req b using True by simp
    ultimately show ?thesis by simp
  qed (use b in \<open>simp add: req\<close>)
qed simp

text \<open>C30: paging is complete: a client that starts without a token and follows the tokens gets every
  commit exactly once and in order, with at most one request per commit and one more.\<close>

theorem list_commits_pages:
  assumes "path \<noteq> ''''" and "check g s path = Inr root" and "sv_states pk s root = Inr states"
    and "int (length states) < 2 ^ 62" and "0 < psize" and "psize < 2 ^ 31"
  shows "all_pages (Suc (length states)) (list_commits pk g s path psize) '''' =
    Some (map (commit_summary (sv_repo pk s) root) states)"
proof -
  have "list_commits pk g s path psize token = (case page_bounds (length states) psize token of
      None \<Rightarrow> Inl (invalid ''invalid page_token'')
    | Some (a, b, next_token) \<Rightarrow>
        Inr (map (commit_summary (sv_repo pk s) root) (drop a (take b states)), next_token))" for token
    using assms(1-3) by (simp add: list_commits_def check_path_def split: option.splits)
  then have "all_pages (Suc (length states)) (list_commits pk g s path psize) '''' =
      Some (map (commit_summary (sv_repo pk s) root) (drop 0 states))"
    by (rule all_pages_rest [OF _ assms(4-6)]) (simp_all add: token_of_def)
  then show ?thesis by simp
qed

definition demo_states :: "repo_state list" where
  "demo_states = map (\<lambda>i. \<lparr>rs_id = i, rs_created_at = 0, rs_message = i\<rparr>) [''a'', ''b'', ''c'']"

definition demo_svc :: svc_pkg where
  "demo_svc = \<lparr>sv_mount = demo_mk, sv_init = (\<lambda>p n s. (Inr (p, n), s)),
     sv_commit = (\<lambda>_ _ _ s. (Inl (Msg ''no''), s, [])), sv_states = (\<lambda>_ _. Inr demo_states),
     sv_restore = (\<lambda>_ _ _ s. (Inl (Msg ''no''), s, []))\<rparr>"

theorem list_commits_pages_witness:
  "all_pages 4 (list_commits demo_svc box_guard guard_os ''/box/r'' 2) '''' =
     Some (map (commit_summary demo_pkg ''/box/r'') demo_states) \<and>
   snd (projr (list_commits demo_svc box_guard guard_os ''/box/r'' 2 '''')) = ''2''"
proof
  have "check box_guard guard_os ''/box/r'' = Inr ''/box/r''" by code_simp
  moreover have "sv_states demo_svc guard_os ''/box/r'' = Inr demo_states" "sv_repo demo_svc guard_os = demo_pkg"
    "Suc (length demo_states) = 4" "(''/box/r'' :: string) \<noteq> ''''"
    by (simp_all add: demo_svc_def demo_states_def demo_mk_def)
  ultimately show "all_pages 4 (list_commits demo_svc box_guard guard_os ''/box/r'' 2) '''' =
     Some (map (commit_summary demo_pkg ''/box/r'') demo_states)"
    using list_commits_pages [of "''/box/r''" box_guard guard_os "''/box/r''" demo_svc demo_states 2] by simp
  show "snd (projr (list_commits demo_svc box_guard guard_os ''/box/r'' 2 '''')) = ''2''" by code_simp
qed

text \<open>Whatever token a client sends, the slice that is returned lies inside the list, so the
  handler never panics: a token that is no number, negative or past the end is refused.\<close>

theorem page_bounds_inside:
  assumes "page_bounds m psize token = Some (a, b, next_token)" and "int m < 2 ^ 62" and "psize < 2 ^ 31"
  shows "a \<le> b \<and> b \<le> m \<and> (0 < psize \<longrightarrow> int (b - a) \<le> psize) \<and>
    (next_token \<noteq> '''' \<longrightarrow> b < m \<and> next_token = itoa (int b))"
proof -
  let ?start = "if token = '''' then Some 0 else
      (case atoi token of None \<Rightarrow> None | Some n \<Rightarrow> if n < 0 \<or> n > int m then None else Some n)"
  obtain n where start: "?start = Some n"
    using assms(1) unfolding page_bounds_def by (cases ?start) auto
  then have n: "0 \<le> n" "n \<le> int m" by (auto split: if_splits option.splits)
  have r: "(a, b, next_token) =
      (if psize > 0 \<and> i64 (n + psize) < int m
       then (nat n, nat (i64 (n + psize)), itoa (i64 (n + psize))) else (nat n, m, ''''))"
    using assms(1) unfolding page_bounds_def start by (auto split: if_splits)
  show ?thesis
  proof (cases "0 < psize")
    case True
    then have "i64 (n + psize) = n + psize" using n assms(2,3) by (intro i64_nat_id) auto
    then show ?thesis using r n True by (auto split: if_splits)
  qed (use r n in auto)
qed

theorem page_bounds_inside_witness: "page_bounds 3 2 ''1'' = Some (1, 3, '''') \<and> (3::nat) \<le> 3"
proof -
  have p: "page_bounds 3 2 ''1'' = Some (1, 3, '''')" by code_simp
  from page_bounds_inside [OF p] p show ?thesis by simp
qed

section \<open>Reading a file over the wire\<close>

fun consecutive :: "int \<Rightarrow> file_chunk list \<Rightarrow> bool" where
  "consecutive off [] \<longleftrightarrow> True"
| "consecutive off (m # ms) \<longleftrightarrow> fc_offset m = off \<and> consecutive (off + int (length (fc_data m))) ms"

definition range_readable :: "fs_tree \<Rightarrow> file_node \<Rightarrow> bytes \<Rightarrow> bool" where
  "range_readable t node content \<longleftrightarrow> n_size node = int (length content) \<and>
     (\<forall>off k. 0 \<le> off \<longrightarrow> 0 < k \<longrightarrow> off + k \<le> int (length content) \<longrightarrow>
        read_at t node off k = Inr (take (nat k) (drop (nat off) content)))"

lemma send_cases:
  "send m st = (r, st') \<Longrightarrow> st_sent st' = st_sent st @ [m] \<and> st_fails st' = st_fails st \<and>
     st_ctx_err st' = st_ctx_err st \<and> (st_fails st (length (st_sent st)) = None \<longrightarrow> r = Inr ())"
  by (auto simp: send_def split: option.splits)

text \<open>What is sent of the bytes \<open>part\<close> that begin at \<open>off\<close>.\<close>

definition sent_part :: "int \<Rightarrow> int \<Rightarrow> bytes \<Rightarrow> file_chunk list \<Rightarrow> gerror + unit \<Rightarrow> bool" where
  "sent_part chunk off part ms r \<longleftrightarrow>
     prefix (concat (map fc_data ms)) part \<and> consecutive off ms \<and>
     (\<forall>m \<in> set ms. fc_data m \<noteq> [] \<and> int (length (fc_data m)) \<le> chunk) \<and>
     (r = Inr () \<longrightarrow> concat (map fc_data ms) = part)"

lemma sent_part_none: "sent_part chunk off part [] (Inl e)" "sent_part chunk off [] [] r"
  by (simp_all add: sent_part_def)

lemma sent_part_Cons:
  "d \<noteq> [] \<Longrightarrow> int (length d) \<le> chunk \<Longrightarrow> sent_part chunk (off + int (length d)) part ms r \<Longrightarrow>
     sent_part chunk off (d @ part) (\<lparr>fc_data = d, fc_offset = off\<rparr> # ms) r"
  by (auto simp: sent_part_def)

lemma get_file_loop_spec:
  assumes rd: "range_readable t node content" and chunk: "0 < chunk"
  shows "0 \<le> off \<Longrightarrow> off \<le> n_size node \<Longrightarrow> get_file_loop txt t node chunk off st = (r, st') \<Longrightarrow>
    \<exists>ms. st_sent st' = st_sent st @ ms \<and> sent_part chunk off (drop (nat off) content) ms r \<and>
      ((\<forall>n. st_fails st n = None) \<longrightarrow> (\<forall>n. st_ctx_err st n = None) \<longrightarrow> r = Inr ())"
proof (induction "nat (n_size node - off)" arbitrary: off st rule: less_induct)
  case less
  let ?k = "if chunk > n_size node - off then n_size node - off else chunk"
  have run: "get_file_loop txt t node chunk off st = (r, st')" by (rule less.prems(3))
  note run = run [unfolded get_file_loop.simps [of _ _ _ _ _ st]]
  have size: "n_size node = int (length content)" using rd by (simp add: range_readable_def)
  show ?case
  proof (cases "off \<ge> n_size node")
    case True
    then have "r = Inr ()" "st' = st" using run by simp_all
    then show ?thesis using True size less.prems(2) by (intro exI [of _ "[]"]) (simp add: sent_part_none)
  next
    case in_file: False
    show ?thesis
    proof (cases "st_ctx_err st (length (st_sent st))")
      case (Some e)
      then have "r = Inl (map_error txt e)" "st' = st" using run in_file by simp_all
      then show ?thesis using Some by (intro exI [of _ "[]"]) (auto simp: sent_part_none)
    next
      case None
      define data where "data = take (nat ?k) (drop (nat off) content)"
      have k: "0 < ?k" "off + ?k \<le> int (length content)" using in_file chunk size by auto
      then have read: "read_at t node off ?k = Inr data"
        using rd less.prems(1) unfolding range_readable_def data_def by blast
      have len: "int (length data) = ?k" using k less.prems(1) by (simp add: data_def)
      then have ne: "data \<noteq> []" using k by auto
      obtain r1 st1 where sd: "send \<lparr>fc_data = data, fc_offset = off\<rparr> st = (r1, st1)" by force
      note s1 = send_cases [OF sd]
      have "nat (off + int (length data)) = length data + nat off"
        using less.prems(1) by (simp add: nat_add_distrib)
      moreover have "length data = nat ?k" using len by linarith
      ultimately have "drop (nat (off + int (length data))) content = drop (nat ?k) (drop (nat off) content)"
        by (simp only: drop_drop)
      then have split: "drop (nat off) content = data @ drop (nat (off + int (length data))) content"
        unfolding data_def by (simp only: append_take_drop_id)
      show ?thesis
      proof (cases r1)
        case (Inl e)
        then have "r = Inl e" "st' = st1" using run in_file None read ne sd by simp_all
        then show ?thesis
          using s1 Inl ne len chunk split
          by (intro exI [of _ "[\<lparr>fc_data = data, fc_offset = off\<rparr>]"]) (auto simp: sent_part_def)
      next
        case (Inr u)
        then have rest: "get_file_loop txt t node chunk (off + int (length data)) st1 = (r, st')"
          using run in_file None read ne sd by simp
        have "\<exists>ms. st_sent st' = st_sent st1 @ ms \<and>
            sent_part chunk (off + int (length data)) (drop (nat (off + int (length data))) content) ms r \<and>
            ((\<forall>n. st_fails st1 n = None) \<longrightarrow> (\<forall>n. st_ctx_err st1 n = None) \<longrightarrow> r = Inr ())"
          using rest less.prems(1) k len size in_file by (intro less.hyps) auto
        then obtain ms where ms: "st_sent st' = st_sent st1 @ ms"
          "sent_part chunk (off + int (length data)) (drop (nat (off + int (length data))) content) ms r"
          "(\<forall>n. st_fails st1 n = None) \<longrightarrow> (\<forall>n. st_ctx_err st1 n = None) \<longrightarrow> r = Inr ()" by blast
        have "int (length data) \<le> chunk" using len chunk by simp
        then have "sent_part chunk off (drop (nat off) content) (\<lparr>fc_data = data, fc_offset = off\<rparr> # ms) r"
          unfolding split by (rule sent_part_Cons [OF ne _ ms(2)])
        then show ?thesis using s1 ms by (intro exI [of _ "\<lparr>fc_data = data, fc_offset = off\<rparr> # ms"]) simp
      qed
    qed
  qed
qed

lemma leaf_range_readable:
  assumes "view_of files (comps p) = Some (VLeaf f)" and "stored store bs f content"
  shows "\<exists>n. lookup_tree_path (build_tree store bs files) p = Some n \<and> \<not> n_is_dir n \<and>
    range_readable (build_tree store bs files) n content"
proof -
  let ?t = "build_tree store bs files"
  have "map_option erase (lookup_tree_path ?t p) = Some (leaf_node 0 (last (comps p)) f)"
    unfolding lookup_tree_path_comps view_nodes_def [symmetric] view_nodes_build using assms(1) by simp
  then obtain n where n: "lookup_tree_path ?t p = Some n" "erase n = leaf_node 0 (last (comps p)) f"
    by auto
  have t: "t_store ?t = store" "t_block_size ?t = bs" by (simp_all add: build_tree_def)
  have "n_is_dir n = n_is_dir (erase n)" "n_size n = n_size (erase n)"
    "n_blocks n = n_blocks (erase n)" "n_offsets n = n_offsets (erase n)"
    by (simp_all add: erase_def)
  then have parts: "n_is_dir n = False" "n_size n = int (length content)" "n_blocks n = fe_blocks f"
    "n_offsets n = n_offsets (leaf_node 0 '''' f)"
    unfolding n(2) using assms(2) by (simp_all add: leaf_node_def stored_def)
  have "int (length content) < 2 ^ 63" using assms(2) by (simp add: stored_def)
  then have "range_readable ?t n content"
    unfolding range_readable_def using assms(2) parts
    by (intro conjI allI impI read_at_leaf) (simp_all add: t)
  then show ?thesis using n(1) parts(1) by blast
qed

text \<open>C19: GetFile sends the file: the chunks follow each other without a gap, none is empty or longer
  than the requested size, and put together they are a prefix of the file's bytes, whatever the
  stream does; when the handler returns without an error they are all of it, and it does so
  unless the stream or its context fails.\<close>

theorem get_file_exact:
  assumes "path \<noteq> ''''" and "file \<noteq> ''''" and "check g s path = Inr root"
    and "resolve_layer (sv_repo pk s) (sel_from_selector root revision) = Inr rc"
    and "rp_disk_store (sv_repo pk s) (path_join [root, ''.fvs2'', ''blocks'']) = Inr store"
    and "view_of (rc_files rc) (comps (trim_char slash (path_clean (sep @ file)))) = Some (VLeaf f)"
    and "stored store (rc_block_size rc) f content"
    and "get_file pk g s path revision file chunk st = (r, st')" and "st_sent st = []"
  shows "sent_part (if chunk \<le> 0 then default_chunk_size else chunk) 0 content (st_sent st') r \<and>
    ((\<forall>n. st_fails st n = None) \<and> (\<forall>n. st_ctx_err st n = None) \<longrightarrow> r = Inr ())"
proof -
  let ?t = "build_tree store (rc_block_size rc) (rc_files rc)"
  let ?k = "if chunk \<le> 0 then default_chunk_size else chunk"
  obtain n where n: "lookup_tree_path ?t (trim_char slash (path_clean (sep @ file))) = Some n"
    "\<not> n_is_dir n" "range_readable ?t n content"
    using leaf_range_readable [OF assms(6,7)] by blast
  have loop: "get_file_loop (sv_text pk) ?t n ?k 0 st = (r, st')"
    using assms(8) assms(1-3) n(1,2) by (simp add: get_file_def check_path_Inr [THEN iffD2] assms(4,5) Let_def)
  have "0 < ?k" by (simp add: default_chunk_size_def)
  from get_file_loop_spec [OF n(3) this order_refl _ loop] obtain ms where
    "st_sent st' = st_sent st @ ms" "sent_part ?k 0 (drop (nat 0) content) ms r"
    "(\<forall>n. st_fails st n = None) \<longrightarrow> (\<forall>n. st_ctx_err st n = None) \<longrightarrow> r = Inr ()"
    using n(3) by (auto simp: range_readable_def)
  then show ?thesis using assms(9) by simp
qed

text \<open>A package whose only state has \<open>d/f\<close>, with the bytes \<open>abcdef\<close> in two blocks.\<close>

definition file_svc :: "file_entry \<Rightarrow> svc_pkg" where
  "file_svc f = demo_svc\<lparr>sv_mount := demo_mk\<lparr>mk_repo := \<lambda>_. demo_pkg\<lparr>rp_state_files := \<lambda>_ _. Inr [f]\<rparr>\<rparr>\<rparr>"

definition quiet_stream :: "file_chunk stream" where
  "quiet_stream = \<lparr>st_sent = [], st_fails = (\<lambda>_. None), st_ctx_err = (\<lambda>_. None)\<rparr>"

definition demo_get :: "file_entry \<Rightarrow> (gerror + unit) \<times> file_chunk stream" where
  "demo_get f = get_file (file_svc f) box_guard guard_os ''/box/r'' (Some (SelState ''s1'')) ''d/f'' 4 quiet_stream"

theorem get_file_exact_witness:
  "fst (demo_get demo_file) = Inr () \<and>
   concat (map fc_data (st_sent (snd (demo_get demo_file)))) = ''abcdef''"
proof -
  have c: "check box_guard guard_os ''/box/r'' = Inr ''/box/r''"
    and v: "view_of [demo_file] (comps (trim_char slash (path_clean (sep @ ''d/f'')))) = Some (VLeaf demo_file)"
    and k: "stored demo_store 4 demo_file ''abcdef''" by code_simp+
  let ?rc = "\<lparr>rc_repo = ''/box/r'', rc_state_id = ''s1'', rc_blocks = ''/box/r/b'', rc_block_size = 4,
    rc_files = [demo_file]\<rparr>"
  have l: "resolve_layer (sv_repo (file_svc demo_file) guard_os)
      (sel_from_selector ''/box/r'' (Some (SelState ''s1''))) = Inr ?rc"
    "rp_disk_store (sv_repo (file_svc demo_file) guard_os) p = Inr demo_store" for p
    by (simp_all add: file_svc_def demo_svc_def demo_mk_def demo_pkg_def resolve_layer_def resolve_layer_state_def
        load_resolved_layer_def sel_from_selector_def)
  obtain r st' where run: "demo_get demo_file = (r, st')" by force
  from get_file_exact [OF _ _ c l(1) l(2) _ _ run [unfolded demo_get_def]] v k run show ?thesis
    by (simp add: quiet_stream_def sent_part_def)
qed

lemma resolve_layer_block_path:
  "resolve_layer (pkg\<lparr>rp_block_store_path := \<lambda>_. Inr q\<rparr>) sel =
     map_sum id (\<lambda>rc. rc\<lparr>rc_blocks := q\<rparr>) (resolve_layer (pkg\<lparr>rp_block_store_path := \<lambda>_. Inr p\<rparr>) sel)"
  by (simp add: resolve_layer_def resolve_layer_state_def load_resolved_layer_def split: sum.splits)

text \<open>GetFile reads the blocks of every repository from \<open>.fvs2/blocks\<close> below it, wherever the
  package says that the repository keeps its blocks: the answer of \<open>BlockStorePath\<close> makes no
  difference.\<close>

theorem get_file_ignores_block_path:
  assumes "sv_repo pk s = pkg\<lparr>rp_block_store_path := \<lambda>_. Inr p\<rparr>"
    and "sv_repo pk' s = pkg\<lparr>rp_block_store_path := \<lambda>_. Inr q\<rparr>" and "sv_text pk' = sv_text pk"
  shows "get_file pk g s path revision file chunk st = get_file pk' g s path revision file chunk st"
proof -
  have "resolve_layer (sv_repo pk' s) sel =
      map_sum id (\<lambda>rc. rc\<lparr>rc_blocks := q\<rparr>) (resolve_layer (sv_repo pk s) sel)" for sel
    unfolding assms(1,2) by (rule resolve_layer_block_path)
  moreover have "rp_disk_store (sv_repo pk' s) = rp_disk_store (sv_repo pk s)" unfolding assms(1,2) by simp
  ultimately show ?thesis
    unfolding get_file_def assms(3) by (auto split: sum.splits)
qed

text \<open>A file whose blocks are in \<open>/box/blocks\<close>: a mount reads it, GetFile does not find its blocks.\<close>

definition elsewhere_pkg :: repo_pkg where
  "elsewhere_pkg = demo_pkg\<lparr>rp_state_files := \<lambda>_ _. Inr [demo_file],
     rp_disk_store := \<lambda>p. Inr (if p = ''/box/blocks'' then demo_store else (\<lambda>_. Inl BlockNotFound))\<rparr>"

definition elsewhere_svc :: "string \<Rightarrow> svc_pkg" where
  "elsewhere_svc blocks = demo_svc\<lparr>sv_mount := demo_mk\<lparr>
     mk_repo := \<lambda>_. elsewhere_pkg\<lparr>rp_block_store_path := \<lambda>_. Inr blocks\<rparr>\<rparr>\<rparr>"

definition elsewhere_get :: "string \<Rightarrow> (gerror + unit) \<times> file_chunk stream" where
  "elsewhere_get blocks = get_file (elsewhere_svc blocks) box_guard guard_os ''/box/r''
     (Some (SelState ''s1'')) ''d/f'' 4 quiet_stream"

theorem get_file_ignores_block_path_witness:
  "elsewhere_get ''/box/blocks'' = elsewhere_get ''/box/r/.fvs2/blocks'' \<and>
   isl (fst (elsewhere_get ''/box/blocks'')) \<and>
   (case build_tree_from_repo (sv_repo (elsewhere_svc ''/box/blocks'') guard_os) ''/box/r'' ''s1'' '''' '''' of
      Inr t \<Rightarrow> (case lookup_tree_path t ''d/f'' of Some n \<Rightarrow> read_at t n 0 6 = Inr ''abcdef'' | None \<Rightarrow> False)
    | Inl _ \<Rightarrow> False)"
proof (intro conjI)
  show "elsewhere_get ''/box/blocks'' = elsewhere_get ''/box/r/.fvs2/blocks''"
    unfolding elsewhere_get_def
    by (rule get_file_ignores_block_path [where pkg = elsewhere_pkg]) (simp_all add: elsewhere_svc_def demo_svc_def)
  show "isl (fst (elsewhere_get ''/box/blocks''))" by code_simp
  show "case build_tree_from_repo (sv_repo (elsewhere_svc ''/box/blocks'') guard_os) ''/box/r'' ''s1'' '''' '''' of
      Inr t \<Rightarrow> (case lookup_tree_path t ''d/f'' of Some n \<Rightarrow> read_at t n 0 6 = Inr ''abcdef'' | None \<Rightarrow> False)
    | Inl _ \<Rightarrow> False" by code_simp
qed

definition short_file :: file_entry where
  "short_file = demo_file\<lparr>fe_blocks := [''b1'']\<rparr>"

text \<open>A file whose recorded size is larger than its blocks is sent short, and the call succeeds
  (copying the same file up is an error).\<close>

theorem get_file_short:
  "fst (demo_get short_file) = Inr () \<and> fe_size short_file = 6 \<and>
   concat (map fc_data (st_sent (snd (demo_get short_file)))) = ''abcd''"
  by (intro conjI; code_simp)

section \<open>Comparing states\<close>

text \<open>The entry of a path is the last one listed; \<open>change_at\<close> is the change between two states. A path
  that both have changed when its size, its mode, the target of its link or its blocks did.\<close>

definition entry_at :: "file_entry list \<Rightarrow> string \<Rightarrow> file_entry option" where
  "entry_at files = map_of (rev (map (\<lambda>f. (fe_path f, f)) files))"

definition change_at :: "file_entry list \<Rightarrow> file_entry list \<Rightarrow> string \<Rightarrow> file_change option" where
  "change_at from to p =
     (case (entry_at from p, entry_at to p) of
        (None, None) \<Rightarrow> None
      | (None, Some tf) \<Rightarrow> Some \<lparr>ch_path = p, ch_kind = Added, ch_delta = fe_size tf\<rparr>
      | (Some ff, None) \<Rightarrow> Some \<lparr>ch_path = p, ch_kind = Removed, ch_delta = i64 (- fe_size ff)\<rparr>
      | (Some ff, Some tf) \<Rightarrow>
          if fe_size ff = fe_size tf \<and> fe_mode ff = fe_mode tf \<and> fe_link ff = fe_link tf \<and>
            fe_blocks ff = fe_blocks tf then None
          else Some \<lparr>ch_path = p, ch_kind = Modified, ch_delta = i64 (fe_size tf - fe_size ff)\<rparr>)"

lemma by_path_fold: "by_path files = fold (\<lambda>(k, v). AList.update k v) (map (\<lambda>f. (fe_path f, f)) files) []"
  by (simp add: by_path_def fold_map comp_def)

lemma by_path_entry: "map_of (by_path files) = entry_at files"
  unfolding by_path_fold alist.lookup_inserts by (simp add: entry_at_def)

lemma by_path_distinct: "distinct (map fst (by_path files))"
  unfolding by_path_fold by (rule alist.ok_inserts) simp

lemma in_by_path: "(p, f) \<in> set (by_path files) \<longleftrightarrow> entry_at files p = Some f"
  using map_of_eq_Some_iff [OF by_path_distinct, of files p f] by (simp add: by_path_entry)

lemma in_pairs: "c \<in> set (concat (map (\<lambda>(p, f). h p f) al)) \<longleftrightarrow> (\<exists>p f. (p, f) \<in> set al \<and> c \<in> set (h p f))"
  by (induction al) auto

lemma in_loop: "c \<in> set (concat (map (\<lambda>(p, f). h p f) (by_path files))) \<longleftrightarrow>
    (\<exists>p f. entry_at files p = Some f \<and> c \<in> set (h p f))"
  unfolding in_pairs in_by_path ..

lemma to_change_path: "c \<in> set (to_change fm p f) \<Longrightarrow> ch_path c = p"
  and from_change_path: "c \<in> set (from_change fm p f) \<Longrightarrow> ch_path c = p"
  by (auto simp: to_change_def from_change_def split: option.splits if_splits)

lemma set_diff: "c \<in> set (diff_files from to) \<longleftrightarrow> change_at from to (ch_path c) = Some c"
proof -
  let ?p = "ch_path c"
  have "c \<in> set (diff_files from to) \<longleftrightarrow>
      (\<exists>p f. entry_at to p = Some f \<and> c \<in> set (to_change (by_path from) p f)) \<or>
      (\<exists>p f. entry_at from p = Some f \<and> c \<in> set (from_change (by_path to) p f))"
    unfolding diff_files_def Let_def set_sort set_append Un_iff in_loop ..
  also have "\<dots> \<longleftrightarrow>
      (\<exists>f. entry_at to ?p = Some f \<and> c \<in> set (to_change (by_path from) ?p f)) \<or>
      (\<exists>f. entry_at from ?p = Some f \<and> c \<in> set (from_change (by_path to) ?p f))"
    using to_change_path from_change_path by metis
  also have "\<dots> \<longleftrightarrow> change_at from to ?p = Some c"
    by (cases "entry_at from ?p"; cases "entry_at to ?p")
      (auto simp: change_at_def to_change_def from_change_def by_path_entry same_file_entry_def)
  finally show ?thesis .
qed

text \<open>A loop whose rounds give at most one change of their own path.\<close>

lemma loop_distinct:
  assumes "\<And>p f c. c \<in> set (h p f) \<Longrightarrow> ch_path c = p" and "\<And>p f. length (h p f) \<le> 1"
  shows "distinct (map fst al) \<Longrightarrow> distinct (map ch_path (concat (map (\<lambda>(p, f). h p f) al)))"
proof (induction al)
  case (Cons x al)
  obtain p f where x: "x = (p, f)" by force
  have one: "h p f = [] \<or> (\<exists>c. h p f = [c] \<and> ch_path c = p)"
    using assms(1) [of _ p f] assms(2) [of p f] by (cases "h p f"; cases "tl (h p f)") auto
  have "ch_path c \<noteq> p" if c: "c \<in> set (concat (map (\<lambda>(p, f). h p f) al))" for c
  proof -
    obtain q g where "(q, g) \<in> set al" "c \<in> set (h q g)" using c unfolding in_pairs by blast
    then show ?thesis using assms(1) [of c q g] Cons.prems x by force
  qed
  then have "p \<notin> ch_path ` set (concat (map (\<lambda>(p, f). h p f) al))" by blast
  then show ?case using one Cons x by (auto simp del: set_concat)
qed simp

lemma diff_paths_distinct: "distinct (map ch_path (diff_files from to))"
proof -
  let ?new = "concat (map (\<lambda>(p, f). to_change (by_path from) p f) (by_path to))"
  let ?old = "concat (map (\<lambda>(p, f). from_change (by_path to) p f) (by_path from))"
  have "distinct (map ch_path ?new)"
    by (rule loop_distinct [OF to_change_path _ by_path_distinct])
      (auto simp: to_change_def split: option.splits)
  moreover have "distinct (map ch_path ?old)"
    by (rule loop_distinct [OF from_change_path _ by_path_distinct]) (auto simp: from_change_def)
  moreover have "ch_path c \<noteq> ch_path d" if new: "c \<in> set ?new" and old: "d \<in> set ?old" for c d
  proof -
    obtain p f where c: "entry_at to p = Some f" "c \<in> set (to_change (by_path from) p f)"
      using new in_loop [of c "to_change (by_path from)" to] by blast
    obtain q g where d: "d \<in> set (from_change (by_path to) q g)"
      using old in_loop [of d "from_change (by_path to)" "from"] by blast
    then have "entry_at to q = None" by (auto simp: from_change_def by_path_entry split: if_splits)
    then show ?thesis using c(1) to_change_path [OF c(2)] from_change_path [OF d] by auto
  qed
  then have "ch_path ` set ?new \<inter> ch_path ` set ?old = {}" by blast
  ultimately have "distinct (map ch_path (?new @ ?old))"
    by (simp only: map_append distinct_append set_map simp_thms)
  then show ?thesis by (simp only: diff_files_def Let_def distinct_map distinct_sort set_sort)
qed

text \<open>C28: Diff reports exactly the paths that only one of the two states has and those whose entries
  differ in size, mode, link target or blocks, each once and in increasing order, with its kind and
  the change of its size. The kind of an entry is not compared (\<open>diff_ignores_kind\<close>).\<close>

theorem diff_exact:
  "sorted_wrt (<) (map ch_path (diff_files from to)) \<and>
   (\<forall>c. c \<in> set (diff_files from to) \<longleftrightarrow> change_at from to (ch_path c) = Some c)"
proof
  have "sorted (map ch_path (diff_files from to))" by (simp add: diff_files_def Let_def)
  then show "sorted_wrt (<) (map ch_path (diff_files from to))"
    using diff_paths_distinct by (simp add: strict_sorted_iff)
qed (simp add: set_diff)

text \<open>Diff does not look at the kind of an entry: a file that became a FIFO (or the other way
  round), with nothing else changed, is not reported.\<close>

theorem diff_ignores_kind: "diff_files [f] [f\<lparr>fe_kind := k\<rparr>] = []"
  by (simp add: diff_files_def to_change_def from_change_def by_path_def same_file_entry_def)

end
