(* ===== verification/ServiceProps.thy ===== *)
theory ServiceProps
  imports FileService
begin

text \<open>
  Properties of all the repository handlers: the sandbox is checked first, and the progress
  streams report every line.
\<close>

section \<open>The sandbox comes first\<close>

text \<open>
  The contract of a handler with a client-supplied path: when the guard refuses the path, it
  returns that refusal and leaves the host and the stream alone. \<open>run\<close> is the handler as a
  function of the guard, the host and the path, \<open>refuse\<close> a result that is only the error.
\<close>

locale gated =
  fixes texts :: "gerror \<Rightarrow> string"
    and run :: "path_guard \<Rightarrow> os \<Rightarrow> string \<Rightarrow> 'r"
    and refuse :: "gerror \<Rightarrow> os \<Rightarrow> 'r"
  assumes gate: "p \<noteq> '''' \<Longrightarrow> check_path texts g s p = Inl e \<Longrightarrow> run g s p = refuse e s"
begin

lemma refuses: "check g s p = Inl e \<Longrightarrow> run g s p = refuse (map_error texts e) s"
  by (rule gate) (auto simp: check_path_def check_def split: if_splits)

lemma refuses_escape:
  "check g s p = Inl PathEscape \<Longrightarrow>
     run g s p = refuse (StatusErr PermissionDenied ''path escapes allowed root'') s"
  by (simp add: refuses map_error_def)

end

interpretation init_gate: gated "sv_text pk" "\<lambda>g s p. init_repository pk g p n s" "\<lambda>e s. (Inl e, s)" for pk n
  by unfold_locales (simp add: init_repository_def)

interpretation commit_gate: gated "sv_text pk" "\<lambda>g s p. commit_unary pk g p m b s" "\<lambda>e s. (Inl e, s)" for pk m b
  by unfold_locales (simp add: commit_unary_def)

interpretation commit_stream_gate: gated "sv_text pk" "\<lambda>g s p. commit_stream pk g p m b st s"
    "\<lambda>e s. (Inl e, st, s)" for pk m b st
  by unfold_locales (simp add: commit_stream_def)

interpretation restore_gate: gated "sv_text pk" "\<lambda>g s p. restore_unary pk g p (c # state) d cl rs s"
    "\<lambda>e s. (Inl e, s)" for pk c state d cl rs
  by unfold_locales (simp add: restore_unary_def restore_paths_def)

interpretation restore_stream_gate: gated "sv_text pk" "\<lambda>g s p. restore_stream pk g p (c # state) d cl rs st s"
    "\<lambda>e s. (Inl e, st, s)" for pk c state d cl rs st
  by unfold_locales (simp add: restore_stream_def restore_paths_def)

interpretation list_commits_gate: gated "sv_text pk" "\<lambda>g s p. list_commits pk g s p n tok" "\<lambda>e s. Inl e" for pk n tok
  by unfold_locales (simp add: list_commits_def)

interpretation get_commit_gate: gated "sv_text pk" "\<lambda>g s p. get_commit pk g s p (c # state)" "\<lambda>e s. Inl e"
    for pk c state
  by unfold_locales (simp add: get_commit_def)

interpretation list_files_gate: gated "sv_text pk" "\<lambda>g s p. list_files pk g s p sel" "\<lambda>e s. Inl e" for pk sel
  by unfold_locales (simp add: list_files_def)

interpretation get_file_gate: gated "sv_text pk" "\<lambda>g s p. get_file pk g s p sel (c # f) n st"
    "\<lambda>e s. (Inl e, st)" for pk sel c f n st
  by unfold_locales (simp add: get_file_def)

interpretation diff_gate: gated "sv_text pk" "\<lambda>g s p. diff pk g s p (a # f) (b # t)" "\<lambda>e s. Inl e" for pk a f b t
  by unfold_locales (simp add: diff_def)

text \<open>C24: no handler does anything with a repository path outside the root: each returns
  PermissionDenied with a text that names no path, before it calls the repository package, sends on
  its stream or touches the host. (A restore also refuses a destination outside the root.)\<close>

theorem handlers_refuse_escape:
  assumes "check g s p = Inl PathEscape" and "state \<noteq> ''''" and "state' \<noteq> ''''"
    and "denied = StatusErr PermissionDenied ''path escapes allowed root''"
  shows "init_repository pk g p n s = (Inl denied, s) \<and>
    commit_unary pk g p m b s = (Inl denied, s) \<and>
    commit_stream pk g p m b pst s = (Inl denied, pst, s) \<and>
    restore_unary pk g p state d cl rs s = (Inl denied, s) \<and>
    restore_stream pk g p state d cl rs pst s = (Inl denied, pst, s) \<and>
    list_commits pk g s p i tok = Inl denied \<and>
    get_commit pk g s p state = Inl denied \<and>
    list_files pk g s p sel = Inl denied \<and>
    get_file pk g s p sel state i fst' = (Inl denied, fst') \<and>
    diff pk g s p state state' = Inl denied \<and>
    (\<forall>q root. check g s q = Inr root \<and> q \<noteq> '''' \<longrightarrow>
       restore_unary pk g q state p cl rs s = (Inl denied, s) \<and>
       restore_stream pk g q state p cl rs pst s = (Inl denied, pst, s))"
proof -
  obtain c t where st: "state = c # t" using assms(2) by (cases state) auto
  obtain c' t' where st': "state' = c' # t'" using assms(3) by (cases state') auto
  have p: "p \<noteq> ''''" using assms(1) by (auto simp: check_def)
  have "restore_paths pk g s q state p = Inl denied" if "check g s q = Inr root" "q \<noteq> ''''" for q root
    using that assms p by (simp add: restore_paths_def check_path_def map_error_def)
  then show ?thesis
    unfolding st st' assms(4)
    using init_gate.refuses_escape [OF assms(1)] commit_gate.refuses_escape [OF assms(1)]
      commit_stream_gate.refuses_escape [OF assms(1)] restore_gate.refuses_escape [OF assms(1)]
      restore_stream_gate.refuses_escape [OF assms(1)] list_commits_gate.refuses_escape [OF assms(1)]
      get_commit_gate.refuses_escape [OF assms(1)] list_files_gate.refuses_escape [OF assms(1)]
      get_file_gate.refuses_escape [OF assms(1)] diff_gate.refuses_escape [OF assms(1)]
    by (auto simp: restore_unary_def restore_stream_def)
qed

theorem handlers_refuse_escape_witness:
  "diff demo_svc box_guard guard_os ''/boxer'' ''a'' ''b'' =
     Inl (StatusErr PermissionDenied ''path escapes allowed root'')"
proof -
  have "check box_guard guard_os ''/boxer'' = Inl PathEscape" by code_simp
  from handlers_refuse_escape [OF this, of "''a''" "''b''"] show ?thesis by simp
qed

section \<open>Progress\<close>

lemma send_lines_sent:
  "0 \<le> n \<Longrightarrow> n + int (length ls) < 2 ^ 63 \<Longrightarrow>
   st_sent (send_lines phase pre n ls st) = st_sent st @
     map (\<lambda>(i, l). no_progress\<lparr>pg_phase := phase, pg_current := n + 1 + int i, pg_message := trim_prefix pre l\<rparr>)
       (zip [0..<length ls] ls) \<and>
   st_fails (send_lines phase pre n ls st) = st_fails st"
proof (induction ls arbitrary: n st)
  case (Cons l ls)
  have i: "i64 (n + 1) = n + 1" using Cons.prems by (intro i64_nat_id) auto
  have z: "zip [0..<length (l # ls)] (l # ls) = (0, l) # map (\<lambda>(i, x). (Suc i, x)) (zip [0..<length ls] ls)"
    by (simp add: upt_conv_Cons zip_map1 flip: map_Suc_upt del: upt_Suc)
  show ?case
    using Cons.IH [of "n + 1"] Cons.prems unfolding z
    by (simp add: i send_def case_prod_beta' comp_def algebra_simps)
qed simp

text \<open>C35: CommitStream reports a start, then every line the package wrote as one message, numbered from
  one and however the package cut its output into writes, then, when the commit succeeded, its
  result; errors of the stream in between do not stop the commit or its reports.\<close>

theorem commit_stream_reports:
  assumes "path \<noteq> ''''" and "check g s path = Inr root"
    and "sv_commit pk root message allow_empty s = (cr, s1, chunks)"
    and "lw_write [] (concat chunks) = (ls, rest)" and "int (length ls) < 2 ^ 63"
    and "st_fails st (length (st_sent st)) = None"
    and "commit_stream pk g path message allow_empty st s = (r, st', s')"
  shows "s' = s1 \<and>
    st_sent st' = st_sent st @ [no_progress\<lparr>pg_phase := ''hashing'', pg_message := ''starting commit''\<rparr>] @
      map (\<lambda>(i, l). no_progress\<lparr>pg_phase := ''hashing'', pg_current := 1 + int i,
        pg_message := trim_prefix ''hashing: '' l\<rparr>) (zip [0..<length ls] ls) @
      (case cr of Inl _ \<Rightarrow> []
       | Inr res \<Rightarrow> [no_progress\<lparr>pg_phase := ''done'', pg_done := True,
           pg_commit := Some (commit_response (sv_repo pk s1) root res message)\<rparr>])"
proof -
  have ls: "fst (lw_writes [] chunks) = ls"
    using lw_writes_drain [of "[]" chunks] assms(4) by (simp add: lw_write_def)
  show ?thesis
    using assms(1-3,6,7) send_lines_sent [of 0 ls] assms(5)
    by (cases cr) (auto simp: commit_stream_def check_path_def Let_def ls send_def split: prod.splits)
qed

definition commit_svc :: svc_pkg where
  "commit_svc = demo_svc\<lparr>sv_commit := \<lambda>_ _ _ s. (Inr \<lparr>cr_state_id = ''s2'', cr_created_at = 0,
     cr_file_count = 2, cr_created = True\<rparr>, s, [''hashing: a'', [newline], ''hashing: b'' @ [newline]])\<rparr>"

definition progress_stream :: "progress stream" where
  "progress_stream = \<lparr>st_sent = [], st_fails = (\<lambda>_. None), st_ctx_err = (\<lambda>_. None)\<rparr>"

theorem commit_stream_reports_witness:
  "map pg_message (st_sent (fst (snd (commit_stream commit_svc box_guard ''/box/r'' ''m'' False progress_stream guard_os))))
     = [''starting commit'', ''a'', ''b'', '''']"
proof -
  have c: "check box_guard guard_os ''/box/r'' = Inr ''/box/r''" by code_simp
  have l: "lw_write [] (concat [''hashing: a'', [newline], ''hashing: b'' @ [newline]]) = ([''hashing: a'', ''hashing: b''], [])"
    by code_simp
  obtain r st' s' where run: "commit_stream commit_svc box_guard ''/box/r'' ''m'' False progress_stream guard_os = (r, st', s')"
    by (metis prod_cases3)
  from commit_stream_reports [OF _ c _ l _ _ run] run show ?thesis
    by (simp add: commit_svc_def progress_stream_def no_progress_def trim_prefix_def)
qed

end
