(* ===== verification/DiffUpper.thy ===== *)
theory DiffUpper
  imports FileService
begin

text \<open>
  What a mount changed (manager.go: \<open>DiffMount\<close>, \<open>diffUpperDir\<close>, \<open>entryUnchanged\<close>,
  \<open>sameContent\<close>): a walk over the upper directory of a mount that reports its whiteouts and its
  files that differ from the lower tree, and can delete the files that do not.

  The recursion of \<open>diffUpperDir\<close> is over directories of the host, so the walk has fuel:
  \<open>None\<close> says that it ran out. \<open>diff_mount\<close> starts with one more than the depth of the host's
  tree, and \<open>diff_upper_total\<close> shows that this is enough for every well-formed tree.
\<close>

section \<open>Comparing a file with the lower tree\<close>

text \<open>\<open>info.Size()\<close> of what \<open>Lstat\<close> found.\<close>

definition info_size :: "unode \<Rightarrow> int" where
  "info_size n =
     (case u_body n of BReg d \<Rightarrow> int (length d) | BLink target \<Rightarrow> int (length target) | _ \<Rightarrow> 0)"

text \<open>\<open>io.ReadFull\<close> for \<open>k > 0\<close> bytes from a file opened at \<open>q\<close> of which \<open>off\<close> bytes were read.\<close>

definition read_full :: "path \<Rightarrow> nat \<Rightarrow> nat \<Rightarrow> os \<Rightarrow> gerror + bytes" where
  "read_full q off k s =
     (case look s q of
        None \<Rightarrow> Inl (Errno EBADF)
      | Some n \<Rightarrow>
          (case u_body n of
             BReg d \<Rightarrow>
               (let got = take k (drop off d) in
                if length got = k then Inr got
                else if got = [] then Inl (Msg ''EOF'') else Inl UnexpectedEOF)
           | BDir \<Rightarrow> Inl (Errno EISDIR)
           | _ \<Rightarrow> Inl (Errno EINVAL)))"

text \<open>The loop of \<open>sameContent\<close> from offset \<open>off\<close> on, a mebibyte at a time.\<close>

function same_loop :: "fs_tree \<Rightarrow> file_node \<Rightarrow> path \<Rightarrow> os \<Rightarrow> int \<Rightarrow> gerror + bool" where
  "same_loop t n q s off =
     (if off \<ge> n_size n then Inr True
      else (case read_at t n off (if n_size n - off < 0x100000 then n_size n - off else 0x100000) of
              Inl e \<Rightarrow> Inl e
            | Inr lower \<Rightarrow>
                if lower = [] then Inr False
                else (case read_full q (nat off) (length lower) s of
                        Inl e \<Rightarrow> Inl e
                      | Inr got \<Rightarrow>
                          if got \<noteq> lower then Inr False
                          else same_loop t n q s (off + int (length lower)))))"
  by pat_completeness auto
termination
  by (relation "measure (\<lambda>(t, n, q, s, off). nat (n_size n - off))") auto

declare same_loop.simps [simp del]

definition same_content :: "fs_tree \<Rightarrow> string \<Rightarrow> file_node \<Rightarrow> os \<Rightarrow> (gerror + bool) \<times> os" where
  "same_content t upper_file n s =
     (case os_open_file upper_file O_RDONLY 0 s of
        (Inl e, s') \<Rightarrow> (Inl (Errno e), s')
      | (Inr f, s') \<Rightarrow> (same_loop t n f s' 0, snd (os_close f s')))"

definition entry_unchanged ::
    "fs_tree \<Rightarrow> string \<Rightarrow> string \<Rightarrow> unode \<Rightarrow> file_node option \<Rightarrow> os \<Rightarrow> (gerror + bool) \<times> os" where
  "entry_unchanged t upper_root rel info lower s =
     (case lower of
        None \<Rightarrow> (Inr False, s)
      | Some n \<Rightarrow>
          if n_is_dir n then (Inr False, s)
          else if is_link (u_body info) \<or> n_link n \<noteq> '''' then
            (if \<not> is_link (u_body info) \<or> n_link n = '''' then (Inr False, s)
             else (case os_readlink s (path_join [upper_root, rel]) of
                     Inl e \<Rightarrow> (Inl (Errno e), s)
                   | Inr target \<Rightarrow> (Inr (target = n_link n), s)))
          else if (case u_body info of BReg _ \<Rightarrow> False | _ \<Rightarrow> True) then (Inr False, s)
          else if info_size info \<noteq> n_size n \<or> go_perm (u_mode info) \<noteq> n_mode n then (Inr False, s)
          else same_content t (path_join [upper_root, rel]) n s)"

section \<open>The walk\<close>

type_synonym walk = "(gerror + file_change list) option \<times> os"

text \<open>One round of the loop over the entries of \<open>rel\<close>; \<open>rec\<close> is the call for a directory.\<close>

definition diff_entry ::
    "(string \<Rightarrow> os \<Rightarrow> walk) \<Rightarrow> fs_tree \<Rightarrow> string \<Rightarrow> bool \<Rightarrow> string \<Rightarrow> string \<Rightarrow> os \<Rightarrow> walk" where
  "diff_entry rec t upper_root prune rel name s =
     (if prefix whiteout_prefix name then
        (let real = join_rel rel (trim_prefix whiteout_prefix name);
             delta = (case lookup_tree_path t real of Some n \<Rightarrow> i64 (- n_size n) | None \<Rightarrow> 0) in
         (Some (Inr [\<lparr>ch_path = real, ch_kind = Removed, ch_delta = delta\<rparr>]), s))
      else
        (let child = join_rel rel name; file = path_join [upper_root, child] in
         case os_lstat s file of
           Inl e \<Rightarrow> (Some (Inl (Errno e)), s)
         | Inr info \<Rightarrow>
             if u_body info = BDir then
               (case rec child s of
                  (Some (Inr out), s1) \<Rightarrow>
                    if \<not> prune then (Some (Inr out), s1)
                    else (case os_readdir s1 file of
                            Inl e \<Rightarrow> (Some (Inl (Errno e)), s1)
                          | Inr children \<Rightarrow>
                              if children \<noteq> [] then (Some (Inr out), s1)
                              else (case os_remove file s1 of
                                      (Inl e, s2) \<Rightarrow> (Some (Inl (Errno e)), s2)
                                    | (Inr _, s2) \<Rightarrow> (Some (Inr out), s2)))
                | (r, s1) \<Rightarrow> (r, s1))
             else
               (let lower = lookup_tree_path t child in
                case entry_unchanged t upper_root child info lower s of
                  (Inl e, s1) \<Rightarrow> (Some (Inl e), s1)
                | (Inr unchanged, s1) \<Rightarrow>
                    if unchanged then
                      (if \<not> prune then (Some (Inr []), s1)
                       else (case os_remove file s1 of
                               (Inl e, s2) \<Rightarrow> (Some (Inl (Errno e)), s2)
                             | (Inr _, s2) \<Rightarrow> (Some (Inr []), s2)))
                    else (case lower of
                            None \<Rightarrow>
                              (Some (Inr [\<lparr>ch_path = child, ch_kind = Added, ch_delta = info_size info\<rparr>]), s1)
                          | Some n \<Rightarrow>
                              (Some (Inr [\<lparr>ch_path = child, ch_kind = Modified,
                                 ch_delta = i64 (info_size info - n_size n)\<rparr>]), s1)))))"

fun diff_entries :: "(string \<Rightarrow> os \<Rightarrow> walk) \<Rightarrow> string list \<Rightarrow> os \<Rightarrow> walk" where
  "diff_entries f [] s = (Some (Inr []), s)"
| "diff_entries f (name # names) s =
     (case f name s of
        (Some (Inr out), s1) \<Rightarrow>
          (case diff_entries f names s1 of
             (Some (Inr out2), s2) \<Rightarrow> (Some (Inr (out @ out2)), s2)
           | (r, s2) \<Rightarrow> (r, s2))
      | (r, s1) \<Rightarrow> (r, s1))"

primrec diff_upper :: "nat \<Rightarrow> fs_tree \<Rightarrow> string \<Rightarrow> bool \<Rightarrow> string \<Rightarrow> os \<Rightarrow> walk" where
  "diff_upper 0 t upper_root prune rel s = (None, s)"
| "diff_upper (Suc fuel) t upper_root prune rel s =
     (case os_readdir s (path_join [upper_root, rel]) of
        Inl e \<Rightarrow> (Some (Inl (Errno e)), s)
      | Inr names \<Rightarrow>
          diff_entries (diff_entry (diff_upper fuel t upper_root prune) t upper_root prune rel) names s)"

definition tree_depth :: "os \<Rightarrow> nat" where
  "tree_depth s = fold max (map (length \<circ> fst) (os_nodes s)) 0"

definition diff_mount ::
    "mount_pkg \<Rightarrow> string \<Rightarrow> bool \<Rightarrow> manager \<Rightarrow> os \<Rightarrow> (gerror + file_change list) option \<times> os" where
  "diff_mount pk i prune mgr s =
     (if i = '''' then (Some (Inl (invalid ''mount_id is required'')), s)
      else (case mount_view i mgr of
              Inl e \<Rightarrow> (Some (Inl e), s)
            | Inr (tree, upper) \<Rightarrow>
                if upper = '''' then (Some (Inr []), s)
                else (case diff_upper (Suc (tree_depth s)) tree upper prune '''' s of
                        (None, s') \<Rightarrow> (None, s')
                      | (Some (Inl e), s') \<Rightarrow>
                          (Some (Inl (StatusErr Internal (''diff mount: '' @ etext pk e))), s')
                      | (Some (Inr changes), s') \<Rightarrow> (Some (Inr (sort_key ch_path changes)), s'))))"

section \<open>What the comparison finds\<close>

text \<open>The files of the lower tree can be read, with the bytes \<open>content p\<close> at the path \<open>p\<close>.\<close>

definition lower_readable :: "fs_tree \<Rightarrow> (string \<Rightarrow> bytes) \<Rightarrow> bool" where
  "lower_readable t content \<longleftrightarrow>
     (\<forall>p n. lookup_tree_path t p = Some n \<longrightarrow> \<not> n_is_dir n \<longrightarrow> n_link n = '''' \<longrightarrow>
        range_readable t n (content p))"

text \<open>The node \<open>u\<close> of the upper directory is what the lower tree has at \<open>p\<close>: a link with the same
  target, or a file with the same permissions and bytes.\<close>

definition unchanged_node :: "fs_tree \<Rightarrow> (string \<Rightarrow> bytes) \<Rightarrow> string \<Rightarrow> unode \<Rightarrow> bool" where
  "unchanged_node t content p u =
     (case lookup_tree_path t p of
        None \<Rightarrow> False
      | Some n \<Rightarrow>
          \<not> n_is_dir n \<and>
          (case u_body u of
             BLink target \<Rightarrow> n_link n \<noteq> '''' \<and> target = n_link n
           | BReg d \<Rightarrow> n_link n = '''' \<and> go_perm (u_mode u) = n_mode n \<and> d = content p
           | _ \<Rightarrow> False))"

lemma drop_split: "k \<le> length xs - i \<Longrightarrow> drop i xs = take k (drop i xs) @ drop (i + k) xs"
  by (metis append_take_drop_id add.commute drop_drop)

lemma same_loop_spec:
  assumes rd: "range_readable t n content" and u: "look s q = Some u" "u_body u = BReg d"
    and len: "length d = length content"
  shows "0 \<le> off \<Longrightarrow> off \<le> n_size n \<Longrightarrow>
    same_loop t n q s off = Inr (drop (nat off) d = drop (nat off) content)"
proof (induction "nat (n_size n - off)" arbitrary: off rule: less_induct)
  case less
  have size: "n_size n = int (length content)" using rd by (simp add: range_readable_def)
  show ?case
  proof (cases "off \<ge> n_size n")
    case True
    then show ?thesis using size len by (simp add: same_loop.simps)
  next
    case False
    define k where "k = (if n_size n - off < 0x100000 then n_size n - off else 0x100000)"
    define lower where "lower = take (nat k) (drop (nat off) content)"
    have k: "0 < k" "off + k \<le> int (length content)" using False size by (auto simp: k_def)
    then have read: "read_at t n off k = Inr lower"
      using rd less.prems(1) unfolding range_readable_def lower_def by blast
    have l: "length lower = nat k" using k less.prems(1) by (simp add: lower_def)
    then have ne: "lower \<noteq> []" using k by auto
    have full: "read_full q (nat off) (length lower) s = Inr (take (nat k) (drop (nat off) d))"
      using k less.prems(1) len by (simp add: read_full_def u l)
    have nxt: "nat (off + int (length lower)) = nat off + nat k" using l less.prems(1) k by (simp add: nat_add_distrib)
    have rest: "same_loop t n q s (off + int (length lower)) =
        Inr (drop (nat off + nat k) d = drop (nat off + nat k) content)"
      unfolding nxt [symmetric] using k l less.prems(1) size by (intro less.hyps) auto
    have "nat k \<le> length d - nat off" "nat k \<le> length content - nat off" using k len less.prems(1) by linarith+
    then have sp: "drop (nat off) d = take (nat k) (drop (nat off) d) @ drop (nat off + nat k) d"
      "drop (nat off) content = lower @ drop (nat off + nat k) content"
      unfolding lower_def by (blast intro: drop_split)+
    have "same_loop t n q s off = (if take (nat k) (drop (nat off) d) \<noteq> lower then Inr False
        else same_loop t n q s (off + int (length lower)))"
      using False read ne full by (simp add: same_loop.simps [of t n q s off] k_def)
    also have "\<dots> = Inr (take (nat k) (drop (nat off) d) = lower \<and>
        drop (nat off + nat k) d = drop (nat off + nat k) content)" unfolding rest by simp
    also have "\<dots> = Inr (drop (nat off) d = drop (nat off) content)"
      using l k len less.prems(1)
      by (subst sp(1), subst sp(2), subst append_eq_append_conv) simp_all
    finally show ?thesis .
  qed
qed

lemma open_read_spec:
  assumes "wf_os s" and "look s (q @ [c]) = Some u" and "u_body u = BReg d"
    and "os_open_file (abs_of (q @ [c])) O_RDONLY m s = (r, s')"
  shows "look s' = look s \<and> same_host s s' \<and> wf_os s' \<and> (quiet s \<longrightarrow> isl r = False) \<and>
    (\<forall>f. r = Inr f \<longrightarrow> f = q @ [c])"
  using assms(4) [unfolded os_open_file_def sys_open_def]
proof (cases rule: faulty_cases)
  case (injected e fs)
  then show ?thesis using assms(1) by simp
next
  case (run fs)
  let ?t = "s\<lparr>os_faults := fs\<rparr>"
  have p: "is_dir_at s q" "valid_name c" using wf_parent [OF assms(1), of q c] assms(2) by simp_all
  have "walk_path ?t f (abs_of (q @ [c])) = Inr (q @ [c])" for f
    using assms(1-3) p by (intro walk_follow_in_dir) (simp_all add: is_link_at_def)
  then show ?thesis
    using run assms(1-3)
    by (auto simp: sys_open_at_def has_flag_def O_RDONLY_def O_CREAT_def O_TRUNC_def O_ACCMODE_def)
qed

lemma close_keeps_host: "os_close q s = (r, s') \<Longrightarrow> look s' = look s \<and> same_host s s' \<and> wf_os s' = wf_os s"
  unfolding os_close_def by (cases rule: faulty_cases) auto

lemma same_content_spec:
  assumes "wf_os s" and "look s (q @ [c]) = Some u" and "u_body u = BReg d"
    and "same_content t (abs_of (q @ [c])) n s = (r, s')"
  shows "look s' = look s \<and> same_host s s' \<and> wf_os s' \<and>
    (range_readable t n content \<longrightarrow> length d = length content \<longrightarrow>
       (quiet s \<longrightarrow> isl r = False) \<and> (\<forall>b. r = Inr b \<longrightarrow> b = (d = content)))"
proof -
  obtain r1 s1 where o: "os_open_file (abs_of (q @ [c])) O_RDONLY 0 s = (r1, s1)" by force
  note s1 = open_read_spec [OF assms(1-3) o]
  show ?thesis
  proof (cases r1)
    case (Inl e)
    then have "r = Inl (Errno e)" "s' = s1" using assms(4) o by (simp_all add: same_content_def)
    then show ?thesis using s1 Inl by auto
  next
    case (Inr f)
    obtain r2 s2 where c: "os_close f s1 = (r2, s2)" by force
    have r: "r = same_loop t n f s1 0" "s' = s2" using assms(4) o Inr c by (simp_all add: same_content_def)
    have "r = Inr (d = content)" if rd: "range_readable t n content" and len: "length d = length content"
    proof -
      have "look s1 f = Some u" using s1 Inr assms(2) by simp
      then show ?thesis
        using same_loop_spec [OF rd _ assms(3) len, of s1 f 0] rd r(1) by (simp add: range_readable_def)
    qed
    then show ?thesis using close_keeps_host [OF c] s1 r(2) same_host_trans by auto
  qed
qed

lemma readlink_plain:
  assumes "wf_os s" and "look s q = Some u" and "u_body u = BLink target"
  shows "os_readlink s (abs_of q) = Inr target"
  using walk_known_lstat [OF assms(1), of q] assms(2,3) by (simp add: os_readlink_def node_at_def)

lemma entry_unchanged_spec:
  assumes wf: "wf_os s" and u: "look s (U @ q @ [c]) = Some u"
    and v: "valid_path U"
    and run: "entry_unchanged t (abs_of U) (of_comps (q @ [c])) u (lookup_tree_path t (of_comps (q @ [c]))) s = (r, s')"
  shows "look s' = look s \<and> same_host s s' \<and> wf_os s' \<and>
    (lower_readable t content \<longrightarrow> (quiet s \<longrightarrow> isl r = False) \<and>
       (\<forall>b. r = Inr b \<longrightarrow> b = unchanged_node t content (of_comps (q @ [c])) u))"
proof -
  let ?p = "of_comps (q @ [c])"
  have vq: "valid_path (q @ [c])" using wf_valid [OF wf, of "U @ q @ [c]"] u by simp
  have pj: "path_join [abs_of U, ?p] = abs_of ((U @ q) @ [c])"
    using path_join_abs_of [of U "q @ [c]"] v vq by simp
  have u': "look s ((U @ q) @ [c]) = Some u" using u by simp
  show ?thesis
  proof (cases "\<exists>n d. lookup_tree_path t ?p = Some n \<and> \<not> n_is_dir n \<and> u_body u = BReg d \<and> n_link n = '''' \<and>
      info_size u = n_size n \<and> go_perm (u_mode u) = n_mode n")
    case True
    then obtain n d where n: "lookup_tree_path t ?p = Some n" "\<not> n_is_dir n" "u_body u = BReg d" "n_link n = ''''"
      "info_size u = n_size n" "go_perm (u_mode u) = n_mode n" by blast
    then have sc: "same_content t (abs_of ((U @ q) @ [c])) n s = (r, s')"
      using run by (simp add: entry_unchanged_def pj)
    have "range_readable t n (content ?p)" if "lower_readable t content"
      using that n by (simp add: lower_readable_def)
    moreover from this have "length d = length (content ?p)" if "lower_readable t content"
      using that n(3,5) by (simp add: range_readable_def info_size_def)
    moreover have "unchanged_node t content ?p u \<longleftrightarrow> d = content ?p"
      using n by (simp add: unchanged_node_def)
    ultimately show ?thesis using same_content_spec [OF wf u' n(3) sc, of "content ?p"] by auto
  next
    case False
    then have s': "s' = s" using run by (auto simp: entry_unchanged_def split: option.splits if_splits sum.splits ubody.splits)
    have "r = Inr (unchanged_node t content ?p u)" if rd: "lower_readable t content"
    proof (cases "lookup_tree_path t ?p")
      case None
      then show ?thesis using run by (simp add: entry_unchanged_def unchanged_node_def)
    next
      case (Some n)
      have size: "n_size n = int (length (content ?p))" if "\<not> n_is_dir n" "n_link n = ''''"
        using rd Some that by (simp add: lower_readable_def range_readable_def)
      show ?thesis
      proof (cases "u_body u")
        case (BLink target)
        then have l: "os_readlink s (abs_of ((U @ q) @ [c])) = Inr target" using readlink_plain [OF wf u'] by simp
        show ?thesis
          using run [unfolded entry_unchanged_def pj l] Some BLink
          by (auto simp: unchanged_node_def split: if_splits)
      next
        case (BReg d)
        then show ?thesis
          using run Some False size
          by (auto simp: entry_unchanged_def unchanged_node_def info_size_def split: if_splits)
      qed (use run Some in \<open>auto simp: entry_unchanged_def unchanged_node_def split: if_splits\<close>)
    qed
    then show ?thesis using s' wf by auto
  qed
qed

section \<open>What the walk reports and deletes\<close>

text \<open>The change that the upper directory \<open>U\<close> holds at \<open>q\<close>: the removal of a lower name by a
  whiteout, or a file or link that is not what the lower tree has. Nothing below a whiteout counts.\<close>

definition change_of ::
    "fs_tree \<Rightarrow> (string \<Rightarrow> bytes) \<Rightarrow> os \<Rightarrow> path \<Rightarrow> path \<Rightarrow> file_change option" where
  "change_of t content s U q =
     (if q = [] \<or> \<not> clean_names (butlast q) then None
      else (case look s (U @ q) of
              None \<Rightarrow> None
            | Some u \<Rightarrow>
                if prefix whiteout_prefix (last q) then
                  (let real = join_rel (of_comps (butlast q)) (trim_prefix whiteout_prefix (last q)) in
                   Some \<lparr>ch_path = real, ch_kind = Removed,
                     ch_delta = (case lookup_tree_path t real of Some n \<Rightarrow> i64 (- n_size n) | None \<Rightarrow> 0)\<rparr>)
                else if u_body u = BDir \<or> unchanged_node t content (of_comps q) u then None
                else (case lookup_tree_path t (of_comps q) of
                        None \<Rightarrow> Some \<lparr>ch_path = of_comps q, ch_kind = Added, ch_delta = info_size u\<rparr>
                      | Some n \<Rightarrow> Some \<lparr>ch_path = of_comps q, ch_kind = Modified,
                          ch_delta = i64 (info_size u - n_size n)\<rparr>)))"

text \<open>Nothing at \<open>q\<close> or below is a change: pruning deletes it.\<close>

definition prunable :: "fs_tree \<Rightarrow> (string \<Rightarrow> bytes) \<Rightarrow> os \<Rightarrow> path \<Rightarrow> path \<Rightarrow> bool" where
  "prunable t content s U q \<longleftrightarrow> clean_names q \<and> (\<forall>p. change_of t content s U (q @ p) = None)"

lemma change_at_node: "change_of t content s U q = Some x \<Longrightarrow> look s (U @ q) \<noteq> None"
  by (auto simp: change_of_def split: option.splits if_splits)

lemma change_of_cong: "look s' (U @ q) = look s (U @ q) \<Longrightarrow> change_of t content s' U q = change_of t content s U q"
  by (simp add: change_of_def)

lemma wh_trim: "prefix whiteout_prefix c \<Longrightarrow> c = whiteout_prefix @ trim_prefix whiteout_prefix c"
  by (auto simp: trim_prefix_def prefix_def)

lemma clean_butlast: "clean_names q \<Longrightarrow> clean_names (butlast q)"
  by (auto simp: clean_names_def dest: in_set_butlastD)

text \<open>The path and the kind of a change say where it was found.\<close>

lemma change_removed:
  assumes "change_of t content s U (q @ [c]) = Some x" and "ch_kind x = Removed"
  shows "prefix whiteout_prefix c \<and> ch_path x = join_rel (of_comps q) (trim_prefix whiteout_prefix c)"
  using assms by (auto simp: change_of_def Let_def split: option.splits if_splits)

lemma change_kept:
  assumes "change_of t content s U q = Some x" and "ch_kind x \<noteq> Removed"
  shows "ch_path x = of_comps q"
  using assms by (auto simp: change_of_def Let_def split: option.splits if_splits)

lemma change_of_inj:
  assumes wf: "wf_os s" and a: "change_of t content s U p = Some x" and b: "change_of t content s U q = Some x"
  shows "p = q"
proof -
  have "p \<noteq> []" "q \<noteq> []" using a b by (auto simp: change_of_def)
  then obtain p' c q' d where p: "p = p' @ [c]" and q: "q = q' @ [d]" by (metis rev_exhaust)
  have v: "valid_path (p' @ [c])" "valid_path (q' @ [d])"
    using wf_valid [OF wf, of "U @ p"] wf_valid [OF wf, of "U @ q"] change_at_node [OF a] change_at_node [OF b]
    unfolding p q by simp_all
  then have ns: "slash \<notin> set c" "slash \<notin> set d" by (simp_all add: valid_name_def)
  have tr: "slash \<notin> set (trim_prefix whiteout_prefix x)" if "slash \<notin> set x" for x
    using that by (auto simp: trim_prefix_def dest: in_set_dropD)
  show ?thesis
  proof (cases "ch_kind x = Removed")
    case True
    note c = change_removed [OF a [unfolded p] True] and d = change_removed [OF b [unfolded q] True]
    have "(of_comps p', trim_prefix whiteout_prefix c) = (of_comps q', trim_prefix whiteout_prefix d)"
      using c d split_join_path [OF tr [OF ns(1)]] split_join_path [OF tr [OF ns(2)]]
      unfolding join_rel_eq by metis
    then have eq: "of_comps p' = of_comps q'" "trim_prefix whiteout_prefix c = trim_prefix whiteout_prefix d"
      by simp_all
    have "c = whiteout_prefix @ trim_prefix whiteout_prefix d"
      unfolding eq(2) [symmetric] by (rule wh_trim [OF conjunct1 [OF c]])
    also have "\<dots> = d" by (rule wh_trim [OF conjunct1 [OF d], symmetric])
    finally have "c = d" .
    then show ?thesis using eq(1) v comps_of_comps unfolding p q by (metis valid_path_simps(3))
  next
    case False
    then have "of_comps p = of_comps q" using change_kept a b by metis
    then show ?thesis using v comps_of_comps unfolding p q by metis
  qed
qed

section \<open>The walk\<close>

text \<open>
  What a walk over the names \<open>N\<close> of the directory \<open>q\<close> did: it ended, it only deleted, only when
  pruning and only below those names; and when it succeeded it reported exactly their changes, each
  once, and deleted exactly what holds none.
\<close>

definition walked ::
    "fs_tree \<Rightarrow> (string \<Rightarrow> bytes) \<Rightarrow> path \<Rightarrow> bool \<Rightarrow> path \<Rightarrow> string set \<Rightarrow> os \<Rightarrow>
     (gerror + file_change list) option \<Rightarrow> os \<Rightarrow> bool" where
  "walked t content U prune q N s r s' \<longleftrightarrow>
     wf_os s' \<and> same_host s s' \<and> r \<noteq> None \<and>
     (\<forall>k. look s' k = look s k \<or> (prune \<and> look s' k = None \<and> (\<exists>c \<in> N. prefix (U @ q @ [c]) k))) \<and>
     (lower_readable t content \<longrightarrow>
        (quiet s \<longrightarrow> (\<exists>out. r = Some (Inr out))) \<and>
        (\<forall>out. r = Some (Inr out) \<longrightarrow>
           distinct out \<and>
           (\<forall>x. x \<in> set out \<longleftrightarrow> (\<exists>c \<in> N. \<exists>p. change_of t content s U (q @ c # p) = Some x)) \<and>
           (\<forall>k. look s' k =
              (if prune \<and> (\<exists>c \<in> N. \<exists>p. k = U @ q @ c # p \<and> prunable t content s U (q @ c # p))
               then None else look s k))))"

lemma walkedD:
  assumes "walked t content U prune q N s r s'"
  shows walked_wf: "wf_os s'" and walked_host: "same_host s s'" and walked_some: "r \<noteq> None"
    and walked_frame: "look s' k = look s k \<or> (prune \<and> look s' k = None \<and> (\<exists>c \<in> N. prefix (U @ q @ [c]) k))"
    and walked_ok: "lower_readable t content \<Longrightarrow> quiet s \<Longrightarrow> \<exists>out. r = Some (Inr out)"
    and walked_distinct: "lower_readable t content \<Longrightarrow> r = Some (Inr out) \<Longrightarrow> distinct out"
    and walked_out: "lower_readable t content \<Longrightarrow> r = Some (Inr out) \<Longrightarrow>
      x \<in> set out \<longleftrightarrow> (\<exists>c \<in> N. \<exists>p. change_of t content s U (q @ c # p) = Some x)"
    and walked_look: "lower_readable t content \<Longrightarrow> r = Some (Inr out) \<Longrightarrow> look s' k =
      (if prune \<and> (\<exists>c \<in> N. \<exists>p. k = U @ q @ c # p \<and> prunable t content s U (q @ c # p))
       then None else look s k)"
  using assms unfolding walked_def by blast+

lemma walkedI:
  assumes "wf_os s'" "same_host s s'" "r \<noteq> None"
    and "\<And>k. look s' k = look s k \<or> (prune \<and> look s' k = None \<and> (\<exists>c \<in> N. prefix (U @ q @ [c]) k))"
    and "lower_readable t content \<Longrightarrow> quiet s \<Longrightarrow> \<exists>out. r = Some (Inr out)"
    and "\<And>out. lower_readable t content \<Longrightarrow> r = Some (Inr out) \<Longrightarrow> distinct out"
    and "\<And>out x. lower_readable t content \<Longrightarrow> r = Some (Inr out) \<Longrightarrow>
      x \<in> set out \<longleftrightarrow> (\<exists>c \<in> N. \<exists>p. change_of t content s U (q @ c # p) = Some x)"
    and "\<And>out k. lower_readable t content \<Longrightarrow> r = Some (Inr out) \<Longrightarrow> look s' k =
      (if prune \<and> (\<exists>c \<in> N. \<exists>p. k = U @ q @ c # p \<and> prunable t content s U (q @ c # p))
       then None else look s k)"
  shows "walked t content U prune q N s r s'"
  unfolding walked_def using assms by blast

text \<open>A walk that failed has only the frame to keep.\<close>

lemma walked_failed:
  assumes "wf_os s'" "same_host s s'" "lower_readable t content \<Longrightarrow> \<not> quiet s"
    and "\<And>k. look s' k = look s k \<or> (prune \<and> look s' k = None \<and> (\<exists>c \<in> N. prefix (U @ q @ [c]) k))"
  shows "walked t content U prune q N s (Some (Inl e)) s'"
  using assms by (intro walkedI) auto

lemma walked_Nil: "wf_os s \<Longrightarrow> walked t content U prune q {} s (Some (Inr [])) s"
  by (simp add: walked_def)

text \<open>A change elsewhere leaves what is at and below a name.\<close>

lemma other_name:
  assumes "walked t content U prune q {c} s r s'" and "d \<noteq> c"
  shows "look s' (U @ q @ d # p) = look s (U @ q @ d # p)"
    and "change_of t content s' U (q @ d # p) = change_of t content s U (q @ d # p)"
    and "prunable t content s' U (q @ d # p) = prunable t content s U (q @ d # p)"
proof -
  have l: "look s' (U @ q @ d # p) = look s (U @ q @ d # p)" for p
    using walked_frame [OF assms(1), of "U @ q @ d # p"] assms(2) by auto
  have ch: "change_of t content s' U (q @ d # p) = change_of t content s U (q @ d # p)" for p
    using l by (intro change_of_cong) simp
  show "look s' (U @ q @ d # p) = look s (U @ q @ d # p)"
    and "change_of t content s' U (q @ d # p) = change_of t content s U (q @ d # p)"
    and "prunable t content s' U (q @ d # p) = prunable t content s U (q @ d # p)"
    by (simp_all add: l ch prunable_def)
qed

lemma walked_Cons:
  assumes wf: "wf_os s" and one: "walked t content U prune q {c} s (Some (Inr out1)) s1"
    and rest: "walked t content U prune q N s1 (Some (Inr out2)) s2" and new: "c \<notin> N"
  shows "walked t content U prune q (insert c N) s (Some (Inr (out1 @ out2))) s2"
proof (rule walkedI)
  show "wf_os s2" "same_host s s2"
    using walked_wf [OF rest] walked_host [OF one] walked_host [OF rest] same_host_trans by blast+
  have other: "d \<noteq> c" if "d \<in> N" for d using that new by blast
  fix k
  show "look s2 k = look s k \<or> prune \<and> look s2 k = None \<and> (\<exists>c\<in>insert c N. prefix (U @ q @ [c]) k)"
    using walked_frame [OF one, of k] walked_frame [OF rest, of k] by auto
  assume rd: "lower_readable t content"
  fix out :: "file_change list" assume "Some (Inr (out1 @ out2)) = (Some (Inr out) :: (gerror + file_change list) option)"
  then have out: "out = out1 @ out2" by simp
  note o1 = walked_out [OF one rd refl] and o2 = walked_out [OF rest rd refl]
  have o2': "x \<in> set out2 \<longleftrightarrow> (\<exists>d \<in> N. \<exists>p. change_of t content s U (q @ d # p) = Some x)" for x
    unfolding o2 using other_name(2) [OF one] other by (metis (no_types, lifting))
  show "x \<in> set out \<longleftrightarrow> (\<exists>d \<in> insert c N. \<exists>p. change_of t content s U (q @ d # p) = Some x)" for x
    unfolding out set_append Un_iff o1 o2' by blast
  have "x \<notin> set out2" if x: "x \<in> set out1" for x
  proof
    assume "x \<in> set out2"
    then obtain d p' where d: "d \<in> N" "change_of t content s U (q @ d # p') = Some x" unfolding o2' by blast
    obtain p where "change_of t content s U (q @ c # p) = Some x" using x unfolding o1 by blast
    from change_of_inj [OF wf this d(2)] other [OF d(1)] show False by simp
  qed
  then show "distinct out"
    unfolding out using walked_distinct [OF one rd refl] walked_distinct [OF rest rd refl] by auto
  have "(\<exists>d \<in> N. \<exists>p. k = U @ q @ d # p \<and> prunable t content s1 U (q @ d # p)) \<longleftrightarrow>
      (\<exists>d \<in> N. \<exists>p. k = U @ q @ d # p \<and> prunable t content s U (q @ d # p))"
    using other_name(3) [OF one] other by (metis (no_types, lifting))
  then show "look s2 k = (if prune \<and> (\<exists>d \<in> insert c N. \<exists>p. k = U @ q @ d # p \<and> prunable t content s U (q @ d # p))
      then None else look s k)"
    unfolding walked_look [OF rest rd refl, of k] walked_look [OF one rd refl, of k] by auto
qed simp_all

definition bounded :: "os \<Rightarrow> nat \<Rightarrow> bool" where
  "bounded s m \<longleftrightarrow> (\<forall>k. look s k \<noteq> None \<longrightarrow> length k \<le> m)"

lemma walked_bounded: "walked t content U prune q N s r s' \<Longrightarrow> bounded s m \<Longrightarrow> bounded s' m"
  unfolding bounded_def using walked_frame by metis

lemma walked_dir: "walked t content U prune q N s r s' \<Longrightarrow> is_dir_at s (U @ q) \<Longrightarrow> is_dir_at s' (U @ q)"
  using walked_frame [of t content U prune q N s r s' "U @ q"] by (auto simp: is_dir_at_def)

lemma walked_one_failed:
  assumes "walked t content U prune q {c} s (Some (Inl e)) s'"
  shows "walked t content U prune q (insert c N) s (Some (Inl e)) s'"
  using walked_wf [OF assms] walked_host [OF assms] walked_ok [OF assms] walked_frame [OF assms]
  by (intro walked_failed) auto

lemma walked_rest_failed:
  assumes one: "walked t content U prune q {c} s (Some (Inr out)) s1"
    and rest: "walked t content U prune q N s1 (Some (Inl e)) s2"
  shows "walked t content U prune q (insert c N) s (Some (Inl e)) s2"
proof (rule walked_failed)
  show "wf_os s2" "same_host s s2"
    using walked_wf [OF rest] walked_host [OF one] walked_host [OF rest] same_host_trans by blast+
  show "\<not> quiet s" if "lower_readable t content"
    using walked_ok [OF rest that] same_host_quiet [OF walked_host [OF one]] by auto
  show "look s2 k = look s k \<or> prune \<and> look s2 k = None \<and> (\<exists>c\<in>insert c N. prefix (U @ q @ [c]) k)" for k
    using walked_frame [OF one, of k] walked_frame [OF rest, of k] by auto
qed

text \<open>The contract of one round of the loop, and the loop.\<close>

definition round :: "fs_tree \<Rightarrow> (string \<Rightarrow> bytes) \<Rightarrow> path \<Rightarrow> bool \<Rightarrow> path \<Rightarrow> nat \<Rightarrow> (string \<Rightarrow> os \<Rightarrow> walk) \<Rightarrow> bool" where
  "round t content U prune q m f \<longleftrightarrow>
     (\<forall>s c. wf_os s \<longrightarrow> bounded s m \<longrightarrow> is_dir_at s (U @ q) \<longrightarrow> look s (U @ q @ [c]) \<noteq> None \<longrightarrow>
        walked t content U prune q {c} s (fst (f c s)) (snd (f c s)))"

lemma diff_entries_walked:
  assumes "round t content U prune q m f"
  shows "wf_os s \<Longrightarrow> bounded s m \<Longrightarrow> is_dir_at s (U @ q) \<Longrightarrow> distinct names \<Longrightarrow>
    \<forall>c \<in> set names. look s (U @ q @ [c]) \<noteq> None \<Longrightarrow> diff_entries f names s = (r, s') \<Longrightarrow>
    walked t content U prune q (set names) s r s'"
proof (induction names arbitrary: s r s')
  case Nil
  then show ?case using walked_Nil [of s t content U prune q] by auto
next
  case (Cons c names)
  obtain r1 s1 where f: "f c s = (r1, s1)" by force
  have one: "walked t content U prune q {c} s r1 s1"
    using assms Cons.prems f unfolding round_def by (metis fst_conv snd_conv list.set_intros(1))
  show ?case
  proof (cases r1)
    case None
    then show ?thesis using walked_some [OF one] by simp
  next
    case (Some x)
    show ?thesis
    proof (cases x)
      case (Inl e)
      then have "r = Some (Inl e)" "s' = s1" using Cons.prems(6) f Some by simp_all
      then show ?thesis using walked_one_failed one Some Inl by auto
    next
      case (Inr out1)
      obtain r2 s2 where g: "diff_entries f names s1 = (r2, s2)" by force
      have left: "\<forall>d \<in> set names. look s1 (U @ q @ [d]) \<noteq> None"
      proof
        fix d assume "d \<in> set names"
        then have "d \<noteq> c" "look s (U @ q @ [d]) \<noteq> None" using Cons.prems(4,5) by auto
        then show "look s1 (U @ q @ [d]) \<noteq> None" using other_name(1) [OF one, of d "[]"] by simp
      qed
      have rest: "walked t content U prune q (set names) s1 r2 s2"
        using Cons.prems(4) left g walked_wf [OF one] walked_bounded [OF one Cons.prems(2)]
          walked_dir [OF one Cons.prems(3)] by (intro Cons.IH) simp_all
      have one': "walked t content U prune q {c} s (Some (Inr out1)) s1" using one Some Inr by simp
      consider e where "r2 = Some (Inl e)" | out2 where "r2 = Some (Inr out2)"
        using walked_some [OF rest] by (cases r2; cases "the r2") auto
      then show ?thesis
      proof cases
        case 1
        then have "r = Some (Inl e)" "s' = s2" using Cons.prems(6) f g Some Inr by simp_all
        then show ?thesis using walked_rest_failed [OF one'] rest 1 by simp
      next
        case 2
        then have "r = Some (Inr (out1 @ out2))" "s' = s2" using Cons.prems(6) f g Some Inr by simp_all
        then show ?thesis using walked_Cons [OF Cons.prems(1) one'] rest 2 Cons.prems(4) by simp
      qed
    qed
  qed
qed

lemma change_snoc:
  "clean_names q \<Longrightarrow> look s (U @ q @ [c]) = Some u \<Longrightarrow>
   change_of t content s U (q @ [c]) =
     (if prefix whiteout_prefix c then
        (let real = join_rel (of_comps q) (trim_prefix whiteout_prefix c) in
         Some \<lparr>ch_path = real, ch_kind = Removed,
           ch_delta = (case lookup_tree_path t real of Some n \<Rightarrow> i64 (- n_size n) | None \<Rightarrow> 0)\<rparr>)
      else if u_body u = BDir \<or> unchanged_node t content (of_comps (q @ [c])) u then None
      else (case lookup_tree_path t (of_comps (q @ [c])) of
              None \<Rightarrow> Some \<lparr>ch_path = of_comps (q @ [c]), ch_kind = Added, ch_delta = info_size u\<rparr>
            | Some n \<Rightarrow> Some \<lparr>ch_path = of_comps (q @ [c]), ch_kind = Modified,
                ch_delta = i64 (info_size u - n_size n)\<rparr>))"
  by (simp add: change_of_def)

lemma change_below:
  assumes "wf_os s" and "look s (U @ q @ [c]) = Some u" and "prefix whiteout_prefix c \<or> u_body u \<noteq> BDir" and "p \<noteq> []"
  shows "change_of t content s U (q @ c # p) = None"
proof (cases "prefix whiteout_prefix c")
  case True
  then have "\<not> clean_names (butlast (q @ c # p))" using assms(4) by (simp add: butlast_append clean_names_def)
  then show ?thesis by (simp add: change_of_def)
next
  case False
  then have "look s ((U @ q @ [c]) @ p) = None"
    using assms by (intro wf_no_entries_below) (simp_all add: is_dir_at_def)
  then show ?thesis by (simp add: change_of_def)
qed

lemma change_below_iff:
  assumes "wf_os s" and "look s (U @ q @ [c]) = Some u" and "prefix whiteout_prefix c \<or> u_body u \<noteq> BDir"
  shows "(\<exists>p. change_of t content s U (q @ c # p) = Some x) \<longleftrightarrow> change_of t content s U (q @ [c]) = Some x"
  using change_below [OF assms, of _ t content] by (metis option.distinct(1))

text \<open>A whiteout is reported and stays.\<close>

lemma walked_whiteout:
  assumes wf: "wf_os s" and u: "look s (U @ q @ [c]) = Some u" and cl: "clean_names q"
    and w: "prefix whiteout_prefix c" and r: "r = Some (Inr [the (change_of t content s U (q @ [c]))])"
  shows "walked t content U prune q {c} s r s"
proof (rule walkedI)
  have ch: "\<exists>x. change_of t content s U (q @ [c]) = Some x"
    using change_snoc [OF cl u, of t content] w by (simp add: Let_def)
  then show "x \<in> set out \<longleftrightarrow> (\<exists>c\<in>{c}. \<exists>p. change_of t content s U (q @ c # p) = Some x)"
    if "r = Some (Inr out)" for out x
    using that r change_below_iff [OF wf u, of t content x] w by auto
  have "\<not> prunable t content s U (q @ c # p)" for p
    using w by (simp add: prunable_def clean_names_def)
  then show "look s k = (if prune \<and> (\<exists>c\<in>{c}. \<exists>p. k = U @ q @ c # p \<and> prunable t content s U (q @ c # p))
      then None else look s k)" for k by simp
qed (use wf r in auto)

text \<open>A file is kept and reported, or unchanged and, when pruning, deleted.\<close>

lemma walked_changed_file:
  assumes wf: "wf_os s" and u: "look s (U @ q @ [c]) = Some u" and cl: "clean_names q"
    and f: "u_body u \<noteq> BDir" "\<not> prefix whiteout_prefix c"
    and s': "look s' = look s" "same_host s s'" "wf_os s'"
    and r: "r = Some (Inr [x])"
    and x: "lower_readable t content \<Longrightarrow> change_of t content s U (q @ [c]) = Some x"
  shows "walked t content U prune q {c} s r s'"
proof (rule walkedI)
  show "y \<in> set out \<longleftrightarrow> (\<exists>c\<in>{c}. \<exists>p. change_of t content s U (q @ c # p) = Some y)"
    if "r = Some (Inr out)" "lower_readable t content" for out y
    using that(1) r x [OF that(2)] change_below_iff [OF wf u, of t content y] f by auto
  show "look s' k = (if prune \<and> (\<exists>c\<in>{c}. \<exists>p. k = U @ q @ c # p \<and> prunable t content s U (q @ c # p))
      then None else look s k)" if rd: "lower_readable t content" for k
  proof (cases "\<exists>p. k = U @ q @ c # p \<and> prunable t content s U (q @ c # p)")
    case True
    then obtain p where p: "k = U @ q @ c # p" "prunable t content s U (q @ c # p)" by blast
    show ?thesis
    proof (cases "p = []")
      case True
      then show ?thesis using p(2) x [OF rd] spec [of _ "[]"] by (auto simp: prunable_def)
    next
      case False
      then have "look s ((U @ q @ [c]) @ p) = None"
        using wf u f by (intro wf_no_entries_below) (simp_all add: is_dir_at_def)
      then show ?thesis using p(1) s'(1) by simp
    qed
  next
    case False
    then show ?thesis using s'(1) by auto
  qed
qed (use wf r s' in auto)

lemma prunable_file:
  assumes "wf_os s" and "look s (U @ q @ [c]) = Some u" and "clean_names (q @ [c])" and "u_body u \<noteq> BDir"
    and "change_of t content s U (q @ [c]) = None"
  shows "prunable t content s U (q @ [c])"
  unfolding prunable_def
proof (intro conjI allI)
  fix p show "change_of t content s U ((q @ [c]) @ p) = None"
    using assms change_below [OF assms(1,2), of p t content] by (cases "p = []") simp_all
qed (rule assms(3))

lemma walked_unchanged_file:
  assumes wf: "wf_os s" and u: "look s (U @ q @ [c]) = Some u" and cl: "clean_names (q @ [c])" and f: "u_body u \<noteq> BDir"
    and s': "same_host s s'" "wf_os s'"
      "look s' = (if prune then (look s)(U @ q @ [c] := None) else look s)"
    and x: "lower_readable t content \<Longrightarrow> change_of t content s U (q @ [c]) = None"
  shows "walked t content U prune q {c} s (Some (Inr [])) s'"
proof (rule walkedI)
  have cl': "clean_names q" "\<not> prefix whiteout_prefix c" using cl by simp_all
  show "y \<in> set out \<longleftrightarrow> (\<exists>c\<in>{c}. \<exists>p. change_of t content s U (q @ c # p) = Some y)"
    if "(Some (Inr []) :: (gerror + file_change list) option) = Some (Inr out)" "lower_readable t content" for out y
    using that(1) x [OF that(2)] change_below_iff [OF wf u, of t content y] f by auto
  show "look s' k = look s k \<or> prune \<and> look s' k = None \<and> (\<exists>c\<in>{c}. prefix (U @ q @ [c]) k)" for k
    using s'(3) by auto
  show "look s' k = (if prune \<and> (\<exists>c\<in>{c}. \<exists>p. k = U @ q @ c # p \<and> prunable t content s U (q @ c # p))
      then None else look s k)" if rd: "lower_readable t content" for k
  proof (cases "k = U @ q @ [c]")
    case True
    then show ?thesis using prunable_file [OF wf u cl f x [OF rd]] s'(3) by auto
  next
    case False
    have "look s k = None" if "k = U @ q @ c # p" for p
    proof -
      have "p \<noteq> []" using that False by auto
      then have "look s ((U @ q @ [c]) @ p) = None"
        using wf u f by (intro wf_no_entries_below) (simp_all add: is_dir_at_def)
      then show ?thesis using that by simp
    qed
    then show ?thesis using False s'(3) by auto
  qed
qed (use s' in auto)

text \<open>A directory: what the walk did below it, and the directory itself when nothing is left in it.\<close>

lemma below_names:
  "(\<exists>d. \<exists>p. change_of t content s U ((q @ [c]) @ d # p) = Some x) \<longleftrightarrow>
     (\<exists>p. p \<noteq> [] \<and> change_of t content s U (q @ c # p) = Some x)"
  by (auto simp: neq_Nil_conv)

lemma prunable_dir:
  assumes wf: "wf_os s" and u: "look s (U @ q @ [c]) = Some u" "u_body u = BDir" and cl: "clean_names (q @ [c])"
    and left: "\<And>k. look s1 k = (if \<exists>d. \<exists>p. k = U @ (q @ [c]) @ d # p \<and> prunable t content s U ((q @ [c]) @ d # p)
      then None else look s k)"
  shows "has_entries s1 (U @ q @ [c]) \<longleftrightarrow> \<not> prunable t content s U (q @ [c])"
proof
  assume "has_entries s1 (U @ q @ [c])"
  then obtain d where d: "look s1 ((U @ q @ [c]) @ [d]) \<noteq> None" unfolding has_entries_iff by blast
  then have kept: "\<not> prunable t content s U ((q @ [c]) @ [d])" and old: "look s (U @ (q @ [c]) @ [d]) \<noteq> None"
    using left [of "U @ (q @ [c]) @ [d]"] by (auto split: if_splits)
  show "\<not> prunable t content s U (q @ [c])"
  proof
    assume p: "prunable t content s U (q @ [c])"
    then have all: "change_of t content s U ((q @ [c]) @ r) = None" for r by (simp add: prunable_def)
    obtain v where v: "look s (U @ (q @ [c]) @ [d]) = Some v" using old by blast
    have "\<not> prefix whiteout_prefix d"
      using all [of "[d]"] change_snoc [OF cl v, of t content] by (auto simp: Let_def)
    then have "clean_names ((q @ [c]) @ [d])" using cl by (simp add: clean_names_def)
    moreover have "change_of t content s U (((q @ [c]) @ [d]) @ r) = None" for r using all [of "d # r"] by simp
    ultimately show False using kept by (simp add: prunable_def)
  qed
next
  assume np: "\<not> prunable t content s U (q @ [c])"
  then obtain r x where r: "change_of t content s U ((q @ [c]) @ r) = Some x"
    using cl by (auto simp: prunable_def)
  have "r \<noteq> []" using r change_snoc [of q s U c u t content] u cl by (auto split: if_splits)
  then obtain d r' where d: "r = d # r'" by (cases r) auto
  have "look s ((U @ (q @ [c]) @ [d]) @ r') \<noteq> None" using change_at_node [OF r] d by simp
  then have "look s (U @ (q @ [c]) @ [d]) \<noteq> None"
    using wf_prefix_dir [OF wf, of "U @ (q @ [c]) @ [d]" r'] is_dir_look by (cases "r' = []") auto
  moreover have "\<not> prunable t content s U ((q @ [c]) @ [d])" using r d by (auto simp: prunable_def intro!: exI [of _ r'])
  ultimately have "look s1 (U @ (q @ [c]) @ [d]) \<noteq> None" using left [of "U @ (q @ [c]) @ [d]"] by auto
  then show "has_entries s1 (U @ q @ [c])" unfolding has_entries_iff by auto
qed

lemma frame_below:
  assumes "walked t content U prune (q @ [c]) N s r s1"
  shows "look s1 k = look s k \<or> prune \<and> look s1 k = None \<and> (\<exists>c\<in>{c}. prefix (U @ q @ [c]) k)"
  using walked_frame [OF assms, of k] by (auto simp: prefix_def)

lemma ex_list: "(\<exists>xs. P xs) \<longleftrightarrow> P [] \<or> (\<exists>x xs. P (x # xs))"
  by (metis neq_Nil_conv)

lemma walked_subdir:
  assumes wf: "wf_os s" and u: "look s (U @ q @ [c]) = Some u" "u_body u = BDir" and cl: "clean_names (q @ [c])"
    and sub: "walked t content U prune (q @ [c]) UNIV s (Some (Inr out)) s1"
    and s2: "same_host s1 s2" "wf_os s2"
      "look s2 = (if prune \<and> \<not> has_entries s1 (U @ q @ [c]) then (look s1)(U @ q @ [c] := None) else look s1)"
  shows "walked t content U prune q {c} s (Some (Inr out)) s2"
proof (rule walkedI)
  have here: "change_of t content s U (q @ [c]) = None"
    using change_snoc [of q s U c u t content] u cl by simp
  show "same_host s s2" using walked_host [OF sub] s2(1) by (rule same_host_trans)
  show "look s2 k = look s k \<or> prune \<and> look s2 k = None \<and> (\<exists>c\<in>{c}. prefix (U @ q @ [c]) k)" for k
    using frame_below [OF sub, of k] s2(3) by (auto split: if_splits)
  assume rd: "lower_readable t content"
  fix out' :: "file_change list" assume "(Some (Inr out) :: (gerror + file_change list) option) = Some (Inr out')"
  then have out: "out' = out" by simp
  show "distinct out'" using walked_distinct [OF sub rd refl] out by simp
  show "x \<in> set out' \<longleftrightarrow> (\<exists>c\<in>{c}. \<exists>p. change_of t content s U (q @ c # p) = Some x)" for x
    unfolding out walked_out [OF sub rd refl] bex_UNIV below_names
    using here by (metis option.distinct(1) singletonD singletonI)
  fix k
  have left: "look s1 k = (if prune \<and> (\<exists>d. \<exists>p. k = U @ (q @ [c]) @ d # p \<and> prunable t content s U ((q @ [c]) @ d # p))
      then None else look s k)" for k
    using walked_look [OF sub rd refl, of k] by simp
  show "look s2 k = (if prune \<and> (\<exists>c\<in>{c}. \<exists>p. k = U @ q @ c # p \<and> prunable t content s U (q @ c # p))
      then None else look s k)"
  proof (cases prune)
    case False
    then show ?thesis using s2(3) left by simp
  next
    case True
    then have he: "has_entries s1 (U @ q @ [c]) \<longleftrightarrow> \<not> prunable t content s U (q @ [c])"
      using left by (intro prunable_dir [OF wf u cl]) simp
    show ?thesis
    proof (cases "k = U @ q @ [c]")
      case k: True
      have "look s1 k = look s k" using left [of k] k by auto
      then show ?thesis using s2(3) True he k by auto
    next
      case k: False
      have "(\<exists>p. k = U @ q @ c # p \<and> prunable t content s U (q @ c # p)) \<longleftrightarrow>
          (\<exists>d p. k = U @ (q @ [c]) @ d # p \<and> prunable t content s U ((q @ [c]) @ d # p))"
        using k by (subst ex_list) simp
      then show ?thesis using s2(3) left [of k] True k by auto
    qed
  qed
qed (use s2 in auto)

lemma walked_subdir_failed:
  assumes sub: "walked t content U prune (q @ [c]) UNIV s r s1"
    and s2: "same_host s1 s2" "wf_os s2" "look s2 = look s1"
    and bad: "lower_readable t content \<Longrightarrow> \<not> quiet s1 \<or> (\<exists>e. r = Some (Inl e))"
  shows "walked t content U prune q {c} s (Some (Inl e)) s2"
proof (rule walked_failed)
  show "same_host s s2" using walked_host [OF sub] s2(1) by (rule same_host_trans)
  show "\<not> quiet s" if "lower_readable t content"
    using bad [OF that] walked_ok [OF sub that] same_host_quiet [OF walked_host [OF sub]] by auto
  show "look s2 k = look s k \<or> prune \<and> look s2 k = None \<and> (\<exists>c\<in>{c}. prefix (U @ q @ [c]) k)" for k
    unfolding s2(3) by (rule frame_below [OF sub])
qed (rule s2(2))

lemma readdir_known:
  assumes "wf_os s" and "is_dir_at s q"
  shows "os_readdir s (abs_of q) = Inr (entry_names s q)"
proof -
  have "walk_path s True (abs_of q) = Inr q"
    using assms wf_valid [OF assms(1), of q] wf_butlast_dir [OF assms(1), of q] is_dir_look [OF assms(2)]
    by (intro walk_known) (auto simp: dir_not_link)
  then show ?thesis using assms(2) by (auto simp: os_readdir_def is_dir_at_def split: option.splits)
qed

lemma remove_walked:
  assumes "wf_os s" and "look s (U @ q @ [c]) \<noteq> None" and "os_remove (abs_of (U @ q @ [c])) s = (r, s')"
    and "\<And>u. look s (U @ q @ [c]) = Some u \<Longrightarrow> u_body u = BDir \<Longrightarrow> \<not> has_entries s (U @ q @ [c])"
  shows "wf_os s' \<and> same_host s s' \<and> (quiet s \<longrightarrow> r = Inr ()) \<and>
    look s' = (case r of Inl _ \<Rightarrow> look s | Inr _ \<Rightarrow> (look s)(U @ q @ [c] := None))"
proof -
  have p: "is_dir_at s (U @ q)" "valid_name c" using wf_parent [OF assms(1), of "U @ q" c] assms(2) by simp_all
  have "os_remove (abs_of ((U @ q) @ [c])) s = (r, s')" using assms(3) by simp
  from remove_spec [OF assms(1) p this] keeps_wfD [OF keeps_wf_remove assms(1) this] assms(2,4)
  show ?thesis by (auto split: sum.splits)
qed

lemma entry_walked_file:
  assumes wf: "wf_os s" and u: "look s (U @ q @ [c]) = Some u" and U: "valid_path U" and cl: "clean_names (q @ [c])"
    and f: "u_body u \<noteq> BDir"
    and run: "diff_entry rec t (abs_of U) prune (of_comps q) c s = (r, s')"
  shows "walked t content U prune q {c} s r s'"
proof -
  have cl': "clean_names q" "\<not> prefix whiteout_prefix c" using cl by simp_all
  have v: "valid_path (q @ [c])" using wf_valid [OF wf, of "U @ q @ [c]"] u by simp
  have child: "join_rel (of_comps q) c = of_comps (q @ [c])" using v by (simp add: join_rel_eq join_path_of_comps)
  have fp: "path_join [abs_of U, of_comps (q @ [c])] = abs_of (U @ q @ [c])" by (rule path_join_abs_of [OF U v])
  let ?p = "of_comps (q @ [c])" and ?lower = "lookup_tree_path t (of_comps (q @ [c]))"
  obtain r1 s1 where eu: "entry_unchanged t (abs_of U) ?p u ?lower s = (r1, s1)" by force
  note s1 = entry_unchanged_spec [OF wf u U eu, of content]
  note run' = run [unfolded diff_entry_def Let_def child fp lstat_known [OF wf u]]
  have ch: "change_of t content s U (q @ [c]) = (if unchanged_node t content ?p u then None
      else (case ?lower of None \<Rightarrow> Some \<lparr>ch_path = ?p, ch_kind = Added, ch_delta = info_size u\<rparr>
            | Some n \<Rightarrow> Some \<lparr>ch_path = ?p, ch_kind = Modified, ch_delta = i64 (info_size u - n_size n)\<rparr>))"
    using change_snoc [OF cl'(1) u, of t content] cl'(2) f by simp
  consider e where "r1 = Inl e" | "r1 = Inr False" | "r1 = Inr True" by (cases r1) auto
  then show ?thesis
  proof cases
    case 1
    then have "r = Some (Inl e)" "s' = s1" using run' cl'(2) f eu by simp_all
    then show ?thesis using s1 1 by (auto intro!: walked_failed)
  next
    case 2
    obtain x where x: "r = Some (Inr [x])" "s' = s1" "x = (case ?lower of
        None \<Rightarrow> \<lparr>ch_path = ?p, ch_kind = Added, ch_delta = info_size u\<rparr>
      | Some n \<Rightarrow> \<lparr>ch_path = ?p, ch_kind = Modified, ch_delta = i64 (info_size u - n_size n)\<rparr>)"
      using run' cl'(2) f eu 2 by (auto split: option.splits)
    have "change_of t content s U (q @ [c]) = Some x" if "lower_readable t content"
      using ch s1 that 2 x(3) by (auto split: option.splits)
    then show ?thesis using s1 x(2)
      by (intro walked_changed_file [OF wf u cl'(1) f cl'(2) _ _ _ x(1)]) auto
  next
    case 3
    have none: "change_of t content s U (q @ [c]) = None" if "lower_readable t content" using ch s1 that 3 by auto
    show ?thesis
    proof (cases prune)
      case False
      then have "r = Some (Inr [])" "s' = s1" using run' cl'(2) f eu 3 by simp_all
      then show ?thesis using s1 False none by (auto intro!: walked_unchanged_file [OF wf u cl f])
    next
      case True
      obtain r2 s2 where rm: "os_remove (abs_of (U @ q @ [c])) s1 = (r2, s2)" by force
      have s2: "wf_os s2 \<and> same_host s1 s2 \<and> (quiet s1 \<longrightarrow> r2 = Inr ()) \<and>
          look s2 = (case r2 of Inl _ \<Rightarrow> look s1 | Inr _ \<Rightarrow> (look s1)(U @ q @ [c] := None))"
        using s1 u f by (intro remove_walked [OF _ _ rm]) auto
      have host: "same_host s s2" using s1 s2 same_host_trans by blast
      show ?thesis
      proof (cases r2)
        case (Inl e)
        then have "r = Some (Inl (Errno e))" "s' = s2" using run' cl'(2) f eu 3 True rm by simp_all
        then show ?thesis using s1 s2 Inl host same_host_quiet [of s s1] by (auto intro!: walked_failed)
      next
        case (Inr x)
        then have "r = Some (Inr [])" "s' = s2" using run' cl'(2) f eu 3 True rm by simp_all
        then show ?thesis using s1 s2 Inr host True none by (auto intro!: walked_unchanged_file [OF wf u cl f])
      qed
    qed
  qed
qed

lemma entry_walked_dir:
  assumes wf: "wf_os s" and u: "look s (U @ q @ [c]) = Some u" "u_body u = BDir" and U: "valid_path U"
    and cl: "clean_names (q @ [c])"
    and sub: "\<And>r1 s1. rec (of_comps (q @ [c])) s = (r1, s1) \<Longrightarrow> walked t content U prune (q @ [c]) UNIV s r1 s1"
    and run: "diff_entry rec t (abs_of U) prune (of_comps q) c s = (r, s')"
  shows "walked t content U prune q {c} s r s'"
proof -
  have cl': "\<not> prefix whiteout_prefix c" using cl by simp
  have v: "valid_path (q @ [c])" using wf_valid [OF wf, of "U @ q @ [c]"] u by simp
  have child: "join_rel (of_comps q) c = of_comps (q @ [c])" using v by (simp add: join_rel_eq join_path_of_comps)
  have fp: "path_join [abs_of U, of_comps (q @ [c])] = abs_of (U @ q @ [c])" by (rule path_join_abs_of [OF U v])
  obtain r1 s1 where call: "rec (of_comps (q @ [c])) s = (r1, s1)" by force
  note w = sub [OF call]
  have d1: "is_dir_at s1 (U @ q @ [c])" using walked_dir [OF w] u by (simp add: is_dir_at_def)
  note run' = run [unfolded diff_entry_def Let_def child fp lstat_known [OF wf u(1)]]
  consider e where "r1 = Some (Inl e)" | out where "r1 = Some (Inr out)"
    using walked_some [OF w] by (cases r1; cases "the r1") auto
  then show ?thesis
  proof cases
    case 1
    then have "r = Some (Inl e)" "s' = s1" using run' cl' u(2) call by simp_all
    then show ?thesis using walked_subdir_failed [OF w _ walked_wf [OF w]] 1 by simp
  next
    case 2
    note w' = w [unfolded 2]
    have rd: "os_readdir s1 (abs_of (U @ q @ [c])) = Inr (entry_names s1 (U @ q @ [c]))"
      by (rule readdir_known [OF walked_wf [OF w] d1])
    show ?thesis
    proof (cases "prune \<and> \<not> has_entries s1 (U @ q @ [c])")
      case False
      then have "r = Some (Inr out)" "s' = s1"
        using run' [unfolded rd] cl' u(2) call 2 by (auto simp: has_entries_def rd split: if_splits)
      then show ?thesis
        using walked_subdir [OF wf u cl w' same_host_refl walked_wf [OF w]] False by auto
    next
      case True
      obtain r2 s2 where rm: "os_remove (abs_of (U @ q @ [c])) s1 = (r2, s2)" by force
      have s2: "wf_os s2 \<and> same_host s1 s2 \<and> (quiet s1 \<longrightarrow> r2 = Inr ()) \<and>
          look s2 = (case r2 of Inl _ \<Rightarrow> look s1 | Inr _ \<Rightarrow> (look s1)(U @ q @ [c] := None))"
        using True is_dir_look [OF d1] by (intro remove_walked [OF walked_wf [OF w] _ rm]) auto
      show ?thesis
      proof (cases r2)
        case (Inl e)
        then have "r = Some (Inl (Errno e))" "s' = s2"
          using run' cl' u(2) call 2 rd True rm by (simp_all add: has_entries_def)
        then show ?thesis using walked_subdir_failed [OF w, of s2] s2 Inl by auto
      next
        case (Inr x)
        then have "r = Some (Inr out)" "s' = s2"
          using run' cl' u(2) call 2 rd True rm by (simp_all add: has_entries_def)
        then show ?thesis using walked_subdir [OF wf u cl w', of s2] s2 Inr True by auto
      qed
    qed
  qed
qed

lemma walked_UNIV:
  assumes wf: "wf_os s" and w: "walked t content U prune q N s r s'"
    and all: "\<And>d. look s (U @ q @ [d]) \<noteq> None \<Longrightarrow> d \<in> N"
  shows "walked t content U prune q UNIV s r s'"
proof (rule walkedI)
  have here: "look s (U @ q @ d # p) = None" if "d \<notin> N" for d p
  proof -
    have "\<not> is_dir_at s (U @ q @ [d])" "look s (U @ q @ [d]) = None"
      using all [of d] that is_dir_look by blast+
    then have "look s ((U @ q @ [d]) @ p) = None"
      using wf_no_entries_below [OF wf, of "U @ q @ [d]" p] by (cases "p = []") auto
    then show ?thesis by simp
  qed
  have ch: "(\<exists>d\<in>UNIV. \<exists>p. change_of t content s U (q @ d # p) = Some x) \<longleftrightarrow>
      (\<exists>d\<in>N. \<exists>p. change_of t content s U (q @ d # p) = Some x)" for x
    using change_at_node here by (metis UNIV_I)
  show "look s' k = look s k \<or> prune \<and> look s' k = None \<and> (\<exists>d\<in>UNIV. prefix (U @ q @ [d]) k)" for k
    using walked_frame [OF w, of k] by blast
  assume rd: "lower_readable t content"
  show "\<exists>out. r = Some (Inr out)" if "quiet s" using walked_ok [OF w rd that] .
  fix out assume r: "r = Some (Inr out)"
  show "distinct out" by (rule walked_distinct [OF w rd r])
  show "x \<in> set out \<longleftrightarrow> (\<exists>d\<in>UNIV. \<exists>p. change_of t content s U (q @ d # p) = Some x)" for x
    unfolding ch by (rule walked_out [OF w rd r])
  fix k
  show "look s' k = (if prune \<and> (\<exists>d\<in>UNIV. \<exists>p. k = U @ q @ d # p \<and> prunable t content s U (q @ d # p))
      then None else look s k)"
    unfolding walked_look [OF w rd r, of k] using here by auto
qed (use walked_wf [OF w] walked_host [OF w] walked_some [OF w] in auto)

lemma diff_upper_walked:
  assumes U: "valid_path U"
  shows "wf_os s \<Longrightarrow> is_dir_at s (U @ q) \<Longrightarrow> clean_names q \<Longrightarrow> bounded s m \<Longrightarrow> m < fuel + length (U @ q) \<Longrightarrow>
    diff_upper fuel t (abs_of U) prune (of_comps q) s = (r, s') \<Longrightarrow>
    walked t content U prune q UNIV s r s'"
proof (induction fuel arbitrary: q s r s')
  case 0
  then show ?case using is_dir_look [of s "U @ q"] by (auto simp: bounded_def)
next
  case (Suc fuel)
  have v: "valid_path q" using wf_valid [OF Suc.prems(1) is_dir_look [OF Suc.prems(2)]] by simp
  have "round t content U prune q m (diff_entry (diff_upper fuel t (abs_of U) prune) t (abs_of U) prune (of_comps q))"
    unfolding round_def
  proof (intro allI impI)
    fix s c
    assume a: "wf_os s" "bounded s m" "is_dir_at s (U @ q)" "look s (U @ q @ [c]) \<noteq> None"
    obtain u where u: "look s (U @ q @ [c]) = Some u" using a(4) by blast
    let ?e = "diff_entry (diff_upper fuel t (abs_of U) prune) t (abs_of U) prune (of_comps q) c s"
    obtain r1 s1 where run: "?e = (r1, s1)" by force
    have "walked t content U prune q {c} s r1 s1"
    proof (cases "prefix whiteout_prefix c")
      case True
      then have "r1 = Some (Inr [the (change_of t content s U (q @ [c]))]) \<and> s1 = s"
        using run change_snoc [OF Suc.prems(3) u, of t content] by (auto simp: diff_entry_def Let_def)
      then show ?thesis using walked_whiteout [OF a(1) u Suc.prems(3) True] by blast
    next
      case False
      then have cl: "clean_names (q @ [c])" using Suc.prems(3) by simp
      show ?thesis
      proof (cases "u_body u = BDir")
        case True
        have "is_dir_at s (U @ q @ [c])" using u True by (simp add: is_dir_at_def)
        then have "walked t content U prune (q @ [c]) UNIV s r2 s2"
          if "diff_upper fuel t (abs_of U) prune (of_comps (q @ [c])) s = (r2, s2)" for r2 s2
          using Suc.prems(5) a(1,2) cl that by (intro Suc.IH) simp_all
        then show ?thesis by (rule entry_walked_dir [OF a(1) u True U cl _ run])
      next
        case False
        then show ?thesis by (rule entry_walked_file [OF a(1) u U cl _ run])
      qed
    qed
    then show "walked t content U prune q {c} s (fst ?e) (snd ?e)" by (simp add: run)
  qed
  moreover have "os_readdir s (path_join [abs_of U, of_comps q]) = Inr (entry_names s (U @ q))"
    unfolding path_join_abs_of [OF U v] by (rule readdir_known [OF Suc.prems(1,2)])
  ultimately have "walked t content U prune q (set (entry_names s (U @ q))) s r s'"
    using Suc.prems(1,2,4,6) distinct_entry_names [OF Suc.prems(1)]
    by (intro diff_entries_walked) (simp_all add: set_entry_names)
  then show ?case by (rule walked_UNIV [OF Suc.prems(1)]) (simp add: set_entry_names)
qed

end
