(* ===== verification/DiffProps.thy ===== *)
theory DiffProps
  imports DiffUpper OverlayProps
begin

text \<open>Properties of \<open>DiffMount\<close>: it ends, reports exactly the changes of the mount, and prunes
  what holds none.\<close>

section \<open>The lower tree of a mount\<close>

lemma view_leaf_entry: "view_of files q = Some (VLeaf f) \<Longrightarrow>
    f \<in> set files \<and> fe_kind f \<noteq> ''dir'' \<and> comps (clean_path f) = q"
proof (induction files rule: rev_induct)
  case (snoc g files)
  have "view_of (files @ [g]) q = view_add g (view_of files) q" by (simp add: view_of_def)
  with snoc show ?case
    by (auto simp: view_add_def Let_def view_dir_def entry_parts_def split: if_splits option.splits ventry.splits)
qed (auto simp: view_of_def split: if_splits)

text \<open>A tree whose files are stored can be read.\<close>

lemma built_lower_readable:
  assumes "\<And>f. f \<in> set files \<Longrightarrow> fe_kind f \<noteq> ''dir'' \<Longrightarrow> fe_link f = '''' \<Longrightarrow> stored store bs f (content (clean_path f))"
  shows "lower_readable (build_tree store bs files) content"
  unfolding lower_readable_def
proof (intro allI impI)
  fix p n
  assume n: "lookup_tree_path (build_tree store bs files) p = Some n" "\<not> n_is_dir n" "n_link n = ''''"
  then obtain v where v: "view_of files (comps p) = Some v" "erase n = view_node (comps p) v"
    using lookup_build_tree_comps [of store bs files p] by (cases "view_of files (comps p)") auto
  have "n_is_dir (erase n) = n_is_dir n" "n_link (erase n) = n_link n" by (simp_all add: erase_def)
  then obtain f where f: "v = VLeaf f" "fe_link f = ''''"
    using v(2) n(2,3) by (cases v) (auto simp: new_dir_def leaf_node_def)
  note e = view_leaf_entry [OF v(1) [unfolded f(1)]]
  then have "clean_path f = p" using comps_eq_iff by blast
  then have "stored store bs f (content p)" using assms [of f] e f(2) by simp
  then show "range_readable (build_tree store bs files) n (content p)"
    using leaf_range_readable [OF v(1) [unfolded f(1)], of store bs "content p"] n(1) by auto
qed

lemma fold_max_start: "a \<le> fold max xs (a :: nat)"
proof (induction xs arbitrary: a)
  case (Cons x xs)
  have "max x a \<le> fold max xs (max x a)" by (rule Cons.IH)
  then show ?case by simp
qed simp

lemma fold_max_ge: "x \<in> set xs \<Longrightarrow> x \<le> fold max xs (a :: nat)"
proof (induction xs arbitrary: a)
  case (Cons y xs)
  then show ?case using fold_max_start [of "max y a" xs] by auto
qed simp

lemma bounded_depth: "bounded s (tree_depth s)"
  unfolding bounded_def
proof (intro allI impI)
  fix k assume "look s k \<noteq> None"
  then have "k \<in> fst ` set (os_nodes s)" by (metis map_of_eq_None_iff)
  then have "length k \<in> set (map (length \<circ> fst) (os_nodes s))" by auto
  then show "length k \<le> tree_depth s" unfolding tree_depth_def by (rule fold_max_ge)
qed

text \<open>A mount with its upper directory at \<open>U\<close>.\<close>

definition mount_at :: "manager \<Rightarrow> string \<Rightarrow> fs_tree \<Rightarrow> path \<Rightarrow> os \<Rightarrow> bool" where
  "mount_at mgr i t U s \<longleftrightarrow>
     i \<noteq> '''' \<and> mount_view i mgr = Inr (t, abs_of U) \<and> valid_path U \<and> wf_os s \<and> is_dir_at s U"

lemma diff_mount_walked:
  assumes "mount_at mgr i t U s" and "diff_mount pk i prune mgr s = (r, s')"
  obtains r0 where "walked t content U prune [] UNIV s r0 s'"
    and "r = map_option (map_sum (\<lambda>e. StatusErr Internal (''diff mount: '' @ etext pk e)) (sort_key ch_path)) r0"
proof -
  obtain r0 s0 where run: "diff_upper (Suc (tree_depth s)) t (abs_of U) prune (of_comps []) s = (r0, s0)" by force
  have "walked t content U prune [] UNIV s r0 s0"
    using assms(1) bounded_depth by (intro diff_upper_walked [OF _ _ _ _ _ _ run]) (auto simp: mount_at_def)
  moreover have "s' = s0 \<and>
      r = map_option (map_sum (\<lambda>e. StatusErr Internal (''diff mount: '' @ etext pk e)) (sort_key ch_path)) r0"
    using assms run
    by (auto simp: diff_mount_def mount_at_def of_comps_def simp del: diff_upper.simps split: option.splits sum.splits)
  ultimately show ?thesis using that by blast
qed

section \<open>A mount to try the diff on\<close>

text \<open>Below a tree with \<open>d/f\<close> and \<open>d/g\<close>, the upper directory has an unchanged copy of \<open>d/f\<close>, a new
  file \<open>d/x\<close>, a whiteout of \<open>d/g\<close>, and a new empty directory \<open>n\<close>.\<close>

definition diff_tree :: fs_tree where
  "diff_tree = build_tree demo_store 4 [demo_file, (file_at ''d/g'')\<lparr>fe_size := 4\<rparr>]"

definition diff_content :: "string \<Rightarrow> bytes" where
  "diff_content p = (if p = ''d/f'' then ''abcdef'' else ''abcd'')"

definition diff_host :: os where
  "diff_host = host_with [([''u'', ''d''], plain_dir), ([''u'', ''d'', ''f''], text_file\<lparr>u_body := BReg ''abcdef''\<rparr>),
     ([''u'', ''d'', ''x''], text_file), ([''u'', ''d'', ''.wh.g''], text_file\<lparr>u_body := BReg []\<rparr>),
     ([''u'', ''n''], plain_dir)]"

definition diff_state :: fuse_state where
  "diff_state = demo_state\<lparr>fs_lower := Some diff_tree\<rparr>"

definition diff_manager :: manager where
  "diff_manager =
     \<lparr>mg_mounts = [(''m'', \<lparr>mt_id = ''m'',
        mt_spec = \<lparr>sp_mount_point = ''/m'', sp_layers = [], sp_upper_path = ''/u'', sp_clear_bits = False, sp_debug = False\<rparr>,
        mt_server = 1, mt_point = ''/m'', mt_resolved = [], mt_tree = diff_tree, mt_upper = ''/u'', mt_nodes = 4,
        mt_at = 0, mt_tree_key = ''k''\<rparr>)],
      mg_trees = [], mg_started = 0, mg_guard = \<lparr>guard_root = ''''\<rparr>\<rparr>"

definition demo_changes :: "file_change list" where
  "demo_changes = [\<lparr>ch_path = ''d/g'', ch_kind = Removed, ch_delta = -4\<rparr>, \<lparr>ch_path = ''d/x'', ch_kind = Added, ch_delta = 3\<rparr>]"

lemma diff_readable: "lower_readable diff_tree diff_content"
  unfolding diff_tree_def
proof (rule built_lower_readable)
  have "stored demo_store 4 demo_file ''abcdef''" "stored demo_store 4 ((file_at ''d/g'')\<lparr>fe_size := 4\<rparr>) ''abcd''"
    "clean_path demo_file = ''d/f''" "clean_path ((file_at ''d/g'')\<lparr>fe_size := 4\<rparr>) = ''d/g''" by code_simp+
  then show "stored demo_store 4 f (diff_content (clean_path f))"
    if "f \<in> set [demo_file, (file_at ''d/g'')\<lparr>fe_size := 4\<rparr>]" for f
    using that by (auto simp: diff_content_def)
qed

lemma diff_mounted: "mount_at diff_manager ''m'' diff_tree [''u''] diff_host"
  unfolding mount_at_def
proof (intro conjI)
  show "wf_os diff_host" by (rule wf_osI_list) code_simp+
  show "is_dir_at diff_host [''u'']" "valid_path [''u'']" by code_simp+
qed (simp_all add: mount_view_def diff_manager_def abs_of_def sep_def)

lemma diff_quiet: "quiet diff_host"
  by code_simp

lemma diff_plain: "fst (diff_mount demo_mk ''m'' False diff_manager diff_host) = Some (Inr demo_changes)"
  by code_simp

lemma diff_pruned: "fst (diff_mount demo_mk ''m'' True diff_manager diff_host) = Some (Inr demo_changes)"
  by code_simp

section \<open>Properties\<close>

text \<open>C27: DiffMount ends, however deep the upper directory is; it changes nothing on the host unless it
  prunes, and then it only deletes, and only below the upper directory: also when it fails.\<close>

theorem diff_mount_total:
  assumes "mount_at mgr i t U s" and "diff_mount pk i prune mgr s = (r, s')"
  shows "r \<noteq> None \<and> wf_os s' \<and>
    (\<forall>k. look s' k = look s k \<or> (prune \<and> look s' k = None \<and> strict_prefix U k))"
proof -
  obtain r0 where w: "walked t undefined U prune [] UNIV s r0 s'"
    "r = map_option (map_sum (\<lambda>e. StatusErr Internal (''diff mount: '' @ etext pk e)) (sort_key ch_path)) r0"
    using diff_mount_walked [OF assms] by blast
  have "strict_prefix U k" if "prefix (U @ [c]) k" for c k
    using that by (auto simp: prefix_def strict_prefix_def)
  then show ?thesis using walked_some [OF w(1)] walked_wf [OF w(1)] walked_frame [OF w(1)] w(2) by fastforce
qed

theorem diff_mount_total_witness:
  "fst (diff_mount demo_mk ''m'' True diff_manager diff_host) \<noteq> None"
proof -
  obtain r s' where run: "diff_mount demo_mk ''m'' True diff_manager diff_host = (r, s')" by force
  from diff_mount_total [OF diff_mounted run] run show ?thesis by simp
qed

text \<open>C9: DiffMount reports exactly the changes that the upper directory holds, in the order of their
  paths and each once: a whiteout is the removal of its name, a file or link is an addition when the
  lower tree has nothing at its path and a modification when its target, size, permissions or bytes
  differ. Pruning does not change the report. Without a fault of the host it succeeds.\<close>

theorem diff_mount_exact:
  assumes "mount_at mgr i t U s" and "lower_readable t content" and "diff_mount pk i prune mgr s = (r, s')"
  shows "(quiet s \<longrightarrow> (\<exists>changes. r = Some (Inr changes))) \<and>
    (\<forall>changes. r = Some (Inr changes) \<longrightarrow>
       sorted (map ch_path changes) \<and> distinct changes \<and>
       (\<forall>x. x \<in> set changes \<longleftrightarrow> (\<exists>q. change_of t content s U q = Some x)))"
proof -
  obtain r0 where w: "walked t content U prune [] UNIV s r0 s'"
    "r = map_option (map_sum (\<lambda>e. StatusErr Internal (''diff mount: '' @ etext pk e)) (sort_key ch_path)) r0"
    using diff_mount_walked [OF assms(1,3)] by blast
  have all: "(\<exists>q. change_of t content s U q = Some x) \<longleftrightarrow> (\<exists>c p. change_of t content s U (c # p) = Some x)" for x
    by (subst ex_list) (simp add: change_of_def)
  have "sorted (map ch_path changes) \<and> distinct changes \<and>
      (\<forall>x. x \<in> set changes \<longleftrightarrow> (\<exists>q. change_of t content s U q = Some x))" if ok: "r = Some (Inr changes)" for changes
  proof -
    obtain out where out: "r0 = Some (Inr out)" "changes = sort_key ch_path out"
      using ok w(2) by (cases r0; cases "the r0") auto
    show ?thesis
      using walked_distinct [OF w(1) assms(2) out(1)] walked_out [OF w(1) assms(2) out(1)] out(2)
      by (simp add: all)
  qed
  moreover have "\<exists>changes. r = Some (Inr changes)" if "quiet s"
    using walked_ok [OF w(1) assms(2) that] w(2) by auto
  ultimately show ?thesis by blast
qed

theorem diff_mount_exact_witness:
  "fst (diff_mount demo_mk ''m'' False diff_manager diff_host) = Some (Inr demo_changes) \<and>
   (\<exists>q. change_of diff_tree diff_content diff_host [''u''] q = Some (last demo_changes))"
proof -
  obtain r s' where run: "diff_mount demo_mk ''m'' False diff_manager diff_host = (r, s')" by force
  then have "r = Some (Inr demo_changes)" using diff_plain by simp
  from diff_mount_exact [OF diff_mounted diff_readable run] this show ?thesis
    using diff_plain by (simp add: demo_changes_def) blast
qed

lemma pruned_look:
  assumes "mount_at mgr i t U s" and "lower_readable t content"
    and "diff_mount pk i True mgr s = (Some (Inr changes), s')"
  shows "look s' k = (if \<exists>q. q \<noteq> [] \<and> k = U @ q \<and> prunable t content s U q then None else look s k)"
    and "wf_os s'"
proof -
  obtain r0 where w: "walked t content U True [] UNIV s r0 s'"
    "Some (Inr changes) = map_option (map_sum (\<lambda>e. StatusErr Internal (''diff mount: '' @ etext pk e)) (sort_key ch_path)) r0"
    using diff_mount_walked [OF assms(1,3)] by blast
  obtain out where out: "r0 = Some (Inr out)" using w(2) by (cases r0; cases "the r0") auto
  have "(\<exists>q. q \<noteq> [] \<and> k = U @ q \<and> prunable t content s U q) \<longleftrightarrow>
      (\<exists>c p. k = U @ c # p \<and> prunable t content s U (c # p))"
    by (subst ex_list) simp
  then show "look s' k = (if \<exists>q. q \<noteq> [] \<and> k = U @ q \<and> prunable t content s U q then None else look s k)"
    using walked_look [OF w(1) assms(2) out, of k] by auto
  show "wf_os s'" by (rule walked_wf [OF w(1)])
qed

lemma prunable_leaf:
  assumes wf: "wf_os s" and u: "look s (U @ q) = Some u" "u_body u \<noteq> BDir" and q: "q \<noteq> []"
  shows "prunable t content s U q \<longleftrightarrow> clean_names q \<and> unchanged_node t content (of_comps q) u"
proof -
  obtain q' c where qc: "q = q' @ [c]" using q by (cases q rule: rev_cases) auto
  have "prunable t content s U q \<longleftrightarrow> clean_names q \<and> change_of t content s U q = None"
    using prunable_file [OF wf, of U q' c u t content] u unfolding qc prunable_def by (metis append_Nil2 append_assoc)
  moreover have "clean_names q \<Longrightarrow> change_of t content s U q = None \<longleftrightarrow> unchanged_node t content (of_comps q) u"
    using change_snoc [of q' s U c u t content] u unfolding qc by (auto split: option.splits)
  ultimately show ?thesis by blast
qed

text \<open>C18: pruning deletes, of the files and links of the upper directory, exactly those that are what the
  lower tree has at their path and that lie below no whiteout. Every change stays, whiteouts
  included. A directory goes only with all that was in it, when none of that was a change. Nothing
  else is touched. (That a directory which is new on the mount can go as well, when it has nothing in
  it, is not what the interface says: \<open>prune_forgets_new_dirs\<close>.)\<close>

theorem diff_mount_prunes:
  assumes "mount_at mgr i t U s" and "lower_readable t content"
    and "diff_mount pk i True mgr s = (Some (Inr changes), s')"
  shows "(\<forall>q u. q \<noteq> [] \<and> look s (U @ q) = Some u \<and> u_body u \<noteq> BDir \<longrightarrow>
      look s' (U @ q) = (if clean_names q \<and> unchanged_node t content (of_comps q) u then None else Some u)) \<and>
    (\<forall>q. change_of t content s U q \<noteq> None \<longrightarrow> look s' (U @ q) = look s (U @ q)) \<and>
    (\<forall>q. is_dir_at s (U @ q) \<longrightarrow> look s' (U @ q) = look s (U @ q) \<or>
      (\<forall>p. look s' (U @ q @ p) = None \<and> change_of t content s U (q @ p) = None)) \<and>
    (\<forall>k. \<not> strict_prefix U k \<or> look s k = None \<longrightarrow> look s' k = look s k)"
proof (intro conjI allI impI)
  note lk = pruned_look(1) [OF assms]
  have wf: "wf_os s" using assms(1) by (simp add: mount_at_def)
  have at: "look s' (U @ q) = (if q \<noteq> [] \<and> prunable t content s U q then None else look s (U @ q))" for q
    using lk [of "U @ q"] by auto
  fix q u assume "q \<noteq> [] \<and> look s (U @ q) = Some u \<and> u_body u \<noteq> BDir"
  then show "look s' (U @ q) = (if clean_names q \<and> unchanged_node t content (of_comps q) u then None else Some u)"
    using at [of q] prunable_leaf [OF wf, of U q u t content] by simp
next
  note lk = pruned_look(1) [OF assms]
  fix q assume "change_of t content s U q \<noteq> None"
  then have "\<not> prunable t content s U q" unfolding prunable_def by (metis append_Nil2)
  then show "look s' (U @ q) = look s (U @ q)" using lk [of "U @ q"] by auto
next
  note lk = pruned_look(1) [OF assms]
  fix q assume d: "is_dir_at s (U @ q)"
  show "look s' (U @ q) = look s (U @ q) \<or> (\<forall>p. look s' (U @ q @ p) = None \<and> change_of t content s U (q @ p) = None)"
  proof (cases "q \<noteq> [] \<and> prunable t content s U q")
    case True
    then have none: "change_of t content s U (q @ p) = None" for p by (simp add: prunable_def)
    have "look s' (U @ q) = None" using lk [of "U @ q"] True by auto
    then have "look s' (U @ q @ p) = None" for p
      using wf_prefix_dir [OF pruned_look(2) [OF assms], of "U @ q" p] is_dir_look [of s' "U @ q"]
      by (cases "p = []"; cases "look s' (U @ q @ p)") auto
    then show ?thesis using none by blast
  next
    case False
    then show ?thesis using lk [of "U @ q"] by auto
  qed
next
  note lk = pruned_look(1) [OF assms]
  fix k assume "\<not> strict_prefix U k \<or> look s k = None"
  then show "look s' k = look s k" using lk [of k] by (auto simp: strict_prefix_def)
qed

theorem diff_mount_prunes_witness:
  "\<exists>s'. diff_mount demo_mk ''m'' True diff_manager diff_host = (Some (Inr demo_changes), s') \<and>
     look s' [''u'', ''d'', ''f''] = None \<and> look s' [''u'', ''d'', ''x''] = Some text_file \<and>
     look s' [''u'', ''d'', ''.wh.g''] = look diff_host [''u'', ''d'', ''.wh.g'']"
proof -
  obtain s' where run: "diff_mount demo_mk ''m'' True diff_manager diff_host = (Some (Inr demo_changes), s')"
    using diff_pruned by (metis prod.collapse)
  note all = diff_mount_prunes [OF diff_mounted diff_readable run]
  have f: "\<exists>u. look diff_host ([''u''] @ [''d'', ''f'']) = Some u \<and> u_body u \<noteq> BDir \<and> clean_names [''d'', ''f''] \<and>
      unchanged_node diff_tree diff_content (of_comps [''d'', ''f'']) u"
    by (rule exI [of _ "text_file\<lparr>u_body := BReg ''abcdef''\<rparr>"], (intro conjI)?; code_simp)
  have x: "look diff_host [''u'', ''d'', ''x''] = Some text_file"
    "change_of diff_tree diff_content diff_host [''u''] [''d'', ''x''] \<noteq> None"
    "change_of diff_tree diff_content diff_host [''u''] [''d'', ''.wh.g''] \<noteq> None"
    by code_simp+
  have "look s' ([''u''] @ [''d'', ''f'']) = None" using all f by fastforce
  moreover have "look s' ([''u''] @ [''d'', ''x'']) = look diff_host ([''u''] @ [''d'', ''x''])"
    "look s' ([''u''] @ [''d'', ''.wh.g'']) = look diff_host ([''u''] @ [''d'', ''.wh.g''])"
    using all x(2,3) by blast+
  ultimately show ?thesis using run x(1) by simp
qed

lemma change_path_at:
  assumes wf: "wf_os s" and q: "change_of t content s U q = Some x"
    and p: "ch_path x = of_comps (cs @ [c])" and v: "valid_path (cs @ [c])"
  shows "q = cs @ [c] \<or> q = cs @ [wh c]"
proof -
  obtain q' e where qe: "q = q' @ [e]" using q by (cases q rule: rev_cases) (auto simp: change_of_def)
  have vq: "valid_path (q' @ [e])" using wf_valid [OF wf change_at_node [OF q]] qe by simp
  show ?thesis
  proof (cases "ch_kind x = Removed")
    case True
    note r = change_removed [OF q [unfolded qe] True]
    have sl: "slash \<notin> set (trim_prefix whiteout_prefix e)" "slash \<notin> set c"
      using vq v by (auto simp: valid_name_def trim_prefix_def dest: in_set_dropD)
    have "join_path (of_comps q') (trim_prefix whiteout_prefix e) = join_path (of_comps cs) c"
      using p r v join_path_of_comps [of cs c] by (simp add: join_rel_eq)
    then have "(of_comps q', trim_prefix whiteout_prefix e) = (of_comps cs, c)"
      using split_join_path [OF sl(1)] split_join_path [OF sl(2)] by metis
    then have "of_comps q' = of_comps cs" "trim_prefix whiteout_prefix e = c" by simp_all
    then have "q' = cs" "e = wh c" using vq v wh_trim [OF conjunct1 [OF r]] comps_of_comps by (metis valid_path_simps(3), simp)
    then show ?thesis using qe by simp
  next
    case False
    then have "of_comps q = of_comps (cs @ [c])" using change_kept [OF q] p by simp
    then show ?thesis using vq v comps_of_comps qe by metis
  qed
qed

text \<open>Pruning forgets new empty directories: a directory that the user made on the mount, and that
  the lower tree does not have, is not reported, is deleted, and the mount shows it no more.\<close>

theorem prune_forgets_new_dirs:
  assumes mt: "mount_at mgr i t U s" and rd: "lower_readable t content"
    and run: "diff_mount pk i True mgr s = (Some (Inr changes), s')"
    and st: "fs_upper st = abs_of U" "fs_lower st = Some t"
    and d: "is_dir_at s (U @ cs @ [c])" "\<not> has_entries s (U @ cs @ [c])" "clean_names (cs @ [c])"
    and new: "lookup_tree_path t (of_comps (cs @ [c])) = None" "look s (U @ cs @ [wh c]) = None"
  shows "exists_pi (stat st s (of_comps (cs @ [c]))) \<and> \<not> exists_pi (stat st s' (of_comps (cs @ [c]))) \<and>
    of_comps (cs @ [c]) \<notin> ch_path ` set changes"
proof -
  have wf: "wf_os s" and U: "valid_path U" "is_dir_at s U" using mt by (simp_all add: mount_at_def)
  obtain u where u: "look s (U @ cs @ [c]) = Some u" "u_body u = BDir"
    using d(1) by (auto simp: is_dir_at_def split: option.splits)
  have v: "valid_path (cs @ [c])" using wf_valid [OF wf, of "U @ cs @ [c]"] u(1) by simp
  obtain r0 where w: "walked t content U True [] UNIV s r0 s'"
    "Some (Inr changes) = map_option (map_sum (\<lambda>e. StatusErr Internal (''diff mount: '' @ etext pk e)) (sort_key ch_path)) r0"
    using diff_mount_walked [OF mt run] by blast
  obtain out where out: "r0 = Some (Inr out)" "changes = sort_key ch_path out" using w(2) by (cases r0; cases "the r0") auto
  have below: "look s (U @ (cs @ [c]) @ x # p) = None" for x p
  proof -
    have "look s ((U @ cs @ [c]) @ [x]) = None" using d(2) by (simp add: has_entries_iff)
    then have "look s ((U @ cs @ [c] @ [x]) @ p) = None"
      using wf_no_entries_below [OF wf, of "U @ cs @ [c] @ [x]" p] is_dir_look [of s "U @ cs @ [c] @ [x]"]
      by (cases "p = []") auto
    then show ?thesis by simp
  qed
  have here: "change_of t content s U (cs @ [c]) = None"
    using change_snoc [of cs s U c u t content] u d(3) by simp
  have none: "change_of t content s U ((cs @ [c]) @ p) = None" for p
    using here below change_at_node [of t content s U "(cs @ [c]) @ p"] by (cases p; fastforce)
  have pr: "prunable t content s U (cs @ [c])" using d(3) none by (simp add: prunable_def)
  have "\<exists>x p. U @ cs @ [c] = U @ [] @ x # p \<and> prunable t content s U ([] @ x # p)"
    using pr by (intro exI [of _ "hd (cs @ [c])"] exI [of _ "tl (cs @ [c])"]) simp
  then have gone: "look s' (U @ cs @ [c]) = None" using walked_look [OF w(1) rd out(1), of "U @ cs @ [c]"] by auto
  have wh': "look s' (U @ cs @ [wh c]) = None" using walked_frame [OF w(1), of "U @ cs @ [wh c]"] new(2) by auto
  have low: "lower_node st (of_comps (cs @ [c])) = None"
    using new(1) v by (simp add: lower_node_path [OF st(2)] lookup_tree_path_comps comps_of_comps del: valid_path_simps)
  have m: "mounted st U s" "mounted st U s'"
    using st(1) U wf walked_wf [OF w(1)] walked_dir [OF w(1)] by (simp_all add: mounted_def)
  have "is_dir_at s (U @ cs)" using wf_butlast_dir [OF wf, of "U @ cs @ [c]"] u(1) by (simp add: butlast_append)
  then have pl: "plain s (U @ cs)" by (rule dir_plain [OF wf])
  have "is_link_at s' k \<Longrightarrow> is_link_at s k" for k using walked_frame [OF w(1), of k] by (auto simp: is_link_at_def)
  then have pl': "plain s' (U @ cs)" using pl by (auto simp: plain_def)
  have "ch_path x \<noteq> of_comps (cs @ [c])" if x: "x \<in> set changes" for x
  proof
    assume p: "ch_path x = of_comps (cs @ [c])"
    obtain q where q: "change_of t content s U q = Some x"
      using x walked_out [OF w(1) rd out(1)] out(2) by auto
    from change_path_at [OF wf q p v] show False using q here change_at_node [OF q] new(2) by auto
  qed
  then have "of_comps (cs @ [c]) \<notin> ch_path ` set changes" by (metis image_iff)
  then show ?thesis
    using stat_entry [OF m(1), of cs c] stat_entry [OF m(2), of cs c] v pl pl' gone wh' low new(2) u(1)
    by (simp add: entry_none_iff)
qed

theorem prune_forgets_new_dirs_witness:
  "exists_pi (stat diff_state diff_host ''n'') \<and>
   \<not> exists_pi (stat diff_state (snd (diff_mount demo_mk ''m'' True diff_manager diff_host)) ''n'')"
proof -
  obtain s' where run: "diff_mount demo_mk ''m'' True diff_manager diff_host = (Some (Inr demo_changes), s')"
    using diff_pruned by (metis prod.collapse)
  have "fs_upper diff_state = abs_of [''u'']" "fs_lower diff_state = Some diff_tree"
    by (simp_all add: diff_state_def demo_state_def abs_of_def sep_def)
  moreover have "is_dir_at diff_host ([''u''] @ [] @ [''n''])" "\<not> has_entries diff_host ([''u''] @ [] @ [''n''])"
    "clean_names ([] @ [''n''])" "look diff_host ([''u''] @ [] @ [wh ''n'']) = None" "of_comps ([] @ [''n'']) = ''n''"
    by code_simp+
  moreover have "lookup_tree_path diff_tree (of_comps ([] @ [''n''])) = None" by code_simp
  ultimately show ?thesis
    using prune_forgets_new_dirs [OF diff_mounted diff_readable run] run by (metis snd_conv)
qed

end
