(* ===== verification/GoNet.thy ===== *)
theory GoNet
  imports ServiceBase GoText
begin

text \<open>
  The functions of package net that the control server uses to tell a local address from a public
  one: \<open>SplitHostPort\<close>, \<open>ParseIP\<close> and \<open>IP.IsLoopback\<close>. Errors of the parsers are \<open>None\<close>; an IP
  address is the list of its 16 bytes.
\<close>

section \<open>SplitHostPort\<close>

definition colon :: char where
  "colon = CHR '':''"

definition split_host_port :: "string \<Rightarrow> (string \<times> string) option" where
  "split_host_port hp =
     (case last_index colon hp of
        None \<Rightarrow> None
      | Some i \<Rightarrow>
          (let port = drop (Suc i) hp;
               finish = (\<lambda>host j k.
                 if CHR ''['' \<in> set (drop j hp) \<or> CHR '']'' \<in> set (drop k hp) then None
                 else Some (host, port)) in
           if hd hp = CHR ''['' then
             (case index_byte CHR '']'' hp of
                None \<Rightarrow> None
              | Some close \<Rightarrow>
                  if Suc close \<noteq> i then None
                  else finish (drop 1 (take close hp)) 1 (Suc close))
           else
             (let host = take i hp in if colon \<in> set host then None else finish host 0 0)))"

section \<open>ParseIP\<close>

text \<open>One decimal field of an IPv4 address: no leading zero, at most 255.\<close>

definition v4_field :: "string \<Rightarrow> int option" where
  "v4_field s =
     (if s = [] \<or> (length s > 1 \<and> hd s = CHR ''0'') then None
      else (case digits_val 0 s of None \<Rightarrow> None | Some v \<Rightarrow> if v > 255 then None else Some (int v)))"

definition parse_v4 :: "string \<Rightarrow> int list option" where
  "parse_v4 s =
     (case those (map v4_field (split_on CHR ''.'' s)) of
        None \<Rightarrow> None
      | Some fs \<Rightarrow> if length fs = 4 then Some fs else None)"

definition hex_val :: "char \<Rightarrow> int option" where
  "hex_val c =
     (let n = (of_char c :: int) in
      if 48 \<le> n \<and> n \<le> 57 then Some (n - 48)
      else if 97 \<le> n \<and> n \<le> 102 then Some (n - 87)
      else if 65 \<le> n \<and> n \<le> 70 then Some (n - 55)
      else None)"

definition hex_value :: "string \<Rightarrow> int" where
  "hex_value ds = fold (\<lambda>c acc. 16 * acc + (case hex_val c of Some v \<Rightarrow> v | None \<Rightarrow> 0)) ds 0"

text \<open>The loop over the groups of an IPv6 address: the bytes so far, where \<open>::\<close> was, and the text
  that is left. The result has the text that was not used.\<close>

function v6_groups :: "int list \<Rightarrow> nat option \<Rightarrow> string \<Rightarrow> (int list \<times> nat option \<times> string) option" where
  "v6_groups ip gap s =
     (if length ip \<ge> 16 then Some (ip, gap, s)
      else
        (let ds = takeWhile (\<lambda>c. hex_val c \<noteq> None) s; rest = dropWhile (\<lambda>c. hex_val c \<noteq> None) s;
             ip' = ip @ [hex_value ds div 256, hex_value ds mod 256] in
         if ds = [] \<or> length ds > 4 then None
         else (case rest of
                 [] \<Rightarrow> Some (ip', gap, [])
               | c # r \<Rightarrow>
                   if c = CHR ''.'' then
                     (if (gap = None \<and> length ip \<noteq> 12) \<or> length ip + 4 > 16 then None
                      else (case parse_v4 s of None \<Rightarrow> None | Some v \<Rightarrow> Some (ip @ v, gap, [])))
                   else if c \<noteq> colon \<or> r = [] then None
                   else if hd r = colon then
                     (if gap \<noteq> None then None
                      else if tl r = [] then Some (ip', Some (length ip'), [])
                      else v6_groups ip' (Some (length ip')) (tl r))
                   else v6_groups ip' gap r)))"
  by pat_completeness auto
termination
proof (relation "measure (\<lambda>(ip, gap, s). length s)", goal_cases)
  case (2 ip gap s ds rest ip' c r)
  then have "length (c # r) \<le> length s" by (metis length_dropWhile_le)
  with 2 show ?case by (cases r) auto
next
  case (3 ip gap s ds rest ip' c r)
  then have "length (c # r) \<le> length s" by (metis length_dropWhile_le)
  with 3 show ?case by auto
qed auto

declare v6_groups.simps [simp del]

definition parse_v6 :: "string \<Rightarrow> int list option" where
  "parse_v6 s0 =
     (let lead = prefix ''::'' s0; s = (if lead then drop 2 s0 else s0) in
      if lead \<and> s = [] then Some (replicate 16 0)
      else (case v6_groups [] (if lead then Some 0 else None) s of
              None \<Rightarrow> None
            | Some (ip, gap, rest) \<Rightarrow>
                if rest \<noteq> [] then None
                else if length ip < 16 then
                  (case gap of
                     None \<Rightarrow> None
                   | Some g \<Rightarrow> Some (take g ip @ replicate (16 - length ip) 0 @ drop g ip))
                else if gap \<noteq> None then None
                else Some ip))"

text \<open>\<open>ParseIP\<close> looks for the first dot, colon or percent sign; an address with a zone is refused.\<close>

definition v4_prefix :: "int list" where
  "v4_prefix = replicate 10 0 @ [255, 255]"

definition parse_ip :: "string \<Rightarrow> int list option" where
  "parse_ip s =
     (case dropWhile (\<lambda>c. c \<noteq> CHR ''.'' \<and> c \<noteq> colon \<and> c \<noteq> CHR ''%'') s of
        [] \<Rightarrow> None
      | c # _ \<Rightarrow>
          if c = CHR ''.'' then map_option ((@) v4_prefix) (parse_v4 s)
          else if c = colon then (if CHR ''%'' \<in> set s then None else parse_v6 s)
          else None)"

definition ip_is_loopback :: "int list \<Rightarrow> bool" where
  "ip_is_loopback ip \<longleftrightarrow>
     (if take 12 ip = v4_prefix then ip ! 12 = 127 else ip = replicate 15 0 @ [1])"

text \<open>Some addresses, as a check on the two parsers.\<close>

lemma parse_ip_examples:
  "parse_ip ''127.0.0.1'' = Some (v4_prefix @ [127, 0, 0, 1])"
  "parse_ip ''::1'' = Some (replicate 15 0 @ [1])"
  "parse_ip ''::ffff:127.0.0.1'' = Some (v4_prefix @ [127, 0, 0, 1])"
  "parse_ip ''fe80::1:2'' = Some ([254, 128] @ replicate 11 0 @ [1, 0, 2])"
  "parse_ip ''127.0.0.01'' = None" "parse_ip ''localhost'' = None" "parse_ip ''::1%lo'' = None"
  "parse_ip [] = None"
  by code_simp+

lemma split_host_port_plain:
  assumes "colon \<notin> set host" "CHR ''['' \<notin> set host" "CHR '']'' \<notin> set host"
    and "colon \<notin> set port" "CHR ''['' \<notin> set port" "CHR '']'' \<notin> set port"
  shows "split_host_port (host @ colon # port) = Some (host, port)"
proof -
  have "hd (host @ colon # port) \<noteq> CHR ''[''" using assms(2) by (cases host) (auto simp: colon_def)
  moreover have "CHR ''['' \<noteq> colon" "CHR '']'' \<noteq> colon" by (simp_all add: colon_def)
  ultimately show ?thesis using assms by (simp add: split_host_port_def last_index_snoc Let_def)
qed

end
