(* ===== verification/ControlServer.thy ===== *)
theory ControlServer
  imports GoNet FileService DiffUpper
begin

text \<open>
  The control server: who may call it (auth.go), where it listens (manager.go: \<open>parseControlAddr\<close>,
  \<open>isLoopbackAddr\<close>, \<open>startManagerServer\<close>), the handlers around the mount manager (manager.go:
  \<open>CreateMount\<close> to \<open>Shutdown\<close>, \<open>Probe\<close>), and what the host offers (runtime.go).

  gRPC and the listener are parameters: metadata is the function \<open>md.Get\<close> of an incoming context,
  \<open>None\<close> for a context without metadata.
\<close>

section \<open>Tokens\<close>

type_synonym metadata = "string \<Rightarrow> string list"

definition token_metadata_key :: string where
  "token_metadata_key = ''x-fvs2d-token''"

definition first_metadata :: "metadata \<Rightarrow> string \<Rightarrow> string" where
  "first_metadata md key = (case md key of [] \<Rightarrow> '''' | v # _ \<Rightarrow> v)"

text \<open>\<open>subtle.ConstantTimeCompare\<close>: the exclusive or of all pairs of bytes is zero.\<close>

definition constant_time_compare :: "bytes \<Rightarrow> bytes \<Rightarrow> int" where
  "constant_time_compare x y =
     (if length x \<noteq> length y then 0
      else if fold (\<lambda>(a, b) v. v OR ((of_char a :: 8 word) XOR of_char b)) (zip x y) 0 = 0 then 1 else 0)"

definition constant_time_equal :: "string \<Rightarrow> string \<Rightarrow> bool" where
  "constant_time_equal a b \<longleftrightarrow> (if length a \<noteq> length b then False else constant_time_compare a b = 1)"

text \<open>\<open>None\<close> is a call that may go on.\<close>

definition check_token :: "metadata option \<Rightarrow> string \<Rightarrow> gerror option" where
  "check_token ctx want =
     (case ctx of
        None \<Rightarrow> Some (StatusErr Unauthenticated ''missing control token'')
      | Some md \<Rightarrow>
          (let got = first_metadata md token_metadata_key;
               got' = (if got = '''' then trim_prefix ''Bearer '' (first_metadata md ''authorization'') else got) in
           if got' = '''' \<or> \<not> constant_time_equal got' want
           then Some (StatusErr Unauthenticated ''invalid control token'') else None))"

text \<open>A unary handler maps a request and the daemon's state to a reply and a state; a streaming
  handler has no reply but leaves messages on its stream, which is part of the state \<open>'s\<close>.\<close>

type_synonym ('req, 'resp, 's) handler = "'req \<Rightarrow> 's \<Rightarrow> (gerror + 'resp) \<times> 's"

definition token_unary_interceptor ::
    "string \<Rightarrow> metadata option \<Rightarrow> 'req \<Rightarrow> ('req, 'resp, 's) handler \<Rightarrow> 's \<Rightarrow> (gerror + 'resp) \<times> 's" where
  "token_unary_interceptor want ctx req h s =
     (case check_token ctx want of Some e \<Rightarrow> (Inl e, s) | None \<Rightarrow> h req s)"

definition token_stream_interceptor ::
    "string \<Rightarrow> metadata option \<Rightarrow> ('srv, unit, 's) handler \<Rightarrow> 'srv \<Rightarrow> 's \<Rightarrow> (gerror + unit) \<times> 's" where
  "token_stream_interceptor want ctx h srv s =
     (case check_token ctx want of Some e \<Rightarrow> (Inl e, s) | None \<Rightarrow> h srv s)"

section \<open>Addresses\<close>

definition parse_control_addr :: "string \<Rightarrow> gerror + string \<times> string" where
  "parse_control_addr addr =
     (if addr = '''' then Inl (Msg ''empty control address'')
      else if prefix ''unix:'' addr then Inr (''unix'', trim_prefix ''unix:'' addr)
      else if prefix ''tcp:'' addr then Inr (''tcp'', trim_prefix ''tcp:'' addr)
      else if prefix ''/'' addr then Inr (''unix'', addr)
      else Inr (''tcp'', addr))"

definition is_loopback_addr :: "string \<Rightarrow> bool" where
  "is_loopback_addr address \<longleftrightarrow>
     (let host = (case split_host_port address of None \<Rightarrow> address | Some (h, _) \<Rightarrow> h) in
      if host = ''localhost'' then True
      else (case parse_ip host of None \<Rightarrow> False | Some ip \<Rightarrow> ip_is_loopback ip))"

section \<open>Starting the server\<close>

record server_config =
  sc_insecure_tcp :: bool
  sc_token :: string

text \<open>A running server: its listener, and the token its interceptors want.\<close>

record server =
  sr_network :: string
  sr_address :: string
  sr_listener :: nat
  sr_token :: "string option"

record net_pkg =
  np_listen :: "string \<Rightarrow> string \<Rightarrow> nat call"
  np_close :: "nat \<Rightarrow> unit call"

text \<open>The options of the server, and the line that is logged.\<close>

definition server_options :: "string \<Rightarrow> string \<Rightarrow> server_config \<Rightarrow> gerror + string option \<times> string list" where
  "server_options network address cfg =
     (if network \<noteq> ''tcp'' then Inr (None, [])
      else
        (let loopback = is_loopback_addr address;
             warning = ''WARNING: control server listening on loopback TCP '' @ address @
               '' without a token; any local process can connect'';
             opts = (if sc_token cfg \<noteq> '''' then Some (sc_token cfg) else None) in
         if \<not> loopback then
           (if \<not> sc_insecure_tcp cfg then
              Inl (Msg (''control: refusing non-loopback TCP bind '' @ address @ '' without --insecure-tcp''))
            else if sc_token cfg = '''' then
              Inl (Msg (''control: refusing non-loopback TCP bind '' @ address @ '' without --token''))
            else Inr (opts, []))
         else if sc_token cfg = '''' then Inr (opts, [warning])
         else Inr (opts, [])))"

definition listen_on ::
    "net_pkg \<Rightarrow> string \<Rightarrow> string \<Rightarrow> string option \<Rightarrow> server call" where
  "listen_on net network address opts s =
     (case np_listen net network address s of
        (Inl e, s1) \<Rightarrow> (Inl (Wrap (''control: listen '' @ network @ '' '' @ address @ '': '') e), s1)
      | (Inr lis, s1) \<Rightarrow>
          (let srv = \<lparr>sr_network = network, sr_address = address, sr_listener = lis, sr_token = opts\<rparr> in
           if network \<noteq> ''unix'' then (Inr srv, s1)
           else (case sys_chmod address 0x180 s1 of
                   (Inl e, s2) \<Rightarrow>
                     (Inl (Wrap ''control: chmod socket: '' (Errno e)), snd (np_close net lis s2))
                 | (Inr _, s2) \<Rightarrow> (Inr srv, s2))))"

definition start_manager_server ::
    "net_pkg \<Rightarrow> string \<Rightarrow> server_config \<Rightarrow> os \<Rightarrow> (gerror + server) \<times> string list \<times> os" where
  "start_manager_server net addr cfg s =
     (case parse_control_addr addr of
        Inl e \<Rightarrow> (Inl e, [], s)
      | Inr (network, address) \<Rightarrow>
          (case (if network = ''unix'' then os_remove address s else (Inr (), s)) of
             (r, s1) \<Rightarrow>
               if (case r of Inl e \<Rightarrow> e \<noteq> ENOENT | Inr _ \<Rightarrow> False)
               then (Inl (Wrap ''control: remove stale socket: ''
                      (Errno (case r of Inl e \<Rightarrow> e | Inr _ \<Rightarrow> ENOENT))), [], s1)
               else (case server_options network address cfg of
                       Inl e \<Rightarrow> (Inl e, [], s1)
                     | Inr (opts, logged) \<Rightarrow>
                         (case listen_on net network address opts s1 of (r', s2) \<Rightarrow> (r', logged, s2)))))"

text \<open>A call on the running server goes through its interceptor.\<close>

definition serve_unary ::
    "server \<Rightarrow> metadata option \<Rightarrow> 'req \<Rightarrow> ('req, 'resp, 's) handler \<Rightarrow> 's \<Rightarrow> (gerror + 'resp) \<times> 's" where
  "serve_unary srv ctx req h s =
     (case sr_token srv of None \<Rightarrow> h req s | Some want \<Rightarrow> token_unary_interceptor want ctx req h s)"

definition serve_stream ::
    "server \<Rightarrow> metadata option \<Rightarrow> ('srv, unit, 's) handler \<Rightarrow> 'srv \<Rightarrow> 's \<Rightarrow> (gerror + unit) \<times> 's" where
  "serve_stream srv ctx h x s =
     (case sr_token srv of None \<Rightarrow> h x s | Some want \<Rightarrow> token_stream_interceptor want ctx h x s)"

end
