(* ===== verification/Daemon.thy ===== *)
theory Daemon
  imports ControlServer
begin

text \<open>
  The daemon around the parts: the handlers over the mount manager (manager.go: \<open>CreateMount\<close> to
  \<open>Shutdown\<close>, \<open>Probe\<close>), what the host offers (runtime.go), and the program's two ways to run, one
  mount or the mount manager (main.go: \<open>run\<close>, \<open>runManager\<close>).

  Parameters are the environment, the process id, the package versions, and the event that ends a
  wait. The output of the program is a list of lines.
\<close>

section \<open>What the host offers\<close>

record host_pkg =
  hp_getenv :: "string \<Rightarrow> string"
  hp_pid :: u32
  hp_min_format :: u32
  hp_current_format :: u32

definition detect_flatpak :: "host_pkg \<Rightarrow> os \<Rightarrow> bool" where
  "detect_flatpak hp s \<longleftrightarrow>
     (if hp_getenv hp ''FLATPAK_ID'' \<noteq> '''' then True
      else (case os_stat s ''/.flatpak-info'' of Inr _ \<Rightarrow> True | Inl _ \<Rightarrow> False))"

definition dev_fuse_accessible :: "os \<Rightarrow> bool \<times> os" where
  "dev_fuse_accessible s =
     (case sys_open ''/dev/fuse'' O_RDWR 0 s of
        (Inl _, s1) \<Rightarrow> (False, s1)
      | (Inr fd, s1) \<Rightarrow> (True, snd (os_close fd s1)))"

fun any_installed :: "mount_pkg \<Rightarrow> os \<Rightarrow> string list \<Rightarrow> bool" where
  "any_installed pk s [] = False"
| "any_installed pk s (cmd # cmds) =
     (case mk_look_path pk s cmd of Inr _ \<Rightarrow> True | Inl _ \<Rightarrow> any_installed pk s cmds)"

definition fusermount_available :: "mount_pkg \<Rightarrow> os \<Rightarrow> bool" where
  "fusermount_available pk s = any_installed pk s [''fusermount3'', ''fusermount'']"

section \<open>Handlers over the mount manager\<close>

record probe_response =
  pr_daemon_version :: string
  pr_pid :: u32
  pr_started_at :: int
  pr_fuse_backend :: bool
  pr_dev_fuse :: bool
  pr_fusermount :: bool
  pr_flatpak :: bool
  pr_api_version :: string
  pr_min_format :: u32
  pr_max_format :: u32
  pr_operations :: "string list"
  pr_work_dir :: "string option"

definition daemon_version :: string where "daemon_version = ''1''"
definition api_version :: string where "api_version = ''v1''"

definition supported_operations :: "string list" where
  "supported_operations =
     [''Probe'', ''InitRepository'', ''Commit'', ''CommitStream'', ''ListCommits'', ''GetCommit'',
      ''Restore'', ''RestoreStream'', ''ListFiles'', ''GetFile'', ''Diff'', ''DiffMount'',
      ''CreateMount'', ''GetMount'', ''ListMounts'', ''Unmount'', ''Shutdown'']"

definition probe :: "host_pkg \<Rightarrow> mount_pkg \<Rightarrow> path_guard \<Rightarrow> manager \<Rightarrow> os \<Rightarrow> probe_response \<times> os" where
  "probe hp pk g mgr s =
     (case dev_fuse_accessible s of
        (fuse_ok, s1) \<Rightarrow>
          (\<lparr>pr_daemon_version = daemon_version, pr_pid = hp_pid hp, pr_started_at = mg_started mgr,
             pr_fuse_backend = True, pr_dev_fuse = fuse_ok, pr_fusermount = fusermount_available pk s1,
             pr_flatpak = detect_flatpak hp s1, pr_api_version = api_version,
             pr_min_format = hp_min_format hp, pr_max_format = hp_current_format hp,
             pr_operations = supported_operations,
             pr_work_dir = (if guard_root g \<noteq> '''' then Some (guard_root g) else None)\<rparr>, s1))"

definition create_mount ::
    "mount_pkg \<Rightarrow> mount_spec option \<Rightarrow> manager \<Rightarrow> os \<Rightarrow> (gerror + mount_msg) \<times> manager \<times> os" where
  "create_mount pk spec mgr s =
     (case spec of None \<Rightarrow> (Inl (invalid ''spec is required''), mgr, s) | Some sp \<Rightarrow> create pk sp mgr s)"

definition get_mount :: "mount_pkg \<Rightarrow> string \<Rightarrow> manager \<Rightarrow> gerror + mount_msg" where
  "get_mount pk i mgr = get pk i mgr"

definition list_mounts_reply :: "manager \<Rightarrow> mount_msg list" where
  "list_mounts_reply mgr = list_mounts mgr"

datatype unmount_mode = UnmountNormal | UnmountLazy

definition unmount_call ::
    "mount_pkg \<Rightarrow> string \<Rightarrow> unmount_mode \<Rightarrow> manager \<Rightarrow> os \<Rightarrow> (gerror + unit) \<times> manager \<times> os" where
  "unmount_call pk i mode mgr s = unmount pk i (mode = UnmountLazy) mgr s"

text \<open>The channel of shutdown requests holds one; sending to the full channel does nothing.\<close>

definition request_shutdown :: "bool \<Rightarrow> bool option \<Rightarrow> bool option" where
  "request_shutdown lazy ch = (case ch of None \<Rightarrow> Some lazy | Some first \<Rightarrow> Some first)"

definition shutdown_call :: "unmount_mode \<Rightarrow> bool option \<Rightarrow> bool option" where
  "shutdown_call mode ch = request_shutdown (mode = UnmountLazy) ch"

section \<open>The mount manager as a process\<close>

record daemon =
  dm_mgr :: manager
  dm_guard :: path_guard
  dm_server :: server
  dm_shutdown :: "bool option"

text \<open>\<open>runManager\<close> up to its wait; with the lines that are printed.\<close>

definition start_daemon ::
    "net_pkg \<Rightarrow> string \<Rightarrow> string \<Rightarrow> server_config \<Rightarrow> os \<Rightarrow> (gerror + daemon) \<times> string list \<times> os" where
  "start_daemon net addr root cfg s =
     (case new_path_guard s root of
        Inl e \<Rightarrow> (Inl (Wrap ''root: '' e), [], s)
      | Inr guard \<Rightarrow>
          (let warned = (if guard_root guard = ''''
               then [''WARNING: no --root configured; the daemon will operate on arbitrary filesystem paths supplied by any client'']
               else []);
               mgr = new_mount_manager (Some guard) s in
           case start_manager_server net addr cfg s of
             (Inl e, logged, s1) \<Rightarrow> (Inl e, warned @ logged, s1)
           | (Inr srv, logged, s1) \<Rightarrow>
               (Inr \<lparr>dm_mgr = mgr, dm_guard = guard, dm_server = srv, dm_shutdown = None\<rparr>,
                warned @ logged @ [''manager: serving on '' @ addr], s1)))"

text \<open>The wait ends with a signal or with the request in the channel; the server is then stopped, and
  every mount detached.\<close>

datatype stop = Signal | ShutdownRequest

definition stop_daemon ::
    "mount_pkg \<Rightarrow> stop \<Rightarrow> daemon \<Rightarrow> os \<Rightarrow> ((string \<times> gerror) list \<times> daemon \<times> os) option" where
  "stop_daemon pk e d s =
     (case e of
        Signal \<Rightarrow>
          (case unmount_all pk False (dm_mgr d) s of (failed, mgr, s1) \<Rightarrow>
             Some (failed, d\<lparr>dm_mgr := mgr\<rparr>, s1))
      | ShutdownRequest \<Rightarrow>
          (case dm_shutdown d of
             None \<Rightarrow> None
           | Some lazy \<Rightarrow>
               (case unmount_all pk lazy (dm_mgr d) s of (failed, mgr, s1) \<Rightarrow>
                  Some (failed, d\<lparr>dm_mgr := mgr, dm_shutdown := None\<rparr>, s1))))"

section \<open>The program\<close>

record flags =
  rf_mount :: string
  rf_repo :: string
  rf_state :: string
  rf_branch :: string
  rf_lowers :: "string list"
  rf_upper :: string
  rf_blocks :: string
  rf_debug :: bool
  rf_probe :: bool
  rf_control :: string
  rf_root :: string
  rf_insecure_tcp :: bool
  rf_token :: string

fun resolve_lowers :: "repo_pkg \<Rightarrow> string list \<Rightarrow> gerror + resolved_commit list" where
  "resolve_lowers pkg [] = Inr []"
| "resolve_lowers pkg (l # ls) =
     (let sel = parse_layer_sel l in
      case resolve_layer pkg sel of
        Inl e \<Rightarrow> Inl (Wrap (''layer '' @ ls_repo sel @ '': '') e)
      | Inr rc \<Rightarrow> (case resolve_lowers pkg ls of Inl e \<Rightarrow> Inl e | Inr rcs \<Rightarrow> Inr (rc # rcs)))"

definition lower_tree :: "repo_pkg \<Rightarrow> flags \<Rightarrow> gerror + fs_tree" where
  "lower_tree pkg fl =
     (if rf_lowers fl \<noteq> [] then
        (case resolve_lowers pkg (rf_lowers fl) of
           Inl e \<Rightarrow> Inl e
         | Inr resolved \<Rightarrow> build_merged_tree pkg resolved (rf_blocks fl))
      else build_tree_from_repo pkg (rf_repo fl) (rf_state fl) (rf_branch fl) (rf_blocks fl))"

text \<open>The end of a run: the report of \<open>--probe\<close>, a manager that waits, or a mount that waits.\<close>

datatype started = Report "string list" | Managing daemon | Mounted nat fuse_state

definition bool_text :: "bool \<Rightarrow> string" where
  "bool_text b = (if b then ''true'' else ''false'')"

definition run_mount :: "mount_pkg \<Rightarrow> flags \<Rightarrow> os \<Rightarrow> (gerror + started) \<times> os" where
  "run_mount pk fl s =
     (case lower_tree (mk_repo pk s) fl of
        Inl e \<Rightarrow> (Inl e, s)
      | Inr tree \<Rightarrow>
          (case (if rf_upper fl \<noteq> '''' then os_mkdir_all (rf_upper fl) 0x1ED s else (Inr (), s)) of
             (Inl e, s1) \<Rightarrow> (Inl (Wrap ''upper dir: '' (Errno e)), s1)
           | (Inr _, s1) \<Rightarrow>
               (let root = new_fuse_root s1 (Some tree) (rf_upper fl) False in
                case mk_mount pk (rf_mount fl) root (rf_debug fl) s1 of
                  (Inl e, s2) \<Rightarrow> (Inl (Wrap ''mount: '' e), s2)
                | (Inr server, s2) \<Rightarrow> (Inr (Mounted server root), s2))))"

definition run ::
    "host_pkg \<Rightarrow> mount_pkg \<Rightarrow> net_pkg \<Rightarrow> flags \<Rightarrow> os \<Rightarrow> (gerror + started) \<times> string list \<times> os" where
  "run hp pk net fl s =
     (let flatpak = detect_flatpak hp s in
      case dev_fuse_accessible s of
        (dev_fuse, s1) \<Rightarrow>
          (let fmount = fusermount_available pk s1 in
           if rf_probe fl then
             (Inr (Report [''flatpak='' @ bool_text flatpak, ''dev_fuse_accessible='' @ bool_text dev_fuse,
                ''fusermount_available='' @ bool_text fmount]), [], s1)
           else if rf_mount fl = '''' then
             (if rf_control fl = '''' then
                (Inl (Msg ''--mount is required (or --control to run as a mount manager)''), [], s1)
              else
                (case start_daemon net (rf_control fl) (rf_root fl)
                     \<lparr>sc_insecure_tcp = rf_insecure_tcp fl, sc_token = rf_token fl\<rparr> s1 of
                   (Inl e, out, s2) \<Rightarrow> (Inl e, out, s2)
                 | (Inr d, out, s2) \<Rightarrow> (Inr (Managing d), out, s2)))
           else if rf_control fl \<noteq> '''' then
             (Inl (Msg ''--control cannot be combined with --mount; run the manager without --mount''), [], s1)
           else if \<not> dev_fuse \<or> \<not> fmount then
             (Inl (Msg (''cannot mount (dev_fuse_accessible='' @ bool_text dev_fuse @
                '' fusermount_available='' @ bool_text fmount @ '')'')), [], s1)
           else (case run_mount pk fl s1 of (r, s2) \<Rightarrow> (r, [], s2))))"

text \<open>The wait of a single mount: a signal unmounts it, or it ended by itself.\<close>

datatype mount_event = MountSignal | MountDone

definition end_mount :: "mount_pkg \<Rightarrow> nat \<Rightarrow> mount_event \<Rightarrow> unit call" where
  "end_mount pk server e s = (case e of MountSignal \<Rightarrow> mk_unmount pk server s | MountDone \<Rightarrow> (Inr (), s))"

text \<open>The exit code of the process and its last line.\<close>

definition exit_status :: "(gerror \<Rightarrow> string) \<Rightarrow> gerror + 'a \<Rightarrow> nat \<times> string" where
  "exit_status texts r = (case r of Inl e \<Rightarrow> (1, ''ERR: '' @ error_text texts e) | Inr _ \<Rightarrow> (0, ''''))"

end
