(* ===== verification/ControlProps.thy ===== *)
theory ControlProps
  imports Daemon OverlayProps
begin

text \<open>Properties of the control server: who may call it, and where it listens.\<close>

section \<open>Comparing tokens\<close>

lemma xor_zero: "a XOR b = 0 \<longleftrightarrow> a = b" for a b :: "'a :: len word"
  by (metis xor.assoc xor.right_neutral xor_self_eq)

lemma byte_inj: "(of_char a :: 8 word) = of_char b \<longleftrightarrow> a = b"
proof
  assume "(of_char a :: 8 word) = of_char b"
  then have "(of_nat (of_char a) :: 8 word) = of_nat (of_char b)" by (simp only: of_nat_of_char)
  then have "of_char a mod (256 :: nat) = of_char b mod 256"
    by (simp add: word_of_nat_eq_iff take_bit_eq_mod)
  then show "a = b" by simp
qed simp

lemma fold_xor_zero:
  "fold (\<lambda>(a, b) v. v OR ((of_char a :: 8 word) XOR of_char b)) ps v = 0 \<longleftrightarrow>
     v = 0 \<and> (\<forall>(a, b) \<in> set ps. a = b)"
  by (induction ps arbitrary: v) (auto simp: or_eq_0_iff xor_zero byte_inj)

lemma zip_same: "length x = length y \<Longrightarrow> (\<forall>(a, b) \<in> set (zip x y). a = b) \<longleftrightarrow> x = y"
  by (induction x y rule: list_induct2) auto

lemma constant_time_equal_iff: "constant_time_equal a b \<longleftrightarrow> a = b"
  using zip_same [of a b] by (auto simp: constant_time_equal_def constant_time_compare_def fold_xor_zero)

section \<open>Calls with and without the token\<close>

text \<open>The token that a call presents: the daemon's own header, else the bearer token.\<close>

definition presented :: "metadata option \<Rightarrow> string" where
  "presented ctx =
     (case ctx of None \<Rightarrow> '''' | Some md \<Rightarrow>
        if first_metadata md token_metadata_key \<noteq> '''' then first_metadata md token_metadata_key
        else trim_prefix ''Bearer '' (first_metadata md ''authorization''))"

lemma check_token_iff: "check_token ctx want = None \<longleftrightarrow> presented ctx = want \<and> want \<noteq> ''''"
  by (auto simp: check_token_def presented_def constant_time_equal_iff Let_def split: option.splits)

lemma check_token_refused: "check_token ctx want = Some e \<Longrightarrow> \<exists>m. e = StatusErr Unauthenticated m"
  by (auto simp: check_token_def Let_def split: option.splits if_splits)

text \<open>What is asked of an interceptor: with the right token it is the handler, else it refuses the call
  and leaves the state alone.\<close>

locale interceptor =
  fixes gate :: "metadata option \<Rightarrow> ('s \<Rightarrow> (gerror + 'r) \<times> 's) \<Rightarrow> 's \<Rightarrow> (gerror + 'r) \<times> 's"
    and want :: string
  assumes gate_eq: "gate ctx h s = (case check_token ctx want of Some e \<Rightarrow> (Inl e, s) | None \<Rightarrow> h s)"
begin

lemma admits: "want \<noteq> '''' \<Longrightarrow> presented ctx = want \<Longrightarrow> gate ctx h s = h s"
  using check_token_iff [of ctx want] by (simp add: gate_eq)

lemma refuses: "presented ctx \<noteq> want \<Longrightarrow> \<exists>m. gate ctx h s = (Inl (StatusErr Unauthenticated m), s)"
  using check_token_iff [of ctx want] check_token_refused [of ctx want]
  by (cases "check_token ctx want") (auto simp: gate_eq)

end

interpretation unary_gate: interceptor "\<lambda>ctx h s. token_unary_interceptor want ctx req (\<lambda>_. h) s" want
  for want req
  by unfold_locales (simp add: token_unary_interceptor_def)

interpretation stream_gate: interceptor "\<lambda>ctx h s. token_stream_interceptor want ctx (\<lambda>_. h) srv s" want
  for want srv
  by unfold_locales (simp add: token_stream_interceptor_def)

lemma token_unary_request: "token_unary_interceptor want ctx req h s = token_unary_interceptor want ctx req (\<lambda>_. h req) s"
  and token_stream_request: "token_stream_interceptor want ctx k srv s = token_stream_interceptor want ctx (\<lambda>_. k srv) srv s"
  by (simp_all add: token_unary_interceptor_def token_stream_interceptor_def)

lemma serve_unary_gate:
  assumes "sr_token srv = Some want" and "want \<noteq> ''''"
  shows "presented ctx = want \<Longrightarrow> serve_unary srv ctx req h s = h req s"
    and "presented ctx \<noteq> want \<Longrightarrow> \<exists>m. serve_unary srv ctx req h s = (Inl (StatusErr Unauthenticated m), s)"
  using unary_gate.admits [OF assms(2), of ctx req "h req" s] unary_gate.refuses [of ctx want req "h req" s]
  by (simp_all add: serve_unary_def assms(1) token_unary_request [of want ctx req h s])

lemma serve_stream_gate:
  assumes "sr_token srv = Some want" and "want \<noteq> ''''"
  shows "presented ctx = want \<Longrightarrow> serve_stream srv ctx h x s = h x s"
    and "presented ctx \<noteq> want \<Longrightarrow> \<exists>m. serve_stream srv ctx h x s = (Inl (StatusErr Unauthenticated m), s)"
  using stream_gate.admits [OF assms(2), of ctx "h x" x s] stream_gate.refuses [of ctx want "h x" x s]
  by (simp_all add: serve_stream_def assms(1) token_stream_request [of want ctx h x s])

section \<open>Starting\<close>

lemma start_parts:
  assumes "start_manager_server net addr cfg s = (Inr srv, logged, s')"
  obtains network address opts s1 where "parse_control_addr addr = Inr (network, address)"
    and "server_options network address cfg = Inr (opts, logged)"
    and "s1 = (if network = ''unix'' then snd (os_remove address s) else s)"
    and "listen_on net network address opts s1 = (Inr srv, s')"
  using assms
  by (auto simp: start_manager_server_def split: sum.splits prod.splits if_splits)

lemma listen_server:
  "listen_on net network address opts s = (Inr srv, s') \<Longrightarrow>
     sr_network srv = network \<and> sr_address srv = address \<and> sr_token srv = opts"
  by (auto simp: listen_on_def Let_def split: sum.splits prod.splits if_splits)

lemma options_public:
  "server_options ''tcp'' address cfg = Inr (opts, logged) \<Longrightarrow> \<not> is_loopback_addr address \<Longrightarrow>
     sc_insecure_tcp cfg \<and> sc_token cfg \<noteq> '''' \<and> opts = Some (sc_token cfg)"
  by (auto simp: server_options_def Let_def split: if_splits)

text \<open>A network whose listeners always come up; a Unix socket is a new node.\<close>

definition demo_net :: net_pkg where
  "demo_net =
     \<lparr>np_listen = (\<lambda>network address s.
        if network = ''unix'' then
          (case walk_path s False address of
             Inl e \<Rightarrow> (Inl (Errno e), s)
           | Inr q \<Rightarrow> (Inr 3, add_node s q 0x1ED (BOther 0xC000)))
        else (Inr 3, s)),
      np_close = (\<lambda>_ s. (Inr (), s))\<rparr>"

definition open_config :: server_config where
  "open_config = \<lparr>sc_insecure_tcp = True, sc_token = ''secret''\<rparr>"

text \<open>C17: a server that listens on TCP beyond the loopback interface was started with --insecure-tcp and
  a token, and serves no call that does not present this token: a unary or streaming call with
  another one, or without, is answered Unauthenticated before its handler runs; a call with the
  token is its handler.\<close>

theorem public_server_gated:
  assumes "start_manager_server net addr cfg s0 = (Inr srv, logged, s0')"
    and "sr_network srv = ''tcp''" and "\<not> is_loopback_addr (sr_address srv)"
  shows "sc_insecure_tcp cfg \<and> sc_token cfg \<noteq> '''' \<and>
    (presented ctx = sc_token cfg \<longrightarrow>
       serve_unary srv ctx req h s = h req s \<and> serve_stream srv ctx k x s = k x s) \<and>
    (presented ctx \<noteq> sc_token cfg \<longrightarrow>
       (\<exists>m. serve_unary srv ctx req h s = (Inl (StatusErr Unauthenticated m), s)) \<and>
       (\<exists>m. serve_stream srv ctx k x s = (Inl (StatusErr Unauthenticated m), s)))"
proof -
  obtain network address opts s1 where p: "server_options network address cfg = Inr (opts, logged)"
    "listen_on net network address opts s1 = (Inr srv, s0')"
    using start_parts [OF assms(1)] by metis
  note l = listen_server [OF p(2)]
  then have o: "sc_insecure_tcp cfg" "sc_token cfg \<noteq> ''''" "sr_token srv = Some (sc_token cfg)"
    using options_public [of address cfg opts logged] p(1) assms(2,3) by auto
  show ?thesis
    using o(1,2) serve_unary_gate [OF o(3,2), of ctx req h s] serve_stream_gate [OF o(3,2), of ctx k x s]
    by simp
qed

theorem public_server_gated_witness:
  "\<exists>srv. fst (start_manager_server demo_net ''tcp:0.0.0.0:80'' open_config demo_host) = Inr srv \<and>
     (\<exists>m. serve_unary srv (Some (\<lambda>k. [''guess''])) () (\<lambda>_ n. (Inr (), Suc n)) 0 = (Inl (StatusErr Unauthenticated m), 0))"
proof -
  obtain srv logged s' where run: "start_manager_server demo_net ''tcp:0.0.0.0:80'' open_config demo_host = (Inr srv, logged, s')"
    and srv: "srv = \<lparr>sr_network = ''tcp'', sr_address = ''0.0.0.0:80'', sr_listener = 3, sr_token = Some ''secret''\<rparr>"
  proof -
    have "start_manager_server demo_net ''tcp:0.0.0.0:80'' open_config demo_host =
        (Inr \<lparr>sr_network = ''tcp'', sr_address = ''0.0.0.0:80'', sr_listener = 3, sr_token = Some ''secret''\<rparr>, [], demo_host)"
      by code_simp
    then show ?thesis using that by blast
  qed
  have "\<not> is_loopback_addr ''0.0.0.0:80''" by code_simp
  then have n: "sr_network srv = ''tcp''" "\<not> is_loopback_addr (sr_address srv)" by (simp_all add: srv)
  have "presented (Some (\<lambda>k. [''guess''])) \<noteq> sc_token open_config" by code_simp
  then show ?thesis
    using public_server_gated [OF run n, of "Some (\<lambda>k. [''guess''])" "()" "\<lambda>_ n. (Inr (), Suc n)" 0
      "\<lambda>_ n. (Inr (), n)" "()"] run
    by auto
qed

section \<open>Where the server may listen\<close>

text \<open>Without --insecure-tcp, or without a token, the daemon does not listen on a TCP address beyond the
  loopback interface: starting fails, nothing is bound and the host is as before.\<close>

theorem public_bind_refused:
  assumes "parse_control_addr addr = Inr (''tcp'', address)" and "\<not> is_loopback_addr address"
    and "\<not> sc_insecure_tcp cfg \<or> sc_token cfg = ''''"
  shows "\<exists>m. \<forall>net s. start_manager_server net addr cfg s = (Inl (Msg m), [], s)"
  using assms by (auto simp: start_manager_server_def server_options_def Let_def)

theorem public_bind_refused_witness:
  "\<exists>m. \<forall>net s. start_manager_server net ''tcp:0.0.0.0:80'' \<lparr>sc_insecure_tcp = True, sc_token = ''''\<rparr> s = (Inl (Msg m), [], s)"
proof -
  have "parse_control_addr ''tcp:0.0.0.0:80'' = Inr (''tcp'', ''0.0.0.0:80'')" "\<not> is_loopback_addr ''0.0.0.0:80''"
    by code_simp+
  then show ?thesis by (rule public_bind_refused) simp
qed

lemma resolve_bodies:
  "(\<And>k. map_option u_body (lk' k) = map_option u_body (lk k)) \<Longrightarrow> resolve n follow lk' acc cs = resolve n follow lk acc cs"
proof (induction n follow lk acc cs rule: resolve.induct)
  case (2 n follow lk acc c cs)
  have same: "map_option u_body (lk' (acc @ [c])) = map_option u_body (lk (acc @ [c]))" by (rule "2.prems")
  show ?case
  proof (cases "lk (acc @ [c])")
    case None
    then have "lk' (acc @ [c]) = None" using same by simp
    then show ?thesis using None 2 by simp
  next
    case (Some x)
    then obtain y where "lk' (acc @ [c]) = Some y" "u_body y = u_body x" using same by auto
    then show ?thesis using Some 2 by (cases "u_body x") simp_all
  qed
qed simp

lemma walk_bodies:
  "(\<And>k. map_option u_body (look s' k) = map_option u_body (look s k)) \<Longrightarrow> os_cwd s' = os_cwd s \<Longrightarrow>
     walk_path s' follow p = walk_path s follow p"
  using resolve_bodies [of "look s'" "look s"] by (simp add: walk_path_def start_of_def)

lemma chmod_mode:
  assumes "sys_chmod p m s = (Inr (), s')"
  shows "\<exists>n. os_stat s' p = Inr n \<and> u_mode n = m AND 0xFFF"
  using assms [unfolded sys_chmod_def update_at_def]
proof (cases rule: faulty_cases)
  case (run fs)
  let ?t = "s\<lparr>os_faults := fs\<rparr>"
  obtain q n where q: "walk_path ?t True p = Inr q" "look ?t q = Some n"
    and s': "s' = set_node ?t q (n\<lparr>u_mode := m AND 0xFFF\<rparr>)"
    using run by (auto split: sum.splits option.splits)
  have "map_option u_body (look s' k) = map_option u_body (look ?t k)" for k
    using q(2) by (simp add: s' look_set_node)
  moreover have "os_cwd s' = os_cwd ?t" by (simp add: s' set_node_def)
  ultimately have "walk_path s' True p = Inr q" using walk_bodies [of s' ?t True p] q(1) by simp
  then show ?thesis by (simp add: os_stat_def node_at_def s' look_set_node)
qed auto

text \<open>A server on a Unix socket wants no token, and the socket is readable and writable for its owner
  only (mode 0600) when it starts to serve.\<close>

theorem unix_socket_private:
  assumes "start_manager_server net addr cfg s = (Inr srv, logged, s')" and "sr_network srv = ''unix''"
  shows "sr_token srv = None \<and> (\<exists>n. os_stat s' (sr_address srv) = Inr n \<and> u_mode n = 0x180)"
proof -
  obtain network address opts s1 where p: "server_options network address cfg = Inr (opts, logged)"
    "listen_on net network address opts s1 = (Inr srv, s')"
    using start_parts [OF assms(1)] by metis
  note l = listen_server [OF p(2)]
  obtain s2 where "sys_chmod address 0x180 s2 = (Inr (), s')"
    using p(2) l assms(2) by (auto simp: listen_on_def Let_def split: sum.splits prod.splits if_splits)
  then show ?thesis using chmod_mode l p(1) assms(2) by (fastforce simp: server_options_def)
qed

theorem unix_socket_private_witness:
  "\<exists>n. os_stat (snd (snd (start_manager_server demo_net ''unix:/u/s'' open_config demo_host))) ''/u/s'' = Inr n \<and> u_mode n = 0x180"
proof -
  have "sr_token (projr (fst (start_manager_server demo_net ''unix:/u/s'' open_config demo_host))) = None \<and>
      isl (fst (start_manager_server demo_net ''unix:/u/s'' open_config demo_host)) = False \<and>
      sr_address (projr (fst (start_manager_server demo_net ''unix:/u/s'' open_config demo_host))) = ''/u/s'' \<and>
      sr_network (projr (fst (start_manager_server demo_net ''unix:/u/s'' open_config demo_host))) = ''unix''"
    by code_simp
  then obtain srv logged s' where run: "start_manager_server demo_net ''unix:/u/s'' open_config demo_host = (Inr srv, logged, s')"
    "sr_address srv = ''/u/s''" "sr_network srv = ''unix''"
    by (cases "start_manager_server demo_net ''unix:/u/s'' open_config demo_host"; cases "fst (start_manager_server demo_net ''unix:/u/s'' open_config demo_host)") auto
  from unix_socket_private [OF run(1,3)] run show ?thesis by simp
qed

text \<open>Whatever file lies at the address of a Unix socket is deleted before the daemon listens, not only
  a stale socket.\<close>

theorem stale_socket_deletes_files:
  assumes "wf_os s" and "look s (q @ [c]) = Some n" and "u_body n = BReg data" and "quiet s"
  shows "\<exists>s1. look s1 = (look s)(q @ [c] := None) \<and>
    start_manager_server net (''unix:'' @ abs_of (q @ [c])) cfg s =
      (case listen_on net ''unix'' (abs_of (q @ [c])) None s1 of (r, s2) \<Rightarrow> (r, [], s2))"
proof -
  obtain r s1 where rm: "os_remove (abs_of (q @ [c])) s = (r, s1)" by force
  have p: "is_dir_at s q" "valid_name c" using wf_parent [OF assms(1), of q c] assms(2) by simp_all
  have "r = Inr () \<and> look s1 = (look s)(q @ [c] := None)"
    using remove_spec [OF assms(1) p rm] assms(2-4) by auto
  moreover have "parse_control_addr (''unix:'' @ a) = Inr (''unix'', a)" for a
    by (simp add: parse_control_addr_def trim_prefix_def)
  ultimately show ?thesis using rm
    by (intro exI [of _ s1]) (simp add: start_manager_server_def server_options_def)
qed

theorem stale_socket_deletes_files_witness:
  "look demo_host [''u'', ''d'', ''x''] = Some text_file \<and>
   (\<exists>s1. look s1 [''u'', ''d'', ''x''] = None \<and>
     snd (snd (start_manager_server demo_net ''unix:/u/d/x'' open_config demo_host)) =
       snd (listen_on demo_net ''unix'' ''/u/d/x'' None s1))"
proof -
  have x: "look demo_host ([''u'', ''d''] @ [''x'']) = Some text_file" "u_body text_file = BReg ''new''"
    "''unix:'' @ abs_of ([''u'', ''d''] @ [''x'']) = ''unix:/u/d/x''" "abs_of ([''u'', ''d''] @ [''x'']) = ''/u/d/x''"
    by code_simp+
  from stale_socket_deletes_files [OF mounted_wf [OF demo_mounted] x(1,2) demo_quiet(1), of demo_net open_config]
  obtain s1 where gone: "look s1 = (look demo_host)([''u'', ''d''] @ [''x''] := None)"
    and eq: "start_manager_server demo_net ''unix:/u/d/x'' open_config demo_host =
      (case listen_on demo_net ''unix'' ''/u/d/x'' None s1 of (r, s2) \<Rightarrow> (r, [], s2))"
    unfolding x(3) unfolding x(4) by blast
  have "snd (snd (case p of (r, s2) \<Rightarrow> (r, [], s2))) = snd p" for p :: "(gerror + server) \<times> os" by (cases p) simp
  then have "snd (snd (start_manager_server demo_net ''unix:/u/d/x'' open_config demo_host)) =
      snd (listen_on demo_net ''unix'' ''/u/d/x'' None s1)" unfolding eq .
  moreover have "look s1 [''u'', ''d'', ''x''] = None" unfolding gone by simp
  ultimately show ?thesis using x(1) by (metis append_Cons append_Nil)
qed

end
