(* ===== verification/LocalAddress.thy ===== *)
theory LocalAddress
  imports ControlServer
begin

text \<open>
  Which addresses the control server takes for local ones: the texts of IPv4 and IPv6 addresses,
  what \<open>ParseIP\<close> makes of them, and \<open>isLoopbackAddr\<close> for every host and port.
\<close>

section \<open>Which addresses are local\<close>

lemma itoa_nat_digits: "c \<in> set (itoa_nat n) \<Longrightarrow> digit_val c \<noteq> None"
proof (induction n rule: less_induct)
  case (less n)
  show ?case
  proof (cases "n < 10")
    case True
    then show ?thesis using less.prems by (simp add: itoa_nat.simps [of n])
  next
    case False
    then have "c \<in> set (itoa_nat (n div 10)) \<or> c = digit (n mod 10)"
      using less.prems by (subst (asm) itoa_nat.simps) auto
    then show ?thesis using less.IH [of "n div 10"] False by auto
  qed
qed

lemma itoa_nat_lead: "0 < n \<Longrightarrow> hd (itoa_nat n) \<noteq> CHR ''0''"
proof (induction n rule: less_induct)
  case (less n)
  show ?case
  proof (cases "n < 10")
    case True
    have "digit_val CHR ''0'' = Some 0" by (simp add: digit_val_def)
    then have "digit_val (digit n) \<noteq> digit_val CHR ''0''" using True less.prems by simp
    then have "digit n \<noteq> CHR ''0''" by metis
    then show ?thesis using True by (simp add: itoa_nat.simps [of n])
  next
    case False
    then show ?thesis using less.IH [of "n div 10"] itoa_nat_ne [of "n div 10"] by (subst itoa_nat.simps) simp
  qed
qed

lemma itoa_nat_no: "digit_val c = None \<Longrightarrow> c \<notin> set (itoa_nat n)"
  using itoa_nat_digits by blast

lemma no_digits: "digit_val CHR ''.'' = None" "digit_val colon = None" "digit_val CHR ''['' = None"
  "digit_val CHR '']'' = None" "digit_val CHR ''%'' = None"
  by (simp_all add: digit_val_def colon_def)

lemma v4_field_itoa: "n \<le> 255 \<Longrightarrow> v4_field (itoa_nat n) = Some (int n)"
  using itoa_nat_lead [of n] itoa_nat_ne [of n]
  by (cases "n = 0") (simp_all add: v4_field_def digits_val_itoa itoa_nat.simps)

definition quad :: "nat \<Rightarrow> nat \<Rightarrow> nat \<Rightarrow> nat \<Rightarrow> string" where
  "quad a b c d = join_with ''.'' (map itoa_nat [a, b, c, d])"

lemma parse_v4_quad:
  assumes "a \<le> 255" "b \<le> 255" "c \<le> 255" "d \<le> 255"
  shows "parse_v4 (quad a b c d) = Some [int a, int b, int c, int d]"
proof -
  have "split_on CHR ''.'' (quad a b c d) = map itoa_nat [a, b, c, d]"
    unfolding quad_def by (rule split_join) (auto dest: itoa_nat_no [OF no_digits(1), THEN notE])
  then show ?thesis using assms by (simp add: parse_v4_def v4_field_itoa)
qed

lemma dropWhile_dot: "CHR ''.'' \<notin> set x \<Longrightarrow> colon \<notin> set x \<Longrightarrow> CHR ''%'' \<notin> set x \<Longrightarrow>
    dropWhile (\<lambda>c. c \<noteq> CHR ''.'' \<and> c \<noteq> colon \<and> c \<noteq> CHR ''%'') (x @ CHR ''.'' # y) = CHR ''.'' # y"
  by (induction x) auto

lemma parse_ip_quad:
  assumes "a \<le> 255" "b \<le> 255" "c \<le> 255" "d \<le> 255"
  shows "parse_ip (quad a b c d) = Some (v4_prefix @ [int a, int b, int c, int d])"
proof -
  have "quad a b c d = itoa_nat a @ CHR ''.'' # join_with ''.'' (map itoa_nat [b, c, d])" by (simp add: quad_def)
  then have "dropWhile (\<lambda>c. c \<noteq> CHR ''.'' \<and> c \<noteq> colon \<and> c \<noteq> CHR ''%'') (quad a b c d) =
      CHR ''.'' # join_with ''.'' (map itoa_nat [b, c, d])"
    by (simp add: dropWhile_dot itoa_nat_no no_digits del: join_with.simps)
  then show ?thesis using parse_v4_quad [OF assms] by (simp add: parse_ip_def)
qed

lemma loopback_v4: "ip_is_loopback (v4_prefix @ [a, b, c, d]) \<longleftrightarrow> a = 127"
proof -
  have "length v4_prefix = 12" by (simp add: v4_prefix_def)
  then show ?thesis by (simp add: ip_is_loopback_def nth_append)
qed

lemma colon_ne: "colon \<noteq> CHR ''.''" by (simp add: colon_def)

lemma quad_chars: "digit_val x = None \<Longrightarrow> x \<noteq> CHR ''.'' \<Longrightarrow> x \<notin> set (quad a b c d)"
  by (simp add: quad_def itoa_nat_no)

text \<open>Only quads are IPv4 addresses.\<close>

lemma digit_val_char: "digit_val c = Some d \<Longrightarrow> d < 10 \<and> digit d = c"
  by (auto simp: digit_val_def digit_def Let_def split: if_splits)

lemma digits_val_itoa_nat:
  "digits_val 0 s = Some n \<Longrightarrow> s \<noteq> [] \<Longrightarrow> length s = 1 \<or> hd s \<noteq> CHR ''0'' \<Longrightarrow> s = itoa_nat n"
proof (induction s arbitrary: n rule: rev_induct)
  case (snoc c s)
  obtain m d where md: "digits_val 0 s = Some m" "digit_val c = Some d" "n = 10 * m + d"
    using snoc.prems(1) by (auto simp: digits_val_append split: option.splits)
  note d = digit_val_char [OF md(2)]
  show ?case
  proof (cases "s = []")
    case True
    then show ?thesis using md d by (simp add: itoa_nat.simps [of d])
  next
    case False
    then have "hd s \<noteq> CHR ''0''" using snoc.prems(3) by simp
    then have s: "s = itoa_nat m" using snoc.IH [OF md(1) False] by simp
    have "itoa_nat 0 = ''0''" by code_simp
    then have "m \<noteq> 0" using s \<open>hd s \<noteq> CHR ''0''\<close> by (metis list.sel(1))
    then show ?thesis using s md d by (simp add: itoa_nat.simps [of "10 * m + d"])
  qed
qed simp

lemma v4_field_text: "v4_field s = Some v \<Longrightarrow> \<exists>n \<le> 255. s = itoa_nat n \<and> v = int n"
  using digits_val_itoa_nat [of s]
  by (cases s; cases "tl s") (auto simp: v4_field_def simp del: digits_val.simps split: if_splits option.splits)

lemma those_text: "those (map v4_field ss) = Some vs \<Longrightarrow> \<exists>ns. (\<forall>n \<in> set ns. n \<le> 255) \<and> ss = map itoa_nat ns \<and> vs = map int ns"
proof (induction ss arbitrary: vs)
  case (Cons s ss)
  then obtain v vs' where v: "v4_field s = Some v" "those (map v4_field ss) = Some vs'" "vs = v # vs'"
    by (auto split: option.splits)
  obtain n ns where "n \<le> 255" "s = itoa_nat n" "v = int n" "\<forall>n \<in> set ns. n \<le> 255" "ss = map itoa_nat ns" "vs' = map int ns"
    using v4_field_text [OF v(1)] Cons.IH [OF v(2)] by blast
  then show ?case using v(3) by (intro exI [of _ "n # ns"]) simp
qed simp

lemma parse_v4_text:
  assumes "parse_v4 s = Some vs"
  shows "\<exists>a b c d. a \<le> 255 \<and> b \<le> 255 \<and> c \<le> 255 \<and> d \<le> 255 \<and> s = quad a b c d \<and> vs = [int a, int b, int c, int d]"
proof -
  obtain ns where ns: "\<forall>n \<in> set ns. n \<le> 255" "split_on CHR ''.'' s = map itoa_nat ns" "vs = map int ns" "length vs = 4"
    using assms those_text [of "split_on CHR ''.'' s" vs] by (auto simp: parse_v4_def split: option.splits if_splits)
  then obtain a b c d where "ns = [a, b, c, d]" by (auto simp: length_Suc_conv eval_nat_numeral)
  then show ?thesis using ns join_split [of "CHR ''.''" s] by (auto simp: quad_def)
qed

lemma parse_ip_no_colon:
  assumes "parse_ip s = Some ip" and "colon \<notin> set s"
  shows "\<exists>a b c d. a \<le> 255 \<and> b \<le> 255 \<and> c \<le> 255 \<and> d \<le> 255 \<and> s = quad a b c d \<and> ip = v4_prefix @ [int a, int b, int c, int d]"
proof -
  have "colon \<notin> set (dropWhile (\<lambda>c. c \<noteq> CHR ''.'' \<and> c \<noteq> colon \<and> c \<noteq> CHR ''%'') s)"
    using assms(2) set_dropWhileD by fast
  then obtain vs where "parse_v4 s = Some vs" "ip = v4_prefix @ vs"
    using assms(1) by (auto simp: parse_ip_def split: list.splits if_splits)
  then show ?thesis using parse_v4_text by blast
qed

text \<open>The text of a host and a port: brackets around a host with a colon.\<close>

definition host_port :: "string \<Rightarrow> string \<Rightarrow> string" where
  "host_port host port = (if colon \<in> set host then ''['' @ host @ '']'' else host) @ colon # port"

lemma split_host_port_text:
  assumes "CHR ''['' \<notin> set host" "CHR '']'' \<notin> set host"
  shows "split_host_port (host_port host (itoa_nat port)) = Some (host, itoa_nat port)"
proof -
  have p: "colon \<notin> set (itoa_nat port)" "CHR ''['' \<notin> set (itoa_nat port)" "CHR '']'' \<notin> set (itoa_nat port)"
    by (simp_all add: itoa_nat_no no_digits)
  show ?thesis
  proof (cases "colon \<in> set host")
    case True
    have "CHR '']'' \<notin> set xs \<Longrightarrow> index_byte CHR '']'' (xs @ CHR '']'' # ys) = Some (length xs)" for xs ys
      by (induction xs) auto
    from this [of "CHR ''['' # host" "colon # itoa_nat port"]
    have i: "index_byte CHR '']'' (CHR ''['' # host @ CHR '']'' # colon # itoa_nat port) = Some (Suc (length host))"
      using assms by simp
    have "last_index colon ((CHR ''['' # host @ '']'') @ colon # itoa_nat port) = Some (length (CHR ''['' # host @ '']''))"
      by (rule last_index_snoc [OF p(1)])
    then have l: "last_index colon (CHR ''['' # host @ CHR '']'' # colon # itoa_nat port) = Some (Suc (Suc (length host)))"
      by simp
    have t: "host_port host (itoa_nat port) = CHR ''['' # host @ CHR '']'' # colon # itoa_nat port"
      using True by (simp add: host_port_def)
    show ?thesis
      unfolding t split_host_port_def l using assms p i by (simp add: Let_def colon_def)
  next
    case False
    then show ?thesis using split_host_port_plain assms p by (simp add: host_port_def)
  qed
qed

section \<open>The text of an IPv6 address\<close>

definition hex_char :: "nat \<Rightarrow> char" where
  "hex_char n = ''0123456789abcdef'' ! n"

fun hex_text :: "nat \<Rightarrow> string" where
  "hex_text n = (if n < 16 then [hex_char n] else hex_text (n div 16) @ [hex_char (n mod 16)])"

declare hex_text.simps [simp del]

lemma hex_val_char: "n < 16 \<Longrightarrow> hex_val (hex_char n) = Some (int n)"
proof -
  have "\<forall>n \<in> set [0..<16]. hex_val (hex_char n) = Some (int n)" by code_simp
  then show "n < 16 \<Longrightarrow> ?thesis" by simp
qed

lemma hex_text_ne: "hex_text n \<noteq> []"
  by (subst hex_text.simps) simp

lemma hex_text_chars: "c \<in> set (hex_text n) \<Longrightarrow> hex_val c \<noteq> None"
proof (induction n rule: less_induct)
  case (less n)
  show ?case
  proof (cases "n < 16")
    case True
    then show ?thesis using less.prems hex_val_char by (simp add: hex_text.simps [of n])
  next
    case False
    then have "c \<in> set (hex_text (n div 16)) \<or> c = hex_char (n mod 16)"
      using less.prems by (subst (asm) hex_text.simps) auto
    then show ?thesis using less.IH [of "n div 16"] False hex_val_char [of "n mod 16"] by auto
  qed
qed

lemma hex_text_value: "hex_value (hex_text n) = int n"
proof (induction n rule: less_induct)
  case (less n)
  show ?case
  proof (cases "n < 16")
    case True
    then show ?thesis using hex_val_char by (simp add: hex_text.simps [of n] hex_value_def)
  next
    case False
    then have ih: "hex_value (hex_text (n div 16)) = int (n div 16)" using less.IH by simp
    have "hex_value (hex_text n) = 16 * hex_value (hex_text (n div 16)) + int (n mod 16)"
      using False hex_val_char [of "n mod 16"] by (subst hex_text.simps) (simp add: hex_value_def)
    also have "\<dots> = int (16 * (n div 16) + n mod 16)" unfolding ih by (simp only: of_nat_add of_nat_mult of_nat_numeral)
    also have "\<dots> = int n" by (rule arg_cong [OF mult_div_mod_eq])
    finally show ?thesis .
  qed
qed

lemma hex_text_length: "n < 16 ^ k \<Longrightarrow> 0 < k \<Longrightarrow> length (hex_text n) \<le> k"
proof (induction k arbitrary: n)
  case (Suc k)
  show ?case
  proof (cases "n < 16")
    case False
    then have "0 < k" using Suc.prems(1) by (cases k) auto
    moreover have "n div 16 < 16 ^ k" using Suc.prems(1) by (simp add: less_mult_imp_div_less mult.commute)
    ultimately show ?thesis using Suc.IH [of "n div 16"] False by (subst hex_text.simps) simp
  qed (subst hex_text.simps, simp)
qed simp

text \<open>A group of an address: the digits are taken off the text.\<close>

lemma hex_no: "hex_val colon = None" "hex_val CHR ''.'' = None" "hex_val CHR ''['' = None"
  "hex_val CHR '']'' = None" "hex_val CHR ''%'' = None"
  by code_simp+

lemma hex_text_no: "hex_val c = None \<Longrightarrow> c \<notin> set (hex_text n)"
  using hex_text_chars by blast

lemma take_hex:
  "\<forall>c \<in> set s. hex_val c \<noteq> None \<Longrightarrow> rest = [] \<or> hex_val (hd rest) = None \<Longrightarrow>
     takeWhile (\<lambda>c. hex_val c \<noteq> None) (s @ rest) = s \<and> dropWhile (\<lambda>c. hex_val c \<noteq> None) (s @ rest) = rest"
  by (induction s) (cases rest, auto)

definition group_bytes :: "nat \<Rightarrow> int list" where
  "group_bytes g = [int g div 256, int g mod 256]"

lemma v6_group:
  assumes "g < 65536" and "length ip < 16" and "rest = [] \<or> hd rest = colon"
  shows "v6_groups ip gap (hex_text g @ rest) =
    (let ip' = ip @ group_bytes g in
     case rest of
       [] \<Rightarrow> Some (ip', gap, [])
     | c # r \<Rightarrow>
         if r = [] then None
         else if hd r = colon then
           (if gap \<noteq> None then None
            else if tl r = [] then Some (ip', Some (length ip'), [])
            else v6_groups ip' (Some (length ip')) (tl r))
         else v6_groups ip' gap r)"
proof -
  have t: "takeWhile (\<lambda>c. hex_val c \<noteq> None) (hex_text g @ rest) = hex_text g \<and>
      dropWhile (\<lambda>c. hex_val c \<noteq> None) (hex_text g @ rest) = rest"
    using take_hex [of "hex_text g" rest] hex_text_chars assms(3) hex_no(1) by metis
  have "length (hex_text g) \<le> 4" using hex_text_length [of g 4] assms(1) by simp
  moreover have "colon \<noteq> CHR ''.''" by (simp add: colon_def)
  ultimately show ?thesis
    using t assms(2,3) hex_text_ne [of g] hex_text_value [of g]
    by (subst v6_groups.simps) (auto simp: Let_def group_bytes_def not_le split: list.split)
qed

text \<open>A run of groups, of which the last may be an IPv4 address.\<close>

type_synonym v4_tail = "(nat \<times> nat \<times> nat \<times> nat) option"

fun tail_texts :: "v4_tail \<Rightarrow> string list" where
  "tail_texts None = []"
| "tail_texts (Some (a, b, c, d)) = [quad a b c d]"

fun tail_bytes :: "v4_tail \<Rightarrow> int list" where
  "tail_bytes None = []"
| "tail_bytes (Some (a, b, c, d)) = [int a, int b, int c, int d]"

fun tail_ok :: "v4_tail \<Rightarrow> bool" where
  "tail_ok None \<longleftrightarrow> True"
| "tail_ok (Some (a, b, c, d)) \<longleftrightarrow> a \<le> 255 \<and> b \<le> 255 \<and> c \<le> 255 \<and> d \<le> 255"

definition run_text :: "nat list \<Rightarrow> v4_tail \<Rightarrow> string" where
  "run_text gs t = join_with [colon] (map hex_text gs @ tail_texts t)"

definition run_bytes :: "nat list \<Rightarrow> v4_tail \<Rightarrow> int list" where
  "run_bytes gs t = concat (map group_bytes gs) @ tail_bytes t"

definition run_ok :: "nat list \<Rightarrow> v4_tail \<Rightarrow> bool" where
  "run_ok gs t \<longleftrightarrow> (\<forall>g \<in> set gs. g < 65536) \<and> tail_ok t"

lemma run_Nil: "run_text [] t = (case t of None \<Rightarrow> [] | Some (a, b, c, d) \<Rightarrow> quad a b c d)"
  by (simp add: run_text_def split: option.splits)

lemma run_Cons:
  "run_text (g # gs) t = hex_text g @ (if gs = [] \<and> t = None then [] else colon # run_text gs t)"
  "run_bytes (g # gs) t = group_bytes g @ run_bytes gs t"
  "run_ok (g # gs) t \<longleftrightarrow> g < 65536 \<and> run_ok gs t"
  by (cases t; cases gs; force simp: run_text_def run_bytes_def run_ok_def)+

lemma itoa_nat_short: "n \<le> 255 \<Longrightarrow> length (itoa_nat n) \<le> 4"
  by (subst itoa_nat.simps, subst itoa_nat.simps, subst itoa_nat.simps, subst itoa_nat.simps) auto

lemma digit_hex: "digit_val c \<noteq> None \<Longrightarrow> hex_val c \<noteq> None"
proof -
  have "\<forall>d \<in> set [0..<10]. hex_val (digit d) \<noteq> None" by code_simp
  then show "digit_val c \<noteq> None \<Longrightarrow> ?thesis" using digit_val_char [of c] by force
qed

lemma quad_parts: "quad a b c d = itoa_nat a @ CHR ''.'' # join_with ''.'' (map itoa_nat [b, c, d])"
  by (simp add: quad_def)

lemma v6_quad:
  assumes "tail_ok (Some (a, b, c, d))" "length ip + 4 \<le> 16" "gap = None \<longrightarrow> length ip = 12"
  shows "v6_groups ip gap (quad a b c d) = Some (ip @ [int a, int b, int c, int d], gap, [])"
proof -
  have t: "takeWhile (\<lambda>c. hex_val c \<noteq> None) (quad a b c d) = itoa_nat a \<and>
      dropWhile (\<lambda>c. hex_val c \<noteq> None) (quad a b c d) = CHR ''.'' # join_with ''.'' (map itoa_nat [b, c, d])"
    unfolding quad_parts using itoa_nat_digits digit_hex hex_no(2) by (intro take_hex) auto
  show ?thesis
    using t assms itoa_nat_ne [of a] itoa_nat_short [of a] parse_v4_quad [of a b c d]
    by (subst v6_groups.simps) (cases gap; simp add: Let_def not_less)
qed

lemma run_hd: "gs \<noteq> [] \<or> t \<noteq> None \<Longrightarrow> run_text gs t \<noteq> [] \<and> hd (run_text gs t) \<noteq> colon"
proof (cases gs)
  case (Cons g gs')
  then show ?thesis
    using hex_text_ne [of g] hex_text_no [OF hex_no(1), of g] by (cases "hex_text g") (auto simp: run_Cons)
next
  case Nil
  assume "gs \<noteq> [] \<or> t \<noteq> None"
  moreover have "hd (itoa_nat n) \<noteq> colon" for n
    using hd_in_set [OF itoa_nat_ne] itoa_nat_no [OF no_digits(2)] by metis
  ultimately show ?thesis
    using Nil itoa_nat_ne by (cases t) (auto simp: run_Nil quad_parts)
qed

lemma v6_run:
  "run_ok gs t \<Longrightarrow> gs \<noteq> [] \<or> t \<noteq> None \<Longrightarrow> length ip + length (run_bytes gs t) \<le> 16 \<Longrightarrow>
   t \<noteq> None \<and> gap = None \<longrightarrow> length ip + length (run_bytes gs t) = 16 \<Longrightarrow>
     v6_groups ip gap (run_text gs t) = Some (ip @ run_bytes gs t, gap, [])"
proof (induction gs arbitrary: ip)
  case Nil
  then obtain a b c d where "t = Some (a, b, c, d)" by (cases t) auto
  then show ?case using Nil v6_quad [of a b c d ip gap] by (simp add: run_Nil run_bytes_def run_ok_def)
next
  case (Cons g gs)
  have l: "length (group_bytes g) = 2" by (simp add: group_bytes_def)
  show ?case
  proof (cases "gs = [] \<and> t = None")
    case True
    then show ?thesis
      using Cons.prems v6_group [of g ip "[]" gap] l by (simp add: run_Cons run_bytes_def [of "[]"])
  next
    case False
    then have r: "run_text gs t \<noteq> []" "hd (run_text gs t) \<noteq> colon" using run_hd by blast+
    have "v6_groups (ip @ group_bytes g) gap (run_text gs t) = Some ((ip @ group_bytes g) @ run_bytes gs t, gap, [])"
      by (rule Cons.IH) (use Cons.prems False l in \<open>auto simp: run_Cons\<close>)
    then show ?thesis
      using Cons.prems r False l v6_group [of g ip "colon # run_text gs t" gap]
      by (auto simp: run_Cons)
  qed
qed

lemma v6_run_gap:
  "run_ok gs None \<Longrightarrow> gs \<noteq> [] \<Longrightarrow> length ip + length (run_bytes gs None) \<le> 16 \<Longrightarrow>
     v6_groups ip None (run_text gs None @ colon # colon # r) =
       (let ip' = ip @ run_bytes gs None in
        if r = [] then Some (ip', Some (length ip'), []) else v6_groups ip' (Some (length ip')) r)"
proof (induction gs arbitrary: ip)
  case (Cons g gs)
  have l: "length (group_bytes g) = 2" by (simp add: group_bytes_def)
  show ?case
  proof (cases "gs = []")
    case True
    then show ?thesis
      using Cons.prems v6_group [of g ip "colon # colon # r" None] l by (simp add: run_Cons run_bytes_def [of "[]"] Let_def)
  next
    case False
    then have t: "run_text gs None \<noteq> []" "hd (run_text gs None) \<noteq> colon" using run_hd by blast+
    show ?thesis
      using Cons.prems Cons.IH [of "ip @ group_bytes g"] t False l
        v6_group [of g ip "colon # run_text gs None @ colon # colon # r" None]
      by (simp add: run_Cons Let_def)
  qed
qed simp

text \<open>The texts of an address: all its groups, or two runs around a gap of zeros.\<close>

inductive v6_denotes :: "string \<Rightarrow> int list \<Rightarrow> bool" where
  full: "run_ok gs t \<Longrightarrow> length (run_bytes gs t) = 16 \<Longrightarrow> v6_denotes (run_text gs t) (run_bytes gs t)"
| gap: "run_ok gs None \<Longrightarrow> run_ok hs t \<Longrightarrow> length (run_bytes gs None) + length (run_bytes hs t) < 16 \<Longrightarrow>
    v6_denotes (run_text gs None @ colon # colon # run_text hs t)
      (run_bytes gs None @ replicate (16 - length (run_bytes gs None) - length (run_bytes hs t)) 0 @ run_bytes hs t)"

lemma run_text_no: "hex_val c = None \<Longrightarrow> c \<noteq> colon \<Longrightarrow> c \<noteq> CHR ''.'' \<Longrightarrow> c \<notin> set (run_text gs t)"
proof (induction gs)
  case Nil
  have "digit_val c = None" using Nil digit_hex by blast
  then show ?case using Nil quad_chars by (auto simp: run_Nil split: option.splits)
qed (auto simp: run_Cons dest: hex_text_no [of c])

lemma run_first_colon:
  assumes "length gs + length (tail_texts t) > 1 \<or> r \<noteq> [] \<and> hd r = colon" "t \<noteq> None \<longrightarrow> gs \<noteq> []"
  shows "\<exists>y. dropWhile (\<lambda>c. c \<noteq> CHR ''.'' \<and> c \<noteq> colon \<and> c \<noteq> CHR ''%'') (run_text gs t @ r) = colon # y"
proof -
  have hex: "\<forall>c \<in> set (hex_text g). c \<noteq> CHR ''.'' \<and> c \<noteq> colon \<and> c \<noteq> CHR ''%''" for g
    using hex_text_no [OF hex_no(1)] hex_text_no [OF hex_no(2)] hex_text_no [OF hex_no(5)] by metis
  show ?thesis
  proof (cases gs)
    case Nil
    then show ?thesis using assms by (cases t; cases r) (auto simp: run_Nil)
  next
    case (Cons g gs')
    then show ?thesis
      using assms hex [of g] by (cases r; cases t) (auto simp: run_Cons dropWhile_append)
  qed
qed

lemma v6_parses: "v6_denotes s ip \<Longrightarrow> parse_v6 s = Some ip"
proof (induction rule: v6_denotes.induct)
  case (full gs t)
  then have ne: "gs \<noteq> [] \<or> t \<noteq> None" by (cases t) (auto simp: run_bytes_def)
  then have "\<not> prefix ''::'' (run_text gs t)"
    using run_hd [OF ne] by (cases "run_text gs t") (auto simp: colon_def)
  then show ?case
    using v6_run [OF full(1) ne, of "[]" None] full(2) by (simp add: parse_v6_def)
next
  case (gap gs hs t)
  let ?r = "run_text hs t" and ?n = "length (run_bytes gs None)"
  have r: "?r = [] \<longleftrightarrow> hs = [] \<and> t = None" using run_hd [of hs t] by (cases t; cases hs) (auto simp: run_Nil)
  have rest: "v6_groups ip (Some n) ?r = Some (ip @ run_bytes hs t, Some n, [])"
    if "?r \<noteq> []" "length ip + length (run_bytes hs t) \<le> 16" for ip n
    by (rule v6_run) (use gap(2) r that in auto)
  have nil: "run_bytes hs t = []" if "?r = []" using that r by (simp add: run_bytes_def)
  show ?case
  proof (cases "gs = []")
    case True
    then have "run_text gs None = []" "run_bytes gs None = []" by (simp_all add: run_Nil run_bytes_def)
    then show ?thesis
      using rest [of "[]" 0] nil gap(3) by (cases "?r = []") (auto simp: parse_v6_def colon_def)
  next
    case False
    then have "\<not> prefix ''::'' (run_text gs None @ colon # colon # ?r)"
      using run_hd [of gs None] by (cases "run_text gs None") (auto simp: colon_def)
    then show ?thesis
      using v6_run_gap [OF gap(1) False, of "[]" ?r] rest [of "run_bytes gs None" ?n] nil gap(3)
      by (cases "?r = []") (auto simp: parse_v6_def Let_def)
  qed
qed

lemma v6_denotes_chars:
  assumes "v6_denotes s ip"
  shows "CHR ''['' \<notin> set s \<and> CHR '']'' \<notin> set s \<and> CHR ''%'' \<notin> set s \<and>
    (\<exists>y. dropWhile (\<lambda>c. c \<noteq> CHR ''.'' \<and> c \<noteq> colon \<and> c \<noteq> CHR ''%'') s = colon # y)"
  using assms
proof (induction rule: v6_denotes.induct)
  case (full gs t)
  have "length (tail_bytes t) \<le> 4" by (cases t) auto
  moreover have "length (concat (map group_bytes gs)) = 2 * length gs" by (induction gs) (auto simp: group_bytes_def)
  ultimately have "length gs > 1" using full by (simp add: run_bytes_def)
  then have "\<exists>y. dropWhile (\<lambda>c. c \<noteq> CHR ''.'' \<and> c \<noteq> colon \<and> c \<noteq> CHR ''%'') (run_text gs t) = colon # y"
    using run_first_colon [of gs t "[]"] by fastforce
  then show ?case using run_text_no hex_no by (auto simp: colon_def)
next
  case (gap gs hs t)
  then show ?case
    using run_text_no run_first_colon [of gs None "colon # colon # run_text hs t"] hex_no by (auto simp: colon_def)
qed

lemma v6_parse_ip: "v6_denotes s ip \<Longrightarrow> parse_ip s = Some ip"
  using v6_parses [of s ip] v6_denotes_chars [of s ip] by (auto simp: parse_ip_def colon_def)

lemma v6_colon: "v6_denotes s ip \<Longrightarrow> colon \<in> set s"
  using v6_denotes_chars [of s ip] by (metis list.set_intros(1) set_dropWhileD)

lemma v6_length: "v6_denotes s ip \<Longrightarrow> length ip = 16"
  by (induction rule: v6_denotes.induct) simp_all

section \<open>Which addresses are local\<close>

lemma ip_loopback:
  "length ip = 16 \<Longrightarrow> ip_is_loopback ip \<longleftrightarrow>
     ip = replicate 15 0 @ [1] \<or> (\<exists>b c d. ip = replicate 10 0 @ [255, 255, 127, b, c, d])"
proof -
  assume "length ip = 16"
  then obtain a0 a1 a2 a3 a4 a5 a6 a7 a8 a9 a10 a11 a12 a13 a14 a15 where
    "ip = [a0, a1, a2, a3, a4, a5, a6, a7, a8, a9, a10, a11, a12, a13, a14, a15]"
    by (auto simp: length_Suc_conv eval_nat_numeral)
  then show ?thesis
    by (auto simp: ip_is_loopback_def v4_prefix_def eval_nat_numeral)
qed



end
