(* ===== verification/DaemonSteps.thy ===== *)
theory DaemonSteps
  imports ControlProps ManagerProps
begin

text \<open>
  The life of a daemon with a root: a transition system whose steps are the calls that change its
  state, the end of its wait, and whatever else happens on the host in between. Every live mount
  stays inside the root.
\<close>

section \<open>Steps\<close>

definition host_ok :: "os \<Rightarrow> bool" where
  "host_ok s \<longleftrightarrow> wf_os s \<and> wf_cwd s"

datatype daemon_event =
  CreateCall "mount_spec option" | UnmountCall string unmount_mode | ShutdownCall unmount_mode | Stopped stop | Host

inductive daemon_step :: "mount_pkg \<Rightarrow> daemon \<times> os \<Rightarrow> daemon_event \<Rightarrow> daemon \<times> os \<Rightarrow> bool" for pk where
  create_call: "create_mount pk spec (dm_mgr d) s = (r, mgr, t) \<Longrightarrow> host_ok t \<Longrightarrow>
    daemon_step pk (d, s) (CreateCall spec) (d\<lparr>dm_mgr := mgr\<rparr>, t)"
| unmount_call: "unmount_call pk i mode (dm_mgr d) s = (r, mgr, t) \<Longrightarrow> host_ok t \<Longrightarrow>
    daemon_step pk (d, s) (UnmountCall i mode) (d\<lparr>dm_mgr := mgr\<rparr>, t)"
| shutdown_call: "daemon_step pk (d, s) (ShutdownCall mode) (d\<lparr>dm_shutdown := shutdown_call mode (dm_shutdown d)\<rparr>, s)"
| stopped: "stop_daemon pk e d s = Some (failed, d', t) \<Longrightarrow> host_ok t \<Longrightarrow> daemon_step pk (d, s) (Stopped e) (d', t)"
| host: "host_ok t \<Longrightarrow> daemon_step pk (d, s) Host (d, t)"

inductive_cases daemon_stepE: "daemon_step pk S e T"

text \<open>A daemon that \<open>runManager\<close> just started with this root.\<close>

definition daemon_started :: "net_pkg \<Rightarrow> string \<Rightarrow> string \<Rightarrow> server_config \<Rightarrow> os \<Rightarrow> daemon \<times> os \<Rightarrow> bool" where
  "daemon_started net addr root cfg s0 S \<longleftrightarrow>
     (\<exists>out. start_daemon net addr root cfg s0 = (Inr (fst S), out, snd S)) \<and> host_ok (snd S)"

section \<open>Inside the root\<close>

definition inside :: "path \<Rightarrow> string \<Rightarrow> bool" where
  "inside rs p \<longleftrightarrow> (\<exists>cs. valid_path cs \<and> p = abs_of cs \<and> prefix rs cs)"

text \<open>The mount point, the repositories of the layers and the upper directory, if there is one.\<close>

definition mount_inside :: "path \<Rightarrow> mount \<Rightarrow> bool" where
  "mount_inside rs m \<longleftrightarrow>
     inside rs (mt_point m) \<and> (\<forall>r \<in> set (mt_resolved m). inside rs (rl_repository_path r)) \<and>
     (mt_upper m \<noteq> '''' \<longrightarrow> inside rs (mt_upper m))"

definition confined :: "path \<Rightarrow> daemon \<times> os \<Rightarrow> bool" where
  "confined rs S \<longleftrightarrow>
     host_ok (snd S) \<and> guard_root (mg_guard (dm_mgr (fst S))) = abs_of rs \<and>
     (\<forall>(i, m) \<in> set (mg_mounts (dm_mgr (fst S))). mount_inside rs m)"

lemma check_inside:
  assumes "host_ok s" and "guard_root g = abs_of rs" and "valid_path rs" and "rs \<noteq> []"
    and "check g s p = Inr c" and "p \<noteq> ''''"
  shows "inside rs c"
  using check_iff [of s g rs p c] assms by (auto simp: host_ok_def inside_def)

section \<open>The steps keep mounts inside\<close>

lemma release_tree_guard [simp]: "mg_guard (release_tree key mgr) = mg_guard mgr"
  by (simp add: release_tree_def Let_def split: option.splits)

lemma unmount_mounts:
  "unmount pk i lazy mgr s = (r, mgr', t) \<Longrightarrow> set (mg_mounts mgr') \<subseteq> set (mg_mounts mgr) \<and> mg_guard mgr' = mg_guard mgr"
  by (auto simp: unmount_def Let_def take_mount_def release_mount_caches_def AList.delete_eq
      split: option.splits prod.splits sum.splits)

lemma sweep_keeps:
  "sweep pk lazy ms mgr s = (failed, mgr', t) \<Longrightarrow> mg_mounts mgr' = mg_mounts mgr \<and> mg_guard mgr' = mg_guard mgr"
  by (induction ms arbitrary: mgr s failed) (auto simp: Let_def release_mount_caches_def split: prod.splits)

lemma update_entries: "(j, x) \<in> set (AList.update k v al) \<Longrightarrow> (j, x) \<in> set al \<or> (j, x) = (k, v)"
  by (induction al) (auto split: if_splits)

lemma list_all2_right: "list_all2 P xs ys \<Longrightarrow> y \<in> set ys \<Longrightarrow> \<exists>x. P x y"
  by (induction rule: list_all2_induct) auto

lemma create_mounts:
  assumes ok: "host_ok s" and g: "guard_root (mg_guard mgr) = abs_of rs" "valid_path rs" "rs \<noteq> []"
    and run: "create pk spec mgr s = (r, mgr', t)" and old: "\<forall>(i, m) \<in> set (mg_mounts mgr). mount_inside rs m"
  shows "mg_guard mgr' = mg_guard mgr \<and> (\<forall>(i, m) \<in> set (mg_mounts mgr'). mount_inside rs m)"
  using run
proof (cases rule: create_cases)
  case (failed e rcs key tree mgr1)
  then show ?thesis using acquire_runs [OF failed(2), of "{#}"] old by simp
next
  case (made point rcs key tree mgr1 m)
  note a = acquire_runs [OF made(3), of "{#}"]
  obtain m' where m': "map_of (mg_mounts mgr') (mm_id (proto m)) = Some m'"
    "check (mg_guard mgr) s (sp_mount_point spec) = Inr (mt_point m')" "mt_spec m' = spec"
    "list_all2 (\<lambda>l r. lm_repo l \<noteq> '''' \<and> check (mg_guard mgr) s (lm_repo l) = Inr (rl_repository_path r))
      (sp_layers spec) (mt_resolved m')"
    "if sp_upper_path spec = '''' then mt_upper m' = '''' else check (mg_guard mgr) s (sp_upper_path spec) = Inr (mt_upper m')"
    using create_checked [OF run [unfolded made(1)]] by blast
  have eq: "m' = m" using m'(1) made(5) by (simp add: proto_def register_def update_conv')
  have "sp_mount_point spec \<noteq> ''''" using prepare_checked [OF made(2)] by blast
  then have point: "inside rs (mt_point m')" by (rule check_inside [OF ok g m'(2)])
  have upper: "inside rs (mt_upper m')" if u: "mt_upper m' \<noteq> ''''"
  proof (cases "sp_upper_path spec = ''''")
    case True
    then show ?thesis using m'(5) u by simp
  next
    case False
    then have "check (mg_guard mgr) s (sp_upper_path spec) = Inr (mt_upper m')" using m'(5) by simp
    then show ?thesis by (rule check_inside [OF ok g _ False])
  qed
  have "inside rs (rl_repository_path r)" if r: "r \<in> set (mt_resolved m')" for r
  proof -
    obtain l :: layer_msg where l: "lm_repo l \<noteq> ''''" "check (mg_guard mgr) s (lm_repo l) = Inr (rl_repository_path r)"
      using list_all2_right [OF m'(4) r] by blast
    show ?thesis by (rule check_inside [OF ok g l(2,1)])
  qed
  then have "mount_inside rs m" using point upper unfolding eq mount_inside_def by blast
  moreover have "mg_mounts mgr' = AList.update (mt_id m) m (mg_mounts mgr)" "mg_guard mgr' = mg_guard mgr"
    using a made(5) by (simp_all add: register_def)
  ultimately show ?thesis using old update_entries by fastforce
qed (use old in auto)

lemma started_confined:
  assumes "daemon_started net addr root cfg s0 S" and "host_ok s0" and "root \<noteq> ''''"
    and "canonicalize_path s0 root = Inr (abs_of rs)"
  shows "confined rs S"
  using assms
  by (cases S) (auto simp: daemon_started_def start_daemon_def confined_def new_path_guard_def new_mount_manager_def Let_def
      split: sum.splits prod.splits if_splits)

lemma step_confined:
  assumes rs: "valid_path rs" "rs \<noteq> []" and step: "daemon_step pk S e T" and inv: "confined rs S"
  shows "confined rs T"
  using step
proof (cases rule: daemon_step.cases)
  case (create_call spec d s r mgr t)
  show ?thesis
  proof (cases spec)
    case None
    then show ?thesis using create_call inv by (auto simp: confined_def create_mount_def)
  next
    case (Some sp)
    then have "create pk sp (dm_mgr d) s = (r, mgr, t)" using create_call by (simp add: create_mount_def)
    from create_mounts [OF _ _ rs this] show ?thesis using inv create_call by (auto simp: confined_def)
  qed
next
  case (unmount_call i mode d s r mgr t)
  then have "unmount pk i (mode = UnmountLazy) (dm_mgr d) s = (r, mgr, t)" by (simp add: unmount_call_def)
  from unmount_mounts [OF this] show ?thesis using inv unmount_call by (auto simp: confined_def)
next
  case (stopped ev d s failed d' t)
  then show ?thesis
    using inv sweep_keeps
    by (fastforce simp: confined_def stop_daemon_def unmount_all_def split: stop.splits option.splits prod.splits)
qed (use inv in \<open>auto simp: confined_def\<close>)

text \<open>The transition system of a daemon whose root has the canonical form \<open>rs\<close>.\<close>

definition started_at :: "path \<Rightarrow> daemon \<times> os \<Rightarrow> bool" where
  "started_at rs S \<longleftrightarrow> valid_path rs \<and> rs \<noteq> [] \<and>
     (\<exists>net addr root cfg s0. daemon_started net addr root cfg s0 S \<and> host_ok s0 \<and> root \<noteq> '''' \<and>
        canonicalize_path s0 root = Inr (abs_of rs))"

interpretation daemon_system: invariant_system "started_at rs" "daemon_step pk"
    "\<lambda>S. valid_path rs \<and> rs \<noteq> [] \<and> confined rs S" for rs pk
  by unfold_locales (auto simp: started_at_def intro: started_confined step_confined)

text \<open>C2: a daemon that was started with a root other than the top directory never has a mount outside it:
  whatever calls it gets, and whatever happens on the host in between, the mount point of every live
  mount, the repositories of its layers and its upper directory are paths below the canonical form
  of the root.\<close>

theorem daemon_confined:
  assumes "reachable (started_at rs) (daemon_step pk) (d, s)" and "(i, m) \<in> set (mg_mounts (dm_mgr d))"
  shows "mount_inside rs m"
  using daemon_system.reachable_inv [OF assms(1)] assms(2) by (auto simp: confined_def)

text \<open>A daemon with the root \<open>/box\<close> that made one mount.\<close>

definition boxed_spec :: mount_spec where
  "boxed_spec = demo_spec\<lparr>sp_layers := [\<lparr>lm_repo = ''/box/r'', lm_revision = Some (SelState ''s1'')\<rparr>], sp_upper_path := ''''\<rparr>"

definition boxed_start :: "(gerror + daemon) \<times> string list \<times> os" where
  "boxed_start = start_daemon demo_net ''tcp:localhost:1'' ''/box'' open_config guard_os"

definition boxed_daemon :: daemon where
  "boxed_daemon = projr (fst boxed_start)"

theorem daemon_confined_witness:
  "\<exists>mgr t m. create_mount demo_mk (Some boxed_spec) (dm_mgr boxed_daemon) guard_os = (Inr (proto m), mgr, t) \<and>
     mount_inside [''box''] m"
proof -
  have st: "isl (fst boxed_start) = False" "snd (snd boxed_start) = guard_os"
    and canon: "canonicalize_path guard_os ''/box'' = Inr (abs_of [''box''])" and v: "valid_path [''box'']"
    and cwd: "wf_cwd guard_os" by code_simp+
  obtain out where run: "start_daemon demo_net ''tcp:localhost:1'' ''/box'' open_config guard_os = (Inr boxed_daemon, out, guard_os)"
    using st unfolding boxed_daemon_def boxed_start_def by (metis prod.collapse sum.collapse(2))
  have ok: "host_ok guard_os" using wf_guard_os cwd by (simp add: host_ok_def)
  have "started_at [''box''] (boxed_daemon, guard_os)"
    unfolding started_at_def daemon_started_def using run ok v canon by fastforce
  then have r0: "reachable (started_at [''box'']) (daemon_step demo_mk) (boxed_daemon, guard_os)" by (rule reach_start)
  have "isl (fst (create demo_mk boxed_spec (dm_mgr boxed_daemon) guard_os)) = False" by code_simp
  then obtain msg mgr t where c: "create demo_mk boxed_spec (dm_mgr boxed_daemon) guard_os = (Inr msg, mgr, t)"
    by (cases "create demo_mk boxed_spec (dm_mgr boxed_daemon) guard_os"; cases "fst (create demo_mk boxed_spec (dm_mgr boxed_daemon) guard_os)") auto
  from create_checked [OF c] obtain m where m: "map_of (mg_mounts mgr) (mm_id msg) = Some m" "proto m = msg" by blast
  have "snd (snd (create demo_mk boxed_spec (dm_mgr boxed_daemon) guard_os)) = guard_os" by code_simp
  then have t: "host_ok t" using c ok by simp
  have "create_mount demo_mk (Some boxed_spec) (dm_mgr boxed_daemon) guard_os = (Inr msg, mgr, t)"
    using c by (simp add: create_mount_def)
  from reach_step [OF r0 daemon_step.create_call [OF this t]]
  have "reachable (started_at [''box'']) (daemon_step demo_mk) (boxed_daemon\<lparr>dm_mgr := mgr\<rparr>, t)" .
  from daemon_confined [OF this, of "mm_id msg" m] m show ?thesis
    using c map_of_SomeD [OF m(1)] by (auto simp: create_mount_def)
qed

end
