(* ===== verification/GoFlag.thy ===== *)
theory GoFlag
  imports GoText
begin

text \<open>
  Package flag, as far as main.go uses it: the command line is read flag by flag into a table of
  setters (\<open>FlagSet.Parse\<close> with \<open>ExitOnError\<close>), with \<open>strconv.ParseBool\<close> and
  \<open>strconv.ParseInt\<close> in base 0 for the values. \<open>'f\<close> is what the variables of the flags hold.
\<close>

section \<open>Values\<close>

definition parse_bool :: "string \<Rightarrow> bool option" where
  "parse_bool s =
     (if s \<in> set [''1'', ''t'', ''T'', ''true'', ''TRUE'', ''True''] then Some True
      else if s \<in> set [''0'', ''f'', ''F'', ''false'', ''FALSE'', ''False''] then Some False
      else None)"

text \<open>\<open>lower(c)\<close> of package strconv: the bit that tells a small letter is set.\<close>

definition lower_char :: "char \<Rightarrow> int" where
  "lower_char c = of_char c + (if (of_char c div 32) mod 2 = (0 :: int) then 32 else 0)"

definition digit_of :: "char \<Rightarrow> int option" where
  "digit_of c =
     (if 48 \<le> (of_char c :: int) \<and> (of_char c :: int) \<le> 57 then Some (of_char c - 48)
      else if 97 \<le> lower_char c \<and> lower_char c \<le> 122 then Some (lower_char c - 97 + 10)
      else None)"

text \<open>The prefix of a number in base 0 and what follows it.\<close>

fun base_of :: "string \<Rightarrow> int \<times> string" where
  "base_of (x # y # z # zs) =
     (if x = CHR ''0'' then
        (if lower_char y = 98 then (2, z # zs)
         else if lower_char y = 111 then (8, z # zs)
         else if lower_char y = 120 then (16, z # zs)
         else (8, y # z # zs))
      else (10, x # y # z # zs))"
| "base_of (x # xs) = (if x = CHR ''0'' then (8, xs) else (10, x # xs))"
| "base_of [] = (10, [])"

fun uint_digits :: "int \<Rightarrow> int \<Rightarrow> string \<Rightarrow> int option" where
  "uint_digits base n [] = Some n"
| "uint_digits base n (c # cs) =
     (if c = CHR ''_'' then uint_digits base n cs
      else (case digit_of c of
              None \<Rightarrow> None
            | Some d \<Rightarrow>
                if d \<ge> base then None
                else if n * base + d \<ge> 2 ^ 64 then None
                else uint_digits base (n * base + d) cs))"

text \<open>\<open>underscoreOK\<close>: underscores only between digits, or between a base prefix and a digit. \<open>seen\<close> is the
  code's \<open>i\<close>: \<open>'^'\<close> at the start, \<open>'0'\<close> after a digit or a prefix, \<open>'_'\<close> after an underscore, \<open>'!'\<close>
  after anything else.\<close>

fun underscores_ok :: "bool \<Rightarrow> char \<Rightarrow> string \<Rightarrow> bool" where
  "underscores_ok hex seen [] = (seen \<noteq> CHR ''_'')"
| "underscores_ok hex seen (c # cs) =
     (if (48 \<le> (of_char c :: int) \<and> (of_char c :: int) \<le> 57) \<or> (hex \<and> 97 \<le> lower_char c \<and> lower_char c \<le> 102)
      then underscores_ok hex (CHR ''0'') cs
      else if c = CHR ''_'' then seen = CHR ''0'' \<and> underscores_ok hex (CHR ''_'') cs
      else seen \<noteq> CHR ''_'' \<and> underscores_ok hex (CHR ''!'') cs)"

definition underscore_ok :: "string \<Rightarrow> bool" where
  "underscore_ok s =
     (case s of
        x # y # zs \<Rightarrow>
          if x = CHR ''0'' \<and> lower_char y \<in> set [98, 111, 120]
          then underscores_ok (lower_char y = 120) (CHR ''0'') zs
          else underscores_ok False (CHR ''^'') s
      | _ \<Rightarrow> underscores_ok False (CHR ''^'') s)"

definition parse_uint0 :: "string \<Rightarrow> int option" where
  "parse_uint0 s =
     (if s = '''' then None
      else (case base_of s of (base, ds) \<Rightarrow>
              (case uint_digits base 0 ds of
                 None \<Rightarrow> None
               | Some n \<Rightarrow> if CHR ''_'' \<in> set ds \<and> \<not> underscore_ok s then None else Some n)))"

definition parse_int0 :: "string \<Rightarrow> int option" where
  "parse_int0 s =
     (case s of
        [] \<Rightarrow> None
      | c # cs \<Rightarrow>
          (let neg = (c = CHR ''-''); body = (if c = CHR ''-'' \<or> c = CHR ''+'' then cs else s) in
           case parse_uint0 body of
             None \<Rightarrow> None
           | Some n \<Rightarrow>
               if \<not> neg \<and> n \<ge> 2 ^ 63 then None
               else if neg \<and> n > 2 ^ 63 then None
               else Some (if neg then - n else n)))"

section \<open>The command line\<close>

text \<open>A flag is a variable of one of four types; its value is set in \<open>'f\<close>. A list collects the values
  of all its occurrences.\<close>

datatype 'f flag_var =
    StringVar "string \<Rightarrow> 'f \<Rightarrow> 'f"
  | BoolVar "bool \<Rightarrow> 'f \<Rightarrow> 'f"
  | IntVar "int \<Rightarrow> 'f \<Rightarrow> 'f"
  | ListVar "string \<Rightarrow> 'f \<Rightarrow> 'f"

definition is_bool_flag :: "'f flag_var \<Rightarrow> bool" where
  "is_bool_flag v = (case v of BoolVar _ \<Rightarrow> True | _ \<Rightarrow> False)"

definition set_flag :: "'f flag_var \<Rightarrow> string \<Rightarrow> 'f \<Rightarrow> 'f option" where
  "set_flag v s f =
     (case v of
        StringVar g \<Rightarrow> Some (g s f)
      | ListVar g \<Rightarrow> Some (g s f)
      | BoolVar g \<Rightarrow> (case parse_bool s of None \<Rightarrow> None | Some b \<Rightarrow> Some (g b f))
      | IntVar g \<Rightarrow> (case parse_int0 s of None \<Rightarrow> None | Some n \<Rightarrow> Some (g n f)))"

text \<open>What a parse comes to: the variables and the arguments that are left, a request for the usage
  text, or an error.\<close>

datatype 'f parsed = Parsed 'f "string list" | HelpWanted | BadFlags string

text \<open>An equals sign that is not the first character ends the name.\<close>

definition name_value :: "string \<Rightarrow> string \<times> string option" where
  "name_value s =
     (case s of
        [] \<Rightarrow> ([], None)
      | c # cs \<Rightarrow>
          (if CHR ''='' \<in> set cs
           then (c # takeWhile (\<lambda>x. x \<noteq> CHR ''='') cs, Some (tl (dropWhile (\<lambda>x. x \<noteq> CHR ''='') cs)))
           else (s, None)))"

text \<open>\<open>parseOne\<close> on the first argument: whether it is a flag at all, and the name with its value.\<close>

datatype arg = NoFlag | Terminator | BadSyntax | Flag string "string option"

definition read_arg :: "string \<Rightarrow> arg" where
  "read_arg s =
     (if length s < 2 \<or> hd s \<noteq> CHR ''-'' then NoFlag
      else if s = ''--'' then Terminator
      else
        (let name = (if s ! 1 = CHR ''-'' then drop 2 s else drop 1 s) in
         if name = '''' \<or> hd name = CHR ''-'' \<or> hd name = CHR ''='' then BadSyntax
         else (case name_value name of (n, v) \<Rightarrow> Flag n v)))"

function parse_flags :: "(string \<times> 'f flag_var) list \<Rightarrow> string list \<Rightarrow> 'f \<Rightarrow> 'f parsed" where
  "parse_flags table [] f = Parsed f []"
| "parse_flags table (s # args) f =
     (case read_arg s of
        NoFlag \<Rightarrow> Parsed f (s # args)
      | Terminator \<Rightarrow> Parsed f args
      | BadSyntax \<Rightarrow> BadFlags (''bad flag syntax: '' @ s)
      | Flag n v \<Rightarrow>
          (case map_of table n of
             None \<Rightarrow>
               if n = ''help'' \<or> n = ''h'' then HelpWanted
               else BadFlags (''flag provided but not defined: -'' @ n)
           | Some var \<Rightarrow>
               if is_bool_flag var then
                 (case set_flag var (case v of None \<Rightarrow> ''true'' | Some x \<Rightarrow> x) f of
                    None \<Rightarrow> BadFlags (''invalid boolean value for -'' @ n)
                  | Some f' \<Rightarrow> parse_flags table args f')
               else
                 (case v of
                    Some x \<Rightarrow>
                      (case set_flag var x f of
                         None \<Rightarrow> BadFlags (''invalid value for flag -'' @ n)
                       | Some f' \<Rightarrow> parse_flags table args f')
                  | None \<Rightarrow>
                      (case args of
                         [] \<Rightarrow> BadFlags (''flag needs an argument: -'' @ n)
                       | x # rest \<Rightarrow>
                           (case set_flag var x f of
                              None \<Rightarrow> BadFlags (''invalid value for flag -'' @ n)
                            | Some f' \<Rightarrow> parse_flags table rest f')))))"
  by pat_completeness auto
termination
  by (relation "measure (\<lambda>(_, args, _). length args)") auto

section \<open>Spelling a flag\<close>

text \<open>The two ways to give a value, \<open>--name=value\<close> and \<open>-name value\<close>.\<close>

definition spelled :: "bool \<Rightarrow> string \<Rightarrow> string \<Rightarrow> string list" where
  "spelled joined n v = (if joined then [''--'' @ n @ ''='' @ v] else [''-'' @ n, v])"

definition flag_name :: "string \<Rightarrow> bool" where
  "flag_name n \<longleftrightarrow> n \<noteq> '''' \<and> hd n \<noteq> CHR ''-'' \<and> CHR ''='' \<notin> set n"

lemma name_value_joined: "flag_name n \<Longrightarrow> name_value (n @ CHR ''='' # v) = (n, Some v)"
  by (cases n) (auto simp: flag_name_def name_value_def takeWhile_neq_append dropWhile_neq_append)

lemma name_value_alone: "flag_name n \<Longrightarrow> name_value n = (n, None)"
  by (cases n) (auto simp: flag_name_def name_value_def)

lemma read_joined: "flag_name n \<Longrightarrow> read_arg (''--'' @ n @ ''='' @ v) = Flag n (Some v)"
  using name_value_joined [of n v] by (cases n) (auto simp: read_arg_def flag_name_def)

lemma read_alone: "flag_name n \<Longrightarrow> read_arg (''-'' @ n) = Flag n None"
  using name_value_alone [of n] by (cases n) (auto simp: read_arg_def flag_name_def)

lemma read_terminator: "read_arg ''--'' = Terminator"
  by (simp add: read_arg_def)

lemma parse_spelled:
  assumes "map_of table n = Some var" and "flag_name n" and "\<not> is_bool_flag var" and "set_flag var v f = Some f'"
  shows "parse_flags table (spelled j n v @ args) f = parse_flags table args f'"
  using assms read_joined [OF assms(2), of v] read_alone [OF assms(2)] by (cases j) (simp_all add: spelled_def)

lemma parse_bool_flag:
  assumes "map_of table n = Some (BoolVar g)" and "flag_name n"
  shows "parse_flags table ((''--'' @ n @ ''='' @ (if b then ''true'' else ''false'')) # args) f = parse_flags table args (g b f)"
  using assms read_joined [OF assms(2)] by (simp add: is_bool_flag_def set_flag_def parse_bool_def)

end
