(* ===== verification/Program.thy ===== *)
theory Program
  imports Daemon GoFlag
begin

text \<open>
  The program from its command line to its exit (main.go: the flags of \<open>run\<close>, \<open>stringList\<close>,
  \<open>main\<close>), on top of \<open>run\<close> of theory Daemon. What the flags say is recovered from any command line
  that spells them out.
\<close>

section \<open>The flags\<close>

text \<open>The variables before the command line is read; the block size is read and never used, so it has
  no field.\<close>

definition default_flags :: "host_pkg \<Rightarrow> flags" where
  "default_flags hp =
     \<lparr>rf_mount = '''', rf_repo = ''.'', rf_state = '''', rf_branch = '''', rf_lowers = [], rf_upper = '''',
      rf_blocks = '''', rf_debug = False, rf_probe = False, rf_control = '''', rf_root = '''',
      rf_insecure_tcp = False, rf_token = hp_getenv hp ''FVS2D_TOKEN''\<rparr>"

text \<open>\<open>stringList.Set\<close> and \<open>stringList.String\<close>\<close>

definition string_list_set :: "string \<Rightarrow> string list \<Rightarrow> string list" where
  "string_list_set v s = s @ [v]"

definition string_list_text :: "string list \<Rightarrow> string" where
  "string_list_text s = join_with '','' s"

definition flag_table :: "(string \<times> flags flag_var) list" where
  "flag_table =
     [(''mount'', StringVar (\<lambda>v fl. fl\<lparr>rf_mount := v\<rparr>)),
      (''repo'', StringVar (\<lambda>v fl. fl\<lparr>rf_repo := v\<rparr>)),
      (''state'', StringVar (\<lambda>v fl. fl\<lparr>rf_state := v\<rparr>)),
      (''branch'', StringVar (\<lambda>v fl. fl\<lparr>rf_branch := v\<rparr>)),
      (''lower'', ListVar (\<lambda>v fl. fl\<lparr>rf_lowers := string_list_set v (rf_lowers fl)\<rparr>)),
      (''upper'', StringVar (\<lambda>v fl. fl\<lparr>rf_upper := v\<rparr>)),
      (''blocks'', StringVar (\<lambda>v fl. fl\<lparr>rf_blocks := v\<rparr>)),
      (''debug'', BoolVar (\<lambda>b fl. fl\<lparr>rf_debug := b\<rparr>)),
      (''block-size'', IntVar (\<lambda>_ fl. fl)),
      (''probe'', BoolVar (\<lambda>b fl. fl\<lparr>rf_probe := b\<rparr>)),
      (''control'', StringVar (\<lambda>v fl. fl\<lparr>rf_control := v\<rparr>)),
      (''root'', StringVar (\<lambda>v fl. fl\<lparr>rf_root := v\<rparr>)),
      (''insecure-tcp'', BoolVar (\<lambda>b fl. fl\<lparr>rf_insecure_tcp := b\<rparr>)),
      (''token'', StringVar (\<lambda>v fl. fl\<lparr>rf_token := v\<rparr>))]"

definition read_flags :: "host_pkg \<Rightarrow> string list \<Rightarrow> flags parsed" where
  "read_flags hp args = parse_flags flag_table args (default_flags hp)"

section \<open>The process\<close>

text \<open>A process ends at once with an exit code and its last lines, or it goes on as a manager or a
  mount. Package flag prints the usage text as well, with exit code 0 when it was asked for and 2
  after an error.\<close>

datatype process = Exited nat "string list" | Serving started "string list"

definition fvs2d_main ::
    "(gerror \<Rightarrow> string) \<Rightarrow> host_pkg \<Rightarrow> mount_pkg \<Rightarrow> net_pkg \<Rightarrow> string list \<Rightarrow> os \<Rightarrow> process \<times> os" where
  "fvs2d_main texts hp pk net args s =
     (case read_flags hp args of
        HelpWanted \<Rightarrow> (Exited 0 [], s)
      | BadFlags m \<Rightarrow> (Exited 2 [m], s)
      | Parsed fl rest \<Rightarrow>
          (case run hp pk net fl s of
             (r, out, s') \<Rightarrow>
               (case r of
                  Inl e \<Rightarrow> (case exit_status texts r of (code, line) \<Rightarrow> (Exited code (out @ [line]), s'))
                | Inr (Report lines) \<Rightarrow> (Exited (fst (exit_status texts r)) (out @ lines), s')
                | Inr going \<Rightarrow> (Serving going out, s'))))"

text \<open>What ends the wait of a serving process: a signal, or the mount that is over or the request to
  shut down. A manager logs the mounts that it could not detach and exits with code 0 all the same.\<close>

datatype wait_end = SignalArrived | WaitOver

definition unmount_line :: "(gerror \<Rightarrow> string) \<Rightarrow> manager \<Rightarrow> string \<times> gerror \<Rightarrow> string" where
  "unmount_line texts mgr failure =
     ''manager: unmount '' @ fst failure @ '' ('' @
     (case map_of (mg_mounts mgr) (fst failure) of Some m \<Rightarrow> mt_point m | None \<Rightarrow> '''') @
     '') failed: '' @ error_text texts (snd failure)"

definition leave :: "(gerror \<Rightarrow> string) \<Rightarrow> string list \<Rightarrow> gerror + unit \<Rightarrow> process" where
  "leave texts out r =
     (case exit_status texts r of (code, line) \<Rightarrow> Exited code (out @ (if code = 0 then [] else [line])))"

definition finish ::
    "(gerror \<Rightarrow> string) \<Rightarrow> mount_pkg \<Rightarrow> wait_end \<Rightarrow> process \<Rightarrow> os \<Rightarrow> (process \<times> os) option" where
  "finish texts pk e p s =
     (case p of
        Serving (Mounted server root) out \<Rightarrow>
          (case end_mount pk server (case e of SignalArrived \<Rightarrow> MountSignal | WaitOver \<Rightarrow> MountDone) s of
             (r, s') \<Rightarrow> Some (leave texts out r, s'))
      | Serving (Managing d) out \<Rightarrow>
          (case stop_daemon pk (case e of SignalArrived \<Rightarrow> Signal | WaitOver \<Rightarrow> ShutdownRequest) d s of
             None \<Rightarrow> None
           | Some (failed, d', s') \<Rightarrow>
               Some (leave texts (out @ map (unmount_line texts (dm_mgr d)) failed) (Inr ()), s'))
      | _ \<Rightarrow> None)"

section \<open>Spelling the flags out\<close>

definition flag_args :: "bool \<Rightarrow> flags \<Rightarrow> string list" where
  "flag_args j fl =
     spelled j ''mount'' (rf_mount fl) @ spelled j ''repo'' (rf_repo fl) @ spelled j ''state'' (rf_state fl) @
     spelled j ''branch'' (rf_branch fl) @ concat (map (spelled j ''lower'') (rf_lowers fl)) @
     spelled j ''upper'' (rf_upper fl) @ spelled j ''blocks'' (rf_blocks fl) @
     [''--'' @ ''debug'' @ ''='' @ bool_text (rf_debug fl)] @
     [''--'' @ ''probe'' @ ''='' @ bool_text (rf_probe fl)] @
     spelled j ''control'' (rf_control fl) @ spelled j ''root'' (rf_root fl) @
     [''--'' @ ''insecure-tcp'' @ ''='' @ bool_text (rf_insecure_tcp fl)] @
     spelled j ''token'' (rf_token fl)"

lemma parse_string_flag:
  assumes "map_of flag_table n = Some (StringVar g)" and "flag_name n"
  shows "parse_flags flag_table (spelled j n v @ args) fl = parse_flags flag_table args (g v fl)"
  by (rule parse_spelled [OF assms(1,2)]) (simp_all add: is_bool_flag_def set_flag_def)

lemma parse_lowers:
  "parse_flags flag_table (concat (map (spelled j ''lower'') ls) @ args) fl =
     parse_flags flag_table args (fl\<lparr>rf_lowers := rf_lowers fl @ ls\<rparr>)"
proof (induction ls arbitrary: fl)
  case (Cons l ls)
  have one: "parse_flags flag_table (spelled j ''lower'' l @ as) fl =
      parse_flags flag_table as (fl\<lparr>rf_lowers := rf_lowers fl @ [l]\<rparr>)" for as
    by (rule parse_spelled [where n = "''lower''" and var = "ListVar (\<lambda>v fl. fl\<lparr>rf_lowers := string_list_set v (rf_lowers fl)\<rparr>)"])
      (simp_all add: flag_table_def flag_name_def is_bool_flag_def set_flag_def string_list_set_def)
  show ?case using Cons.IH by (simp add: one)
qed simp

lemma parse_flag:
  "parse_flags flag_table (spelled j ''mount'' v @ args) fl = parse_flags flag_table args (fl\<lparr>rf_mount := v\<rparr>)"
  "parse_flags flag_table (spelled j ''repo'' v @ args) fl = parse_flags flag_table args (fl\<lparr>rf_repo := v\<rparr>)"
  "parse_flags flag_table (spelled j ''state'' v @ args) fl = parse_flags flag_table args (fl\<lparr>rf_state := v\<rparr>)"
  "parse_flags flag_table (spelled j ''branch'' v @ args) fl = parse_flags flag_table args (fl\<lparr>rf_branch := v\<rparr>)"
  "parse_flags flag_table (spelled j ''upper'' v @ args) fl = parse_flags flag_table args (fl\<lparr>rf_upper := v\<rparr>)"
  "parse_flags flag_table (spelled j ''blocks'' v @ args) fl = parse_flags flag_table args (fl\<lparr>rf_blocks := v\<rparr>)"
  "parse_flags flag_table (spelled j ''control'' v @ args) fl = parse_flags flag_table args (fl\<lparr>rf_control := v\<rparr>)"
  "parse_flags flag_table (spelled j ''root'' v @ args) fl = parse_flags flag_table args (fl\<lparr>rf_root := v\<rparr>)"
  "parse_flags flag_table (spelled j ''token'' v @ args) fl = parse_flags flag_table args (fl\<lparr>rf_token := v\<rparr>)"
  by (subst parse_string_flag; simp add: flag_table_def flag_name_def)+

lemma parse_switch:
  "parse_flags flag_table ((''--'' @ ''debug'' @ ''='' @ bool_text b) # args) fl =
     parse_flags flag_table args (fl\<lparr>rf_debug := b\<rparr>)"
  "parse_flags flag_table ((''--'' @ ''probe'' @ ''='' @ bool_text b) # args) fl =
     parse_flags flag_table args (fl\<lparr>rf_probe := b\<rparr>)"
  "parse_flags flag_table ((''--'' @ ''insecure-tcp'' @ ''='' @ bool_text b) # args) fl =
     parse_flags flag_table args (fl\<lparr>rf_insecure_tcp := b\<rparr>)"
  unfolding bool_text_def by (subst parse_bool_flag; simp add: flag_table_def flag_name_def)+

lemma flags_spelled: "read_flags hp (flag_args j fl @ ''--'' # rest) = Parsed fl rest"
  by (simp only: read_flags_def flag_args_def append_assoc append_Cons [of "''--'' @ _"] append_Nil parse_flag parse_lowers parse_switch)
    (simp add: read_terminator default_flags_def)

text \<open>C29: what a command line says is what the program runs with: for all values of the flags, in the
  spelling with an equals sign or in two arguments, and with any arguments after the flags, reading
  the command line that spells the flags out gives them back, the layers in their order.\<close>

theorem flags_roundtrip:
  "read_flags hp (flag_args j fl @ ''--'' # rest) = Parsed fl rest"
  by (rule flags_spelled)

section \<open>From the command line to the mount\<close>

text \<open>A process that ends its wait exits, with code 1 only when a mount of its own could not be unmounted.\<close>

lemma finish_exits:
  assumes "finish texts pk e (Serving going out) s = Some (p, s')"
  shows "\<exists>code lines. p = Exited code (out @ lines) \<and>
    (code = 0 \<or> code = 1 \<and> (\<exists>srv root err. going = Mounted srv root \<and> e = SignalArrived \<and>
       mk_unmount pk srv s = (Inl err, s') \<and> lines = [''ERR: '' @ error_text texts err]))"
  using assms
  by (cases going; cases e)
    (auto simp: finish_def leave_def exit_status_def end_mount_def split: prod.splits option.splits sum.splits)

lemma main_runs:
  assumes "fvs2d_main texts hp pk net (flag_args j fl @ ''--'' # rest) s = (Serving st out, s')"
  shows "run hp pk net fl s = (Inr st, out, s')"
  using assms
  by (auto simp: fvs2d_main_def flags_spelled split: prod.splits sum.splits started.splits)

lemma run_mounted:
  assumes "run hp pk net fl s = (Inr (Mounted srv root), out, s')"
  obtains s1 t where "dev_fuse_accessible s = (True, s1)" "fusermount_available pk s1"
    "rf_mount fl \<noteq> ''''" "rf_control fl = ''''" "\<not> rf_probe fl"
    "lower_tree (mk_repo pk s1) fl = Inr t" "fs_lower root = Some t" "fs_upper root = rf_upper fl"
proof -
  obtain dev s1 where d: "dev_fuse_accessible s = (dev, s1)" by force
  then have ok: "dev" "fusermount_available pk s1" "rf_mount fl \<noteq> ''''" "rf_control fl = ''''" "\<not> rf_probe fl"
    and m: "run_mount pk fl s1 = (Inr (Mounted srv root), s')"
    using assms by (auto simp: run_def Let_def split: if_splits sum.splits prod.splits)
  from m obtain t where "lower_tree (mk_repo pk s1) fl = Inr t" "fs_lower root = Some t" "fs_upper root = rf_upper fl"
    by (auto simp: run_mount_def new_fuse_root_def Let_def split: sum.splits prod.splits if_splits)
  then show thesis using that d ok by simp
qed

end
