(* ===== verification/Spec2Isabelle.thy ===== *)
theory Spec2Isabelle
  imports PathGuard MountProps TidyMount ManagerProps ServiceProps DiffProps ControlProps LocalAddress DaemonSteps Program
begin

text \<open>
  fvs2d, the mount daemon of fvs2 (src/cmd/fvs2d and src/internal/runtime), as definitions with
  their correctness theorems.

  \<^bold>\<open>The program.\<close> A repository of fvs2 holds committed states. A state is a flat list of file entries
  whose contents are blocks of a content-addressed store. The daemon mounts states with FUSE. tree.go
  turns the entries of one state, or of several that are stacked with whiteouts, into a tree of inodes
  and reads files from the block stores. fuse.go serves that tree to the kernel, under a writable
  upper directory of the host that takes what clients change; what they delete is remembered there as
  whiteout files. manager.go keeps a registry of mounts, shares the trees of equal layers between
  them, and answers the calls of a gRPC service: mounting and unmounting, what a mount changed, and
  the repository operations. pathguard.go keeps every path that clients supply inside a configured
  root; auth.go asks for a token on public addresses; main.go reads the flags and runs one mount or
  the manager.

  \<^bold>\<open>The model.\<close> A Go struct is a record, an error a value of \<open>gerror\<close> on the left of a sum, a map an
  association list, a byte string a \<open>string\<close>. Modes and identities are 32 bit words, int64 values are
  \<open>int\<close> wrapped by \<open>i64\<close> where the code adds or subtracts. The host is the state \<open>os\<close>: its nodes by
  absolute path, and a script of faults that lets any changing call fail. A function that touches the
  host returns its result with the new host. Sections under a mutex are single definitions; where
  calls run at the same time they interleave at those sections.

  \<^bold>\<open>Theories, from the ground up.\<close>

  \<^item> Prelude: error values, \<open>i64\<close>, dictionaries (locale \<open>dictionary\<close>, interpreted by association
    lists), transition systems (\<open>reachable\<close>, locale \<open>invariant_system\<close>).
  \<^item> GoPath, GoText, GoNet, GoFlag: what the daemon calls of packages strings, path, strconv, sort, net
    and flag, and the path helpers of fuse.go (\<open>validName\<close>, \<open>joinPath\<close>, \<open>splitPath\<close>).
  \<^item> OsFs: the path walk of the kernel and the calls of packages os and syscall. UpperDir: what those
    calls do to a directory tree without symbolic links.
  \<^item> PathGuard (pathguard.go).
  \<^item> FsTree, ReadAt, LayerMerge (tree.go): \<open>buildTree\<close> and the lookups (locale \<open>tree_view\<close>), \<open>readAt\<close> and
    \<open>multiStore\<close>, layer selectors and \<open>buildMergedTreeFromRepos\<close>. \<open>view_of\<close> and \<open>layered\<close> are the
    abstract views of entries and of layers.
  \<^item> Overlay (fuse.go): one definition per FUSE operation (locale \<open>node_maker\<close> for create, mkdir and
    symlink). OverlayCopy: copying up and renaming. OverlayProps: the properties of the merged view.
  \<^item> CallClosed: relations that every call respects hold of every operation (locales \<open>call_closed\<close>,
    \<open>op_closed\<close>, \<open>mount_closed\<close>). Containment: what each operation can change on the host. MountSteps:
    a mount in use as a transition system over the requests of the kernel. MountProps: what clients
    can rely on. UpperLayer: the upper directory, committed, is the layer that the mount shows.
    TidyMount: for clients that use no whiteout names the whiteouts are in order at any time.
  \<^item> ServiceBase (errors.go, progress.go and the message helpers of manager.go), RepoService and
    FileService (the repository handlers of manager.go), ServiceProps (locale \<open>gated\<close>: the guard comes
    first in every handler).
  \<^item> Manager (\<open>mountManager\<close> of manager.go), ManagerSteps (interleavings of its locked sections),
    ManagerProps. DiffUpper and DiffProps (\<open>DiffMount\<close> with \<open>diffUpperDir\<close>).
  \<^item> ControlServer (auth.go and \<open>startManagerServer\<close>), ControlProps (locale \<open>interceptor\<close>), LocalAddress
    (which texts of hosts and addresses \<open>isLoopbackAddr\<close> takes for local), Daemon (the mount handlers, runtime.go, \<open>run\<close> and \<open>runManager\<close>), DaemonSteps (the life of a daemon with a
    root), Program (flags, \<open>main\<close>, exit).

  \<^bold>\<open>What is shown.\<close> The tree has at every path what the entries say; a read returns the bytes of the
  range and looks at no other block; stacking layers is the layered view, as long as no file of it lies
  above another entry. From a command line to the
  mounted tree: what the flags select is what the mount shows. Listing, creating, removing, renaming
  and copying up do to the merged view what they should and leave the rest alone, and undo themselves
  when they fail, if the host does not make another error meanwhile. Requests that meet no hidden link
  change nothing outside the upper directory, whatever errors the host makes. The upper directory, committed as a layer, gives the same view again, and without faults of the host
  and without whiteout names of clients it can be committed at any time. The guard lets nothing out of the
  root, no handler acts before it, and no live mount is ever outside. Reference counts of shared trees
  are exact in every interleaving. \<open>DiffMount\<close> reports exactly the changes and prunes exactly the files that
  are unchanged. Progress, paging and \<open>GetFile\<close> lose and duplicate nothing. A public server serves nothing
  without its token.

  \<^bold>\<open>Bounds and fuel.\<close> \<open>diff_upper\<close> recurses over directories of the host, with fuel; \<open>diff_mount\<close> starts with one
  more than the depth of the tree, which \<open>diff_mount_total\<close> shows to be enough. The path walk gives up
  after 40 symbolic links, as Linux does. The loops over blocks, chunks and lines have termination
  proofs. Read properties ask for offsets whose end fits into 63 bits.

  \<^bold>\<open>Parameters.\<close> The packages repo and core of fvs2 (\<open>repo_pkg\<close>, \<open>svc_pkg\<close>), go-fuse (\<open>fuse_lib\<close>: error
  numbers, attributes, open host files), mounting, programs, random bytes and foreign error texts
  (\<open>mount_pkg\<close>), listeners (\<open>net_pkg\<close>), environment and process id (\<open>host_pkg\<close>), the streams and metadata
  of gRPC. \<open>file_law\<close> (writes to an open file change that file) and \<open>commits\<close> (a committed directory lists
  its files), and \<open>use_law\<close> (writes make and remove no node), are what the properties ask of them.

  \<^bold>\<open>Flaws found.\<close> Each has its theorem next to the definitions: whiteout names are open to clients, so a
  hidden link can be followed out of the upper directory (\<open>whiteout_name_escapes\<close>); a directory with
  whiteouts cannot be removed (\<open>rmdir_blocked\<close>); renaming a lower directory loses its unchanged files
  (\<open>rename_loses_lower_children\<close>); when a new whiteout cannot be closed, unlink fails and hides the name
  all the same (\<open>whiteout_close_hides\<close>); an opaque marker at the root of a layer hides nothing
  (\<open>root_opaque_hides_nothing\<close>); a file of the top layer can lose to an older directory
  (\<open>leaf_loses_to_lower_layer\<close>); a failed unmount is forgotten (\<open>unmount_forgets\<close>); the guard refuses
  every path below the root / (\<open>check_top_root\<close>); and smaller ones of \<open>GetFile\<close>, \<open>Diff\<close>, pruning and
  the Unix socket.

  \<^bold>\<open>Not modelled.\<close> The generated protocol buffers (a message is a record of the handler that uses it);
  the goroutine that serves connections and the health service; the delivery of signals, whose arrival
  is an argument; permission checks of the host, which are faults of the script; hard links, and the
  size and times of host nodes beyond what the operations read and set. \<open>mount_contained\<close> is about
  requests that the kernel sends: names looked up one by one, links followed by the kernel itself; its
  one condition that the kernel does not guarantee is that no link hides behind a whiteout, which
  \<open>mount_stays_tidy\<close> shows for clients without whiteout names on a host without faults.
\<close>

section \<open>One mount, from the flags to the tree\<close>

text \<open>C25: when a command line makes the program mount one repository, the mounted file system shows
  the state that the flags select: the lower tree has, at every path, what the entries of that state
  say, and the upper directory is the one of the flags. It does this only without --control and
  --probe, and only when the FUSE device and fusermount are there.\<close>

theorem main_serves_state:
  assumes "fvs2d_main texts hp pk net (flag_args j fl @ ''--'' # rest) s = (Serving (Mounted srv root) out, s')"
    and "rf_lowers fl = []"
  shows "\<exists>s1 rc t. dev_fuse_accessible s = (True, s1) \<and> fusermount_available pk s1 \<and>
    resolve_layer (mk_repo pk s1) \<lparr>ls_repo = rf_repo fl, ls_state = rf_state fl, ls_branch = rf_branch fl\<rparr> = Inr rc \<and>
    fs_lower root = Some t \<and> fs_upper root = rf_upper fl \<and>
    (\<forall>p. map_option erase (lookup_tree_path t p) = map_option (view_node (comps p)) (view_of (rc_files rc) (comps p))) \<and>
    rf_mount fl \<noteq> '''' \<and> rf_control fl = '''' \<and> \<not> rf_probe fl"
proof -
  obtain s1 t where m: "dev_fuse_accessible s = (True, s1)" "fusermount_available pk s1"
    "rf_mount fl \<noteq> ''''" "rf_control fl = ''''" "\<not> rf_probe fl"
    "lower_tree (mk_repo pk s1) fl = Inr t" "fs_lower root = Some t" "fs_upper root = rf_upper fl"
    by (rule run_mounted [OF main_runs [OF assms(1)]])
  then obtain rc st bs where rc: "resolve_layer (mk_repo pk s1) \<lparr>ls_repo = rf_repo fl, ls_state = rf_state fl, ls_branch = rf_branch fl\<rparr> = Inr rc"
    "t = build_tree st bs (rc_files rc)"
    using assms(2) by (auto simp: lower_tree_def build_tree_from_repo_def split: sum.splits)
  show ?thesis
    by (intro exI [of _ s1] exI [of _ rc] exI [of _ t] conjI allI)
      (use m rc lookup_build_tree_comps in simp_all)
qed

definition demo_flags :: flags where
  "demo_flags = \<lparr>rf_mount = ''/m'', rf_repo = ''/r'', rf_state = ''s1'', rf_branch = '''', rf_lowers = [],
     rf_upper = ''/u'', rf_blocks = '''', rf_debug = False, rf_probe = False, rf_control = '''', rf_root = '''',
     rf_insecure_tcp = False, rf_token = ''''\<rparr>"

definition fuse_host :: os where
  "fuse_host = host_with [([''dev''], plain_dir), ([''dev'', ''fuse''], text_file\<lparr>u_body := BOther 0x2000\<rparr>)]"

definition demo_hp :: host_pkg where
  "demo_hp = \<lparr>hp_getenv = (\<lambda>_. ''''), hp_pid = 1, hp_min_format = 1, hp_current_format = 2\<rparr>"

definition demo_main :: "flags \<Rightarrow> process \<times> os" where
  "demo_main fl = fvs2d_main (\<lambda>_. ''error'') demo_hp (demo_mk\<lparr>mk_look_path := \<lambda>_ _. Inr ''/bin/fusermount3''\<rparr>)
     demo_net (flag_args True fl @ ''--'' # []) fuse_host"

definition mounts :: "process \<times> os \<Rightarrow> bool" where
  "mounts r \<longleftrightarrow> (case fst r of Serving (Mounted srv root) out \<Rightarrow> True | _ \<Rightarrow> False)"

lemma mountsE:
  assumes "mounts r"
  obtains srv root out s where "r = (Serving (Mounted srv root) out, s)"
  using assms by (cases r) (auto simp: mounts_def split: process.splits started.splits)

theorem main_serves_state_witness:
  "\<exists>srv root out s'. demo_main demo_flags = (Serving (Mounted srv root) out, s') \<and> fs_upper root = ''/u''"
proof -
  have "mounts (demo_main demo_flags)" by code_simp
  then obtain srv root out s' where r: "demo_main demo_flags = (Serving (Mounted srv root) out, s')" by (rule mountsE)
  have "rf_lowers demo_flags = []" "rf_upper demo_flags = ''/u''" by (simp_all add: demo_flags_def)
  with main_serves_state [OF r [unfolded demo_main_def]] r show ?thesis by auto
qed

text \<open>C26: with layers on the command line, the mounted file system has the layers they name, resolved in
  order, and the upper directory of the flags. As long as no file or link of the stacked view lies above
  another entry, it shows that view: every entry is at its path, and nothing is where no entry is or
  lies below.\<close>

theorem main_serves_layers:
  assumes "fvs2d_main texts hp pk net (flag_args j fl @ ''--'' # rest) s = (Serving (Mounted srv root) out, s')"
    and "rf_lowers fl \<noteq> []"
  shows "\<exists>s1 layers t. dev_fuse_accessible s = (True, s1) \<and> fusermount_available pk s1 \<and>
    resolve_lowers (mk_repo pk s1) (rf_lowers fl) = Inr layers \<and>
    fs_lower root = Some t \<and> fs_upper root = rf_upper fl \<and>
    (apart layers \<longrightarrow> (\<forall>p f. layered layers p = Some f \<longrightarrow>
       map_option erase (lookup_tree_path t p) = Some (view_node (comps p) (entry_view f)))) \<and>
    (apart layers \<longrightarrow> (\<forall>p. p \<noteq> '''' \<longrightarrow> (\<forall>q. layered layers q \<noteq> None \<longrightarrow> \<not> prefix (comps p) (comps q)) \<longrightarrow>
       lookup_tree_path t p = None))"
proof -
  obtain s1 t where m: "dev_fuse_accessible s = (True, s1)" "fusermount_available pk s1"
    "lower_tree (mk_repo pk s1) fl = Inr t" "fs_lower root = Some t" "fs_upper root = rf_upper fl"
    by (rule run_mounted [OF main_runs [OF assms(1)]])
  then obtain layers where l: "resolve_lowers (mk_repo pk s1) (rf_lowers fl) = Inr layers"
    "build_merged_tree (mk_repo pk s1) layers (rf_blocks fl) = Inr t"
    using assms(2) by (auto simp: lower_tree_def split: sum.splits)
  show ?thesis
    by (intro exI [of _ s1] exI [of _ layers] exI [of _ t] conjI impI allI)
      (use m l merged_lookup [OF l(2)] in auto)
qed

definition layer_flags :: flags where
  "layer_flags = demo_flags\<lparr>rf_lowers := [''/r@s1'', ''/q@s2'']\<rparr>"

text \<open>Two repositories with files: the upper layer deletes \<open>a\<close> and adds \<open>d/y\<close>.\<close>

definition layers_mk :: mount_pkg where
  "layers_mk = demo_mk\<lparr>mk_look_path := \<lambda>_ _. Inr ''/bin/fusermount3'',
     mk_repo := \<lambda>_. demo_pkg\<lparr>rp_state_files := \<lambda>_ i.
       Inr (if i = ''s1'' then [file_at ''a'', file_at ''d/x''] else [file_at ''.wh.a'', file_at ''d/y''])\<rparr>\<rparr>"

definition layers_main :: "process \<times> os" where
  "layers_main = fvs2d_main (\<lambda>_. ''error'') demo_hp layers_mk demo_net (flag_args True layer_flags @ ''--'' # []) fuse_host"

lemma layers_resolved:
  assumes "resolve_lowers (mk_repo layers_mk s) (rf_lowers layer_flags) = Inr layers"
  shows "layered layers = layered demo_layers"
proof -
  have "(case resolve_lowers (mk_repo layers_mk s) (rf_lowers layer_flags) of Inl _ \<Rightarrow> [] | Inr ls \<Rightarrow> map rc_files ls) =
      map rc_files demo_layers"
    by code_simp
  then have "map rc_files layers = map rc_files demo_layers" using assms by simp
  then show ?thesis by (simp only: layered_def)
qed

theorem main_serves_layers_witness:
  "\<exists>srv root out s' t. layers_main = (Serving (Mounted srv root) out, s') \<and> fs_lower root = Some t \<and>
     map_option erase (lookup_tree_path t ''d/x'') = Some (view_node [''d'', ''x''] (VLeaf (file_at ''d/x''))) \<and>
     map_option erase (lookup_tree_path t ''d/y'') = Some (view_node [''d'', ''y''] (VLeaf (file_at ''d/y''))) \<and>
     lookup_tree_path t ''a'' = None"
proof -
  have "mounts layers_main" by code_simp
  then obtain srv root out s' where r: "layers_main = (Serving (Mounted srv root) out, s')" by (rule mountsE)
  have "rf_lowers layer_flags \<noteq> []" by (simp add: layer_flags_def)
  with main_serves_layers [OF r [unfolded layers_main_def]] obtain s1 layers t where
    t: "resolve_lowers (mk_repo layers_mk s1) (rf_lowers layer_flags) = Inr layers" "fs_lower root = Some t"
    "apart layers \<longrightarrow> (\<forall>p f. layered layers p = Some f \<longrightarrow>
       map_option erase (lookup_tree_path t p) = Some (view_node (comps p) (entry_view f)))"
    "apart layers \<longrightarrow> (\<forall>p. p \<noteq> '''' \<longrightarrow> (\<forall>q. layered layers q \<noteq> None \<longrightarrow> \<not> prefix (comps p) (comps q)) \<longrightarrow>
       lookup_tree_path t p = None)"
    by blast
  note same = layers_resolved [OF t(1)]
  have "apart layers" using demo_apart by (simp only: apart_def same)
  moreover have "layered demo_layers ''d/x'' = Some (file_at ''d/x'')" "layered demo_layers ''d/y'' = Some (file_at ''d/y'')"
    "entry_view (file_at ''d/x'') = VLeaf (file_at ''d/x'')" "entry_view (file_at ''d/y'') = VLeaf (file_at ''d/y'')"
    by code_simp+
  moreover have "\<not> prefix (comps ''a'') (comps q)" if "layered demo_layers q \<noteq> None" for q
    using demo_layered [OF that] demo_comps by auto
  ultimately have "map_option erase (lookup_tree_path t ''d/x'') = Some (view_node (comps ''d/x'') (VLeaf (file_at ''d/x'')))"
    "map_option erase (lookup_tree_path t ''d/y'') = Some (view_node (comps ''d/y'') (VLeaf (file_at ''d/y'')))"
    "lookup_tree_path t ''a'' = None"
    using t(3,4) unfolding same by (metis, metis, blast)
  then show ?thesis using r t(2) unfolding demo_comps by blast
qed

end
